(* ===== verification/Go_Prelude.thy ===== *)
theory Go_Prelude
  imports Complex_Main "HOL-Library.Word" "HOL-Library.Multiset" "HOL-Library.List_Lexorder"
    "HOL-Library.Char_ord" "HOL-Library.Product_Lexorder"
begin

text \<open>
  What the components share: the Go language and standard-library features they use.
  Go strings are byte lists (\<open>string\<close>, one \<open>char\<close> per byte, so \<open>length\<close> is Go's
  \<open>len\<close>); \<open>strings.ToLower\<close> and \<open>strings.TrimSpace\<close> are modelled on ASCII text, bytes
  above 127 being left alone.  A \<open>time.Time\<close> is the number of nanoseconds since Go's zero time
  (January 1, year 1, UTC), a \<open>time.Duration\<close> a number of nanoseconds.  Go's 64-bit \<open>int\<close> and
  \<open>int64\<close> are \<open>int\<close> with the wrap-around written out by \<open>i64\<close> at every operation that can leave
  the range.  A Go \<open>error\<close> is its message; a function that returns \<open>(T, error)\<close> returns a pair
  whose second part is \<open>None\<close> for \<open>nil\<close>.  A Go map is a partial function, and an iteration over it
  takes the order of its keys, which Go leaves open, as an argument.
\<close>

named_theorems go_defs \<open>definitions of the standard-library functions of the prelude\<close>
named_theorems go_bounds \<open>range facts of 64-bit arithmetic\<close>

type_synonym go_error = string
type_synonym time = int
type_synonym duration = int

section \<open>64-bit integers\<close>

definition i64 :: "int \<Rightarrow> int" where
  "i64 x = (x + 2 ^ 63) mod 2 ^ 64 - 2 ^ 63"

definition in_i64 :: "int \<Rightarrow> bool" where
  "in_i64 x \<longleftrightarrow> - (2 ^ 63) \<le> x \<and> x < 2 ^ 63"

definition max_i64 :: int where
  "max_i64 = 2 ^ 63 - 1"

definition min_i64 :: int where
  "min_i64 = - (2 ^ 63)"

lemma i64_id [simp]: "in_i64 x \<Longrightarrow> i64 x = x"
  by (simp add: i64_def in_i64_def)

lemma in_i64_i64 [simp, go_bounds]: "in_i64 (i64 x)"
proof -
  have "0 \<le> (x + 2 ^ 63) mod 2 ^ 64" and "(x + 2 ^ 63) mod 2 ^ 64 < 2 ^ 64"
    by simp_all
  then show ?thesis by (simp add: i64_def in_i64_def)
qed

lemma i64_minus_period: "i64 (x - 2 ^ 64) = i64 x"
proof -
  have "x - 2 ^ 64 + 2 ^ 63 = x + 2 ^ 63 - 2 ^ 64" by simp
  then show ?thesis unfolding i64_def by (simp only: minus_mod_self2)
qed

lemma i64_succ_neq: "i64 (x + 1) \<noteq> x"
proof
  assume "i64 (x + 1) = x"
  then have "(x + 1 + 2 ^ 63) mod 2 ^ 64 = (x + 2 ^ 63 :: int)" by (simp add: i64_def)
  then have "(x + 1 + 2 ^ 63) mod 2 ^ 64 = (x + 2 ^ 63) mod (2 ^ 64 :: int)" by (metis mod_mod_trivial)
  then have "(2 ^ 64 :: int) dvd (x + 1 + 2 ^ 63) - (x + 2 ^ 63)" by (simp only: mod_eq_dvd_iff)
  then show False by simp
qed

text \<open>The written-out wrap-around is two's complement at 64 bits.\<close>

lemma i64_eq_sint: "i64 x = sint (word_of_int x :: 64 word)"
  by (simp add: i64_def sint_sbintrunc' signed_take_bit_eq_take_bit_shift take_bit_eq_mod)

section \<open>Time\<close>

definition second :: duration where
  "second = 1000000000"

definition millisecond :: duration where
  "millisecond = 1000000"

text \<open>\<open>Time.Sub\<close> saturates at the ends of the 64-bit range.\<close>

definition time_sub :: "time \<Rightarrow> time \<Rightarrow> duration" where
  "time_sub t u = max min_i64 (min max_i64 (t - u))"

lemma time_sub_in_i64 [go_bounds]: "in_i64 (time_sub t u)"
  by (auto simp: time_sub_def in_i64_def min_i64_def max_i64_def)

text \<open>\<open>time.Unix(sec, 0)\<close>: the seconds are shifted to Go's internal epoch in 64-bit arithmetic.\<close>

definition unix_to_internal :: int where
  "unix_to_internal = 62135596800"

definition time_Unix :: "int \<Rightarrow> time" where
  "time_Unix sec = i64 (sec + unix_to_internal) * second"

section \<open>Strings\<close>

definition is_space :: "char \<Rightarrow> bool" where
  "is_space c \<longleftrightarrow> c \<in> {CHR '' '', CHR 0x09, CHR 0x0A, CHR 0x0B, CHR 0x0C, CHR 0x0D}"

definition TrimSpace :: "string \<Rightarrow> string" where
  "TrimSpace s = rev (dropWhile is_space (rev (dropWhile is_space s)))"

definition lower_char :: "char \<Rightarrow> char" where
  "lower_char c =
     (if 65 \<le> (of_char c :: nat) \<and> (of_char c :: nat) \<le> 90 then char_of ((of_char c :: nat) + 32) else c)"

definition ToLower :: "string \<Rightarrow> string" where
  "ToLower s = map lower_char s"

fun HasPrefix :: "string \<Rightarrow> string \<Rightarrow> bool" where
  "HasPrefix s [] = True"
| "HasPrefix [] (p # ps) = False"
| "HasPrefix (c # s) (p # ps) = (c = p \<and> HasPrefix s ps)"

fun strings_Contains :: "string \<Rightarrow> string \<Rightarrow> bool" where
  "strings_Contains [] p = HasPrefix [] p"
| "strings_Contains (c # s) p = (HasPrefix (c # s) p \<or> strings_Contains s p)"

definition HasSuffix :: "string \<Rightarrow> string \<Rightarrow> bool" where
  "HasSuffix s p = HasPrefix (rev s) (rev p)"

declare is_space_def [go_defs] TrimSpace_def [go_defs] lower_char_def [go_defs] ToLower_def [go_defs]
  HasSuffix_def [go_defs]

lemma HasPrefix_iff: "HasPrefix s p \<longleftrightarrow> (\<exists>r. s = p @ r)"
  by (induction s p rule: HasPrefix.induct) auto

lemma strings_Contains_iff: "strings_Contains s p \<longleftrightarrow> (\<exists>a b. s = a @ p @ b)"
proof (induction s p rule: strings_Contains.induct)
  case (1 p)
  then show ?case by (auto simp: HasPrefix_iff)
next
  case (2 c s p)
  have "(\<exists>a b. c # s = a @ p @ b) \<longleftrightarrow> (\<exists>b. c # s = p @ b) \<or> (\<exists>a b. s = a @ p @ b)"
    by (metis Cons_eq_append_conv append_Cons append_Nil)
  with 2 show ?case by (simp add: HasPrefix_iff)
qed

lemma lower_char_idem [simp]: "lower_char (lower_char c) = lower_char c"
proof (cases "65 \<le> (of_char c :: nat) \<and> (of_char c :: nat) \<le> 90")
  case True
  then have "(of_char (lower_char c) :: nat) = of_char c + 32"
    by (simp add: lower_char_def)
  with True show ?thesis by (simp add: lower_char_def [of "lower_char c"])
qed (auto simp: lower_char_def)

lemma is_space_lower [simp]: "is_space (lower_char c) = is_space c"
proof (cases "65 \<le> (of_char c :: nat) \<and> (of_char c :: nat) \<le> 90")
  case True
  then have l: "(of_char (lower_char c) :: nat) = of_char c + 32"
    by (simp add: lower_char_def)
  have sp: "is_space d \<Longrightarrow> (of_char d :: nat) \<le> 32" for d
    by (auto simp: is_space_def)
  from True have "\<not> is_space c" using sp [of c] by auto
  moreover from True l have "\<not> is_space (lower_char c)" using sp [of "lower_char c"] by auto
  ultimately show ?thesis by simp
qed (auto simp: lower_char_def)

lemma ToLower_idem [simp]: "ToLower (ToLower s) = ToLower s"
  by (simp add: ToLower_def)

lemma dropWhile_map_lower:
  "dropWhile is_space (map lower_char s) = map lower_char (dropWhile is_space s)"
  by (simp add: dropWhile_map comp_def)

lemma TrimSpace_ToLower: "TrimSpace (ToLower s) = ToLower (TrimSpace s)"
  by (simp add: TrimSpace_def ToLower_def dropWhile_map_lower rev_map)

lemma dropWhile_is_Nil_or_hd: "dropWhile P xs = [] \<or> \<not> P (hd (dropWhile P xs))"
  using hd_dropWhile [of P xs] by (auto simp: dropWhile_eq_Nil_conv)

lemma TrimSpace_idem [simp]: "TrimSpace (TrimSpace s) = TrimSpace s"
proof -
  let ?a = "dropWhile is_space s"
  let ?b = "dropWhile is_space (rev ?a)"
  have drop_id: "dropWhile is_space xs = xs" if "xs = [] \<or> \<not> is_space (hd xs)" for xs :: string
    using that by (cases xs) auto
  obtain w where w: "rev ?a = w @ ?b" by (metis takeWhile_dropWhile_id)
  have "rev ?b = [] \<or> \<not> is_space (hd (rev ?b))"
  proof (cases "?b = []")
    case False
    have "?a = rev ?b @ rev w" using w by (metis rev_append rev_rev_ident)
    moreover have nb: "rev ?b \<noteq> []" using False by simp
    ultimately have "hd ?a = hd (rev ?b)" and "?a \<noteq> []" by (metis hd_append2, metis append_is_Nil_conv)
    then show ?thesis using dropWhile_is_Nil_or_hd [of is_space s] by metis
  qed simp
  then have "dropWhile is_space (rev ?b) = rev ?b" by (rule drop_id)
  moreover have "dropWhile is_space ?b = ?b"
    by (rule drop_id) (rule dropWhile_is_Nil_or_hd)
  ultimately show ?thesis by (simp add: TrimSpace_def)
qed

section \<open>Decimal printing: the loop the packages share\<close>

text \<open>
  \<^verbatim>\<open>for n > 0 { b = append([]byte{byte('0' + n%10)}, b...); n /= 10 }\<close> is written out three
  times in the program (\<open>itoa\<close>, \<open>formatSeq\<close>, \<open>formatInt\<close>); the model names it once.
\<close>

definition digit_char :: "int \<Rightarrow> char" where
  "digit_char d = char_of (48 + nat d)"

function prepend_digits :: "int \<Rightarrow> string \<Rightarrow> string" where
  "prepend_digits n b = (if n > 0 then prepend_digits (n div 10) (digit_char (n mod 10) # b) else b)"
  by pat_completeness auto
termination
  by (relation "measure (\<lambda>(n, b). nat n)") auto

declare prepend_digits.simps [simp del]

lemma prepend_digits_nonpos [simp]: "n \<le> 0 \<Longrightarrow> prepend_digits n b = b"
  by (simp add: prepend_digits.simps [of n b])

text \<open>Reading decimal digits back, the specification of the loop.\<close>

fun dec_val :: "string \<Rightarrow> int \<Rightarrow> int" where
  "dec_val [] acc = acc"
| "dec_val (c # cs) acc = dec_val cs (10 * acc + (int (of_char c) - 48))"

definition is_digit :: "char \<Rightarrow> bool" where
  "is_digit c \<longleftrightarrow> 48 \<le> (of_char c :: nat) \<and> (of_char c :: nat) \<le> 57"

lemma of_char_digit_char: "0 \<le> d \<Longrightarrow> d < 10 \<Longrightarrow> (of_char (digit_char d) :: nat) = 48 + nat d"
  by (simp add: digit_char_def)

lemma dec_val_prepend_digits: "0 \<le> n \<Longrightarrow> dec_val (prepend_digits n b) 0 = dec_val b n"
proof (induction n b rule: prepend_digits.induct)
  case (1 n b)
  show ?case
  proof (cases "n > 0")
    case True
    have d: "int (of_char (digit_char (n mod 10))) = 48 + n mod 10"
      using of_char_digit_char [of "n mod 10"] by simp
    from True 1 have "dec_val (prepend_digits n b) 0 = dec_val (digit_char (n mod 10) # b) (n div 10)"
      by (simp add: prepend_digits.simps [of n b])
    with d show ?thesis by simp
  next
    case False
    with 1 show ?thesis by simp
  qed
qed

lemma prepend_digits_digits:
  "list_all is_digit b \<Longrightarrow> list_all is_digit (prepend_digits n b)"
proof (induction n b rule: prepend_digits.induct)
  case (1 n b)
  have "is_digit (digit_char (n mod 10))"
    using of_char_digit_char [of "n mod 10"] by (simp add: is_digit_def)
  with 1 show ?case by (cases "n > 0") (simp_all add: prepend_digits.simps [of n b])
qed

lemma prepend_digits_inj:
  assumes "0 \<le> m" "0 \<le> n" "prepend_digits m [] = prepend_digits n []"
  shows "m = n"
proof -
  have "dec_val (prepend_digits m []) 0 = dec_val (prepend_digits n []) 0" by (simp only: assms(3))
  then show ?thesis using assms(1,2) by (simp only: dec_val_prepend_digits dec_val.simps)
qed

text \<open>The verb \<open>%d\<close> of \<open>fmt\<close> and \<open>strconv.Itoa\<close>.\<close>

definition fmt_d :: "int \<Rightarrow> string" where
  "fmt_d n = (if n = 0 then ''0'' else if n < 0 then CHR ''-'' # prepend_digits (- n) [] else prepend_digits n [])"

section \<open>Iteration over maps\<close>

text \<open>
  \<open>for k, v := range m\<close> visits every key once, in an order Go leaves open: the order is an argument
  \<open>ks\<close>, and a key that the loop has deleted is skipped.
\<close>

definition iteration_order :: "('k \<rightharpoonup> 'v) \<Rightarrow> 'k list \<Rightarrow> bool" where
  "iteration_order m ks \<longleftrightarrow> distinct ks \<and> set ks = dom m"

definition map_values :: "('k \<rightharpoonup> 'v) \<Rightarrow> 'k list \<Rightarrow> 'v list" where
  "map_values m ks = concat (map (\<lambda>k. case m k of None \<Rightarrow> [] | Some v \<Rightarrow> [v]) ks)"

lemma map_values_Nil [simp]: "map_values m [] = []"
  by (simp add: map_values_def)

lemma map_values_Cons [simp]:
  "map_values m (k # ks) = (case m k of None \<Rightarrow> map_values m ks | Some v \<Rightarrow> v # map_values m ks)"
  by (simp add: map_values_def split: option.splits)

lemma set_map_values: "set (map_values m ks) = {v. \<exists>k \<in> set ks. m k = Some v}"
  by (induction ks) (auto split: option.splits)

lemma set_map_values_order: "iteration_order m ks \<Longrightarrow> set (map_values m ks) = ran m"
  by (auto simp: set_map_values iteration_order_def ran_def dom_def)

lemma mset_map_values_cong: "mset ks = mset ks' \<Longrightarrow> mset (map_values m ks) = mset (map_values m ks')"
proof -
  have "mset (map_values m ks) = sum_mset (image_mset (\<lambda>k. case m k of None \<Rightarrow> {#} | Some v \<Rightarrow> {#v#}) (mset ks))" for ks
    by (induction ks) (auto split: option.splits)
  then show "mset ks = mset ks' \<Longrightarrow> mset (map_values m ks) = mset (map_values m ks')" by simp
qed

lemma iteration_order_mset: "iteration_order m ks \<Longrightarrow> iteration_order m ks' \<Longrightarrow> mset ks = mset ks'"
  unfolding iteration_order_def by (metis set_eq_iff_mset_eq_distinct)

lemma map_values_length: "iteration_order m ks \<Longrightarrow> length (map_values m ks) = length ks"
proof -
  have "set ks \<subseteq> dom m \<Longrightarrow> length (map_values m ks) = length ks"
    by (induction ks) (auto split: option.splits)
  then show "iteration_order m ks \<Longrightarrow> length (map_values m ks) = length ks"
    by (simp add: iteration_order_def)
qed

lemma map_values_distinct:
  "distinct ks \<Longrightarrow> (\<And>k v. m k = Some v \<Longrightarrow> key v = k) \<Longrightarrow> distinct (map_values m ks)"
proof (induction ks)
  case (Cons k ks)
  have "v \<notin> set (map_values m ks)" if "m k = Some v" for v
    using that Cons.prems by (auto simp: set_map_values)
  with Cons show ?case by (auto split: option.splits)
qed simp

section \<open>Orders given by a less function, and sort.Slice\<close>

text \<open>
  \<open>sort.Slice\<close> and \<open>container/heap\<close> take a \<open>less\<close> function.  What they need of it is a strict weak
  order; the locale states it, and every \<open>less\<close> of the program interprets it.
  \<open>sort.Slice\<close> is not stable: the model sorts stably, and since its input here is always the
  collection of a map iteration in an arbitrary order, every outcome the unstable sort may have is
  the outcome of the model for some iteration order.
\<close>

fun insort_by :: "('a \<Rightarrow> 'a \<Rightarrow> bool) \<Rightarrow> 'a \<Rightarrow> 'a list \<Rightarrow> 'a list" where
  "insort_by lt x [] = [x]"
| "insort_by lt x (y # ys) = (if lt y x then y # insort_by lt x ys else x # y # ys)"

definition sort_Slice :: "('a \<Rightarrow> 'a \<Rightarrow> bool) \<Rightarrow> 'a list \<Rightarrow> 'a list" where
  "sort_Slice lt xs = foldr (insort_by lt) xs []"

definition sorted_by :: "('a \<Rightarrow> 'a \<Rightarrow> bool) \<Rightarrow> 'a list \<Rightarrow> bool" where
  "sorted_by lt xs \<longleftrightarrow> sorted_wrt (\<lambda>x y. \<not> lt y x) xs"

lemma mset_insort_by [simp]: "mset (insort_by lt x xs) = add_mset x (mset xs)"
  by (induction xs) auto

lemma mset_sort_Slice [simp]: "mset (sort_Slice lt xs) = mset xs"
  by (induction xs) (auto simp: sort_Slice_def)

lemma set_sort_Slice [simp]: "set (sort_Slice lt xs) = set xs"
  by (metis mset_sort_Slice set_mset_mset)

lemma length_sort_Slice [simp]: "length (sort_Slice lt xs) = length xs"
  by (metis mset_sort_Slice size_mset)

lemma set_insort_by [simp]: "set (insort_by lt x xs) = insert x (set xs)"
  by (induction xs) auto

locale weak_order =
  fixes lt :: "'a \<Rightarrow> 'a \<Rightarrow> bool"
  assumes less_asym: "lt x y \<Longrightarrow> \<not> lt y x"
    and not_less_trans: "\<not> lt y x \<Longrightarrow> \<not> lt z y \<Longrightarrow> \<not> lt z x"
begin

lemma less_irrefl [simp]: "\<not> lt x x"
  using less_asym by blast

lemma less_not_less_trans: "lt x y \<Longrightarrow> \<not> lt z y \<Longrightarrow> lt x z"
  using not_less_trans by blast

lemma insort_by_sorted: "sorted_by lt xs \<Longrightarrow> sorted_by lt (insort_by lt x xs)"
proof (induction xs)
  case (Cons y ys)
  then have "\<not> lt y x \<Longrightarrow> \<forall>z \<in> set ys. \<not> lt z x"
    using not_less_trans by (fastforce simp: sorted_by_def)
  with Cons show ?case by (auto simp: sorted_by_def dest: less_asym)
qed (simp add: sorted_by_def)

lemma sort_Slice_sorted: "sorted_by lt (sort_Slice lt xs)"
  by (induction xs) (simp_all add: sort_Slice_def insort_by_sorted, simp add: sorted_by_def)

text \<open>Where the order separates all elements, a sorted list is determined by its elements.\<close>

lemma sorted_by_unique:
  assumes "sorted_by lt xs" "sorted_by lt ys" "mset xs = mset ys"
    and sep: "\<And>x y. x \<in> set xs \<Longrightarrow> y \<in> set xs \<Longrightarrow> x = y \<or> lt x y \<or> lt y x"
  shows "xs = ys"
  using assms
proof (induction xs arbitrary: ys)
  case (Cons x xs)
  from Cons.prems(3) obtain y ys' where ys: "ys = y # ys'" by (cases ys) auto
  from Cons.prems(3) have S: "set (x # xs) = set (y # ys')" by (metis set_mset_mset ys)
  have "y = x \<or> y \<in> set xs" "x = y \<or> x \<in> set ys'" using S by auto
  then have "\<not> lt y x" "\<not> lt x y"
    using Cons.prems(1,2) ys less_asym by (auto simp: sorted_by_def)
  moreover have "y \<in> set (x # xs)" using S by simp
  ultimately have "x = y" using Cons.prems(4) [of x y] by auto
  with Cons ys have "xs = ys'" by (auto simp: sorted_by_def)
  with \<open>x = y\<close> ys show ?case by simp
qed simp

lemma sort_Slice_cong:
  assumes "mset xs = mset ys"
    and "\<And>x y. x \<in> set xs \<Longrightarrow> y \<in> set xs \<Longrightarrow> x = y \<or> lt x y \<or> lt y x"
  shows "sort_Slice lt xs = sort_Slice lt ys"
  using assms by (intro sorted_by_unique) (auto simp: sort_Slice_sorted)

text \<open>The sorted values of a map do not depend on the order of the iteration when the order separates them.\<close>

lemma sort_map_values_cong:
  assumes "iteration_order m ks" "iteration_order m ks'"
    and sep: "\<And>x y. x \<in> ran m \<Longrightarrow> y \<in> ran m \<Longrightarrow> x = y \<or> lt x y \<or> lt y x"
  shows "sort_Slice lt (filter P (map_values m ks)) = sort_Slice lt (filter P (map_values m ks'))"
proof (rule sort_Slice_cong)
  show "mset (filter P (map_values m ks)) = mset (filter P (map_values m ks'))"
    using mset_map_values_cong [OF iteration_order_mset [OF assms(1,2)], of m] by (simp add: mset_filter)
qed (use sep set_map_values_order [OF assms(1)] in auto)

end

text \<open>A comparison of keys in a linear order is a strict weak order.\<close>

lemma weak_order_key:
  fixes f :: "'a \<Rightarrow> 'b::linorder"
  shows "weak_order (\<lambda>x y. f x < f y)"
  by unfold_locales auto

end
