(* ===== verification/Notification_Domain.thy ===== *)
theory Notification_Domain
  imports Go_Prelude
begin

text \<open>
  The package \<open>internal/notification/domain\<close>: channels, statuses and triggers (open string types in
  Go, so open strings here: a decoded request may carry any text), targets, notifications, timeline
  events, and the two methods of a notification, \<open>Validate\<close> and \<open>Transition\<close>.  Both methods update
  the notification in place and return an error; the model returns the updated notification and the
  error.  The lemmas show what a validated notification looks like, that validation is idempotent,
  and the shape of the status machine.
\<close>

named_theorems domain_consts \<open>the string constants of the domain package\<close>

section \<open>Constants\<close>

type_synonym Channel = string
type_synonym Status = string
type_synonym Trigger = string

definition ChannelEmail :: Channel where [domain_consts]: "ChannelEmail = ''email''"

definition ChannelSMS :: Channel where [domain_consts]: "ChannelSMS = ''sms''"

definition ChannelWebhook :: Channel where [domain_consts]: "ChannelWebhook = ''webhook''"

definition ChannelPush :: Channel where [domain_consts]: "ChannelPush = ''push''"

definition StatusQueued :: Status where [domain_consts]: "StatusQueued = ''queued''"

definition StatusProcessing :: Status where [domain_consts]: "StatusProcessing = ''processing''"

definition StatusAccepted :: Status where [domain_consts]: "StatusAccepted = ''accepted''"

definition StatusSent :: Status where [domain_consts]: "StatusSent = ''sent''"

definition StatusDelivered :: Status where [domain_consts]: "StatusDelivered = ''delivered''"

definition StatusBounced :: Status where [domain_consts]: "StatusBounced = ''bounced''"

definition StatusComplained :: Status where [domain_consts]: "StatusComplained = ''complained''"

definition StatusFailed :: Status where [domain_consts]: "StatusFailed = ''failed''"

definition StatusExpired :: Status where [domain_consts]: "StatusExpired = ''expired''"

definition StatusCanceled :: Status where [domain_consts]: "StatusCanceled = ''canceled''"

definition StatusPaused :: Status where [domain_consts]: "StatusPaused = ''paused''"

definition TriggerImmediate :: Trigger where [domain_consts]: "TriggerImmediate = ''immediate''"

definition TriggerScheduled :: Trigger where [domain_consts]: "TriggerScheduled = ''scheduled''"

definition TriggerRecurring :: Trigger where [domain_consts]: "TriggerRecurring = ''recurring''"

lemma channel_neq:
  "ChannelEmail \<noteq> []"
  "ChannelEmail \<noteq> ChannelSMS" "ChannelEmail \<noteq> ChannelWebhook" "ChannelEmail \<noteq> ChannelPush"
  "ChannelSMS \<noteq> []"
  "ChannelSMS \<noteq> ChannelWebhook" "ChannelSMS \<noteq> ChannelPush"
  "ChannelWebhook \<noteq> []"
  "ChannelWebhook \<noteq> ChannelPush"
  "ChannelPush \<noteq> []"
  by (simp_all add: domain_consts)

lemmas channel_neq_simps [simp] = channel_neq channel_neq [THEN not_sym]

lemma status_neq:
  "StatusQueued \<noteq> []"
  "StatusQueued \<noteq> StatusProcessing" "StatusQueued \<noteq> StatusAccepted" "StatusQueued \<noteq> StatusSent" "StatusQueued \<noteq> StatusDelivered" "StatusQueued \<noteq> StatusBounced" "StatusQueued \<noteq> StatusComplained" "StatusQueued \<noteq> StatusFailed" "StatusQueued \<noteq> StatusExpired" "StatusQueued \<noteq> StatusCanceled" "StatusQueued \<noteq> StatusPaused"
  "StatusProcessing \<noteq> []"
  "StatusProcessing \<noteq> StatusAccepted" "StatusProcessing \<noteq> StatusSent" "StatusProcessing \<noteq> StatusDelivered" "StatusProcessing \<noteq> StatusBounced" "StatusProcessing \<noteq> StatusComplained" "StatusProcessing \<noteq> StatusFailed" "StatusProcessing \<noteq> StatusExpired" "StatusProcessing \<noteq> StatusCanceled" "StatusProcessing \<noteq> StatusPaused"
  "StatusAccepted \<noteq> []"
  "StatusAccepted \<noteq> StatusSent" "StatusAccepted \<noteq> StatusDelivered" "StatusAccepted \<noteq> StatusBounced" "StatusAccepted \<noteq> StatusComplained" "StatusAccepted \<noteq> StatusFailed" "StatusAccepted \<noteq> StatusExpired" "StatusAccepted \<noteq> StatusCanceled" "StatusAccepted \<noteq> StatusPaused"
  "StatusSent \<noteq> []"
  "StatusSent \<noteq> StatusDelivered" "StatusSent \<noteq> StatusBounced" "StatusSent \<noteq> StatusComplained" "StatusSent \<noteq> StatusFailed" "StatusSent \<noteq> StatusExpired" "StatusSent \<noteq> StatusCanceled" "StatusSent \<noteq> StatusPaused"
  "StatusDelivered \<noteq> []"
  "StatusDelivered \<noteq> StatusBounced" "StatusDelivered \<noteq> StatusComplained" "StatusDelivered \<noteq> StatusFailed" "StatusDelivered \<noteq> StatusExpired" "StatusDelivered \<noteq> StatusCanceled" "StatusDelivered \<noteq> StatusPaused"
  "StatusBounced \<noteq> []"
  "StatusBounced \<noteq> StatusComplained" "StatusBounced \<noteq> StatusFailed" "StatusBounced \<noteq> StatusExpired" "StatusBounced \<noteq> StatusCanceled" "StatusBounced \<noteq> StatusPaused"
  "StatusComplained \<noteq> []"
  "StatusComplained \<noteq> StatusFailed" "StatusComplained \<noteq> StatusExpired" "StatusComplained \<noteq> StatusCanceled" "StatusComplained \<noteq> StatusPaused"
  "StatusFailed \<noteq> []"
  "StatusFailed \<noteq> StatusExpired" "StatusFailed \<noteq> StatusCanceled" "StatusFailed \<noteq> StatusPaused"
  "StatusExpired \<noteq> []"
  "StatusExpired \<noteq> StatusCanceled" "StatusExpired \<noteq> StatusPaused"
  "StatusCanceled \<noteq> []"
  "StatusCanceled \<noteq> StatusPaused"
  "StatusPaused \<noteq> []"
  by (simp_all add: domain_consts)

lemmas status_neq_simps [simp] = status_neq status_neq [THEN not_sym]

lemma trigger_neq:
  "TriggerImmediate \<noteq> []"
  "TriggerImmediate \<noteq> TriggerScheduled" "TriggerImmediate \<noteq> TriggerRecurring"
  "TriggerScheduled \<noteq> []"
  "TriggerScheduled \<noteq> TriggerRecurring"
  "TriggerRecurring \<noteq> []"
  by (simp_all add: domain_consts)

lemmas trigger_neq_simps [simp] = trigger_neq trigger_neq [THEN not_sym]

section \<open>Data\<close>

record Target =
  tgt_Address :: string
  tgt_Name :: string

definition empty_Target :: Target where
  "empty_Target = \<lparr>tgt_Address = [], tgt_Name = []\<rparr>"

text \<open>The values of \<open>map[string]any\<close>, as \<open>encoding/json\<close> produces them, and byte slices.\<close>

datatype go_any =
    AnyNil
  | AnyBool bool
  | AnyNumber rat
  | AnyString string
  | AnyBytes string
  | AnyList "go_any list"
  | AnyObject "(string \<times> go_any) list"

record Notification =
  n_ID :: string
  n_TenantID :: string
  n_IdempotencyKey :: string
  n_Channel :: Channel
  n_Targets :: "Target list"
  n_TemplateID :: string
  n_TemplateVersion :: int
  n_Variables :: "string \<rightharpoonup> go_any"
  n_Subject :: string
  n_Body :: string
  n_Priority :: int
  n_Trigger :: Trigger
  n_ScheduleAt :: "time option"
  n_ExpiresAt :: "time option"
  n_BusinessID :: string
  n_Status :: Status
  n_Attempts :: int
  n_Provider :: string
  n_LastError :: string
  n_CreatedAt :: time
  n_UpdatedAt :: time
  n_Version :: int

text \<open>The zero value \<open>Notification{}\<close>.\<close>

definition empty_Notification :: Notification where
  "empty_Notification = \<lparr>n_ID = [], n_TenantID = [], n_IdempotencyKey = [], n_Channel = [],
     n_Targets = [], n_TemplateID = [], n_TemplateVersion = 0, n_Variables = Map.empty, n_Subject = [],
     n_Body = [], n_Priority = 0, n_Trigger = [], n_ScheduleAt = None, n_ExpiresAt = None,
     n_BusinessID = [], n_Status = [], n_Attempts = 0, n_Provider = [], n_LastError = [],
     n_CreatedAt = 0, n_UpdatedAt = 0, n_Version = 0\<rparr>"

text \<open>The record of one attempt; no part of the program creates one.\<close>

record Attempt =
  at_ID :: string
  at_NotificationID :: string
  at_Provider :: string
  at_Status :: Status
  at_ErrorClass :: string
  at_ExternalID :: string
  at_StartedAt :: time
  at_FinishedAt :: "time option"

record TimelineEvent =
  ev_ID :: string
  ev_NotificationID :: string
  ev_Status :: Status
  ev_Provider :: string
  ev_Sequence :: int
  ev_OccurredAt :: time
  ev_Metadata :: "(string \<times> string) list"

section \<open>Operations\<close>

definition Normalize :: "Channel \<Rightarrow> Target \<Rightarrow> Target \<times> go_error option" where
  "Normalize ch t =
     (let t = t\<lparr>tgt_Address := TrimSpace (ToLower (tgt_Address t))\<rparr>; a = tgt_Address t in
      if a = [] then (empty_Target, Some ''target address is required'')
      else if length a > 512 then (empty_Target, Some ''target address too long'')
      else if ch = ChannelEmail \<and> \<not> strings_Contains a ''@'' then (empty_Target, Some ''invalid email target'')
      else if ch = ChannelSMS \<and> length a < 7 then (empty_Target, Some ''invalid phone target'')
      else (t, None))"

text \<open>
  The loop of \<open>Validate\<close> writes each normalised target back into the slice and stops at the first
  error, leaving the targets after it as they were.
\<close>

fun normalize_targets :: "Channel \<Rightarrow> Target list \<Rightarrow> Target list \<times> go_error option" where
  "normalize_targets ch [] = ([], None)"
| "normalize_targets ch (t # ts) =
     (case Normalize ch t of
        (_, Some e) \<Rightarrow> (t # ts, Some e)
      | (t', None) \<Rightarrow> (case normalize_targets ch ts of (ts', e) \<Rightarrow> (t' # ts', e)))"

definition Validate :: "Notification \<Rightarrow> Notification \<times> go_error option" where
  "Validate n =
     (if TrimSpace (n_TenantID n) = [] then (n, Some ''tenant_id is required'')
      else if TrimSpace (n_IdempotencyKey n) = [] then (n, Some ''idempotency_key is required'')
      else if n_Channel n \<noteq> ChannelEmail \<and> n_Channel n \<noteq> ChannelSMS \<and> n_Channel n \<noteq> ChannelWebhook \<and>
        n_Channel n \<noteq> ChannelPush then (n, Some ''unsupported channel'')
      else if length (n_Targets n) = 0 \<or> length (n_Targets n) > 1000
        then (n, Some ''targets must contain 1..1000 items'')
      else if n_Priority n < 0 \<or> n_Priority n > 100 then (n, Some ''priority must be between 0 and 100'')
      else
        let n = (if n_Trigger n = [] then n\<lparr>n_Trigger := TriggerImmediate\<rparr> else n) in
        if n_Trigger n = TriggerScheduled \<and> n_ScheduleAt n = None then (n, Some ''schedule_at required'')
        else (case normalize_targets (n_Channel n) (n_Targets n) of (ts, e) \<Rightarrow> (n\<lparr>n_Targets := ts\<rparr>, e)))"

text \<open>
  The nested map \<open>allowed\<close> of \<open>Transition\<close>: a missing row is a nil map, whose lookups are false.
\<close>

definition allowed :: "Status \<Rightarrow> Status list" where
  "allowed s =
     (if s = StatusQueued then [StatusProcessing, StatusCanceled, StatusPaused, StatusExpired]
      else if s = StatusProcessing then [StatusAccepted, StatusSent, StatusFailed, StatusQueued, StatusPaused]
      else if s = StatusAccepted then [StatusSent, StatusDelivered, StatusBounced, StatusFailed]
      else if s = StatusSent then [StatusDelivered, StatusBounced, StatusComplained, StatusFailed]
      else if s = StatusPaused then [StatusQueued, StatusCanceled]
      else [])"

definition transition_error :: "Status \<Rightarrow> Status \<Rightarrow> go_error" where
  "transition_error s s' = ''invalid status transition: '' @ s @ '' -> '' @ s'"

definition Transition :: "time \<Rightarrow> Status \<Rightarrow> Notification \<Rightarrow> Notification \<times> go_error option" where
  "Transition now nxt n =
     (if n_Status n = nxt then (n, None)
      else if nxt \<notin> set (allowed (n_Status n)) then (n, Some (transition_error (n_Status n) nxt))
      else (n\<lparr>n_Status := nxt, n_Version := i64 (n_Version n + 1), n_UpdatedAt := now\<rparr>, None))"

section \<open>Validation\<close>

definition wf_target :: "Channel \<Rightarrow> Target \<Rightarrow> bool" where
  "wf_target ch t \<longleftrightarrow>
     TrimSpace (ToLower (tgt_Address t)) = tgt_Address t \<and> tgt_Address t \<noteq> [] \<and>
     length (tgt_Address t) \<le> 512 \<and>
     (ch = ChannelEmail \<longrightarrow> strings_Contains (tgt_Address t) ''@'') \<and>
     (ch = ChannelSMS \<longrightarrow> 7 \<le> length (tgt_Address t))"

definition wf_notification :: "Notification \<Rightarrow> bool" where
  "wf_notification n \<longleftrightarrow>
     TrimSpace (n_TenantID n) \<noteq> [] \<and> TrimSpace (n_IdempotencyKey n) \<noteq> [] \<and>
     n_Channel n \<in> {ChannelEmail, ChannelSMS, ChannelWebhook, ChannelPush} \<and>
     1 \<le> length (n_Targets n) \<and> length (n_Targets n) \<le> 1000 \<and>
     0 \<le> n_Priority n \<and> n_Priority n \<le> 100 \<and>
     n_Trigger n \<noteq> [] \<and> (n_Trigger n = TriggerScheduled \<longrightarrow> n_ScheduleAt n \<noteq> None) \<and>
     (\<forall>t \<in> set (n_Targets n). wf_target (n_Channel n) t)"

lemma normalized_address_idem:
  "TrimSpace (ToLower (TrimSpace (ToLower a))) = TrimSpace (ToLower a)"
  by (simp add: TrimSpace_ToLower)

lemma Normalize_ok_iff:
  "snd (Normalize ch t) = None \<longleftrightarrow>
     wf_target ch (t\<lparr>tgt_Address := TrimSpace (ToLower (tgt_Address t))\<rparr>)"
  by (auto simp: Normalize_def wf_target_def Let_def normalized_address_idem)

lemma Normalize_ok:
  "Normalize ch t = (t', None) \<Longrightarrow> t' = t\<lparr>tgt_Address := TrimSpace (ToLower (tgt_Address t))\<rparr> \<and> wf_target ch t'"
  by (auto simp: Normalize_def wf_target_def Let_def normalized_address_idem split: if_splits)

lemma Normalize_wf [simp]: "wf_target ch t \<Longrightarrow> Normalize ch t = (t, None)"
  by (auto simp: Normalize_def wf_target_def Let_def)

lemma normalize_targets_ok:
  "normalize_targets ch ts = (ts', None) \<Longrightarrow>
     ts' = map (\<lambda>t. t\<lparr>tgt_Address := TrimSpace (ToLower (tgt_Address t))\<rparr>) ts \<and> (\<forall>t \<in> set ts'. wf_target ch t)"
proof (induction ts arbitrary: ts')
  case (Cons t ts)
  then show ?case
    by (fastforce split: prod.splits option.splits dest: Normalize_ok)
qed simp

lemma normalize_targets_ok_iff:
  "snd (normalize_targets ch ts) = None \<longleftrightarrow> (\<forall>t \<in> set ts. snd (Normalize ch t) = None)"
  by (induction ts) (auto split: prod.splits option.splits)

lemma normalize_targets_wf: "\<forall>t \<in> set ts. wf_target ch t \<Longrightarrow> normalize_targets ch ts = (ts, None)"
  by (induction ts) auto

lemma normalize_targets_length: "length (fst (normalize_targets ch ts)) = length ts"
  by (induction ts) (auto split: prod.splits option.splits)

text \<open>The form a validated notification has: the trigger defaulted, the addresses normalised.\<close>

definition normalized :: "Notification \<Rightarrow> Notification" where
  "normalized n = n\<lparr>n_Trigger := (if n_Trigger n = [] then TriggerImmediate else n_Trigger n),
     n_Targets := map (\<lambda>t. t\<lparr>tgt_Address := TrimSpace (ToLower (tgt_Address t))\<rparr>) (n_Targets n)\<rparr>"

lemma Validate_ok:
  assumes "Validate n = (n', None)"
  shows "n' = normalized n" and "wf_notification n'"
proof -
  define m where "m = (if n_Trigger n = [] then n\<lparr>n_Trigger := TriggerImmediate\<rparr> else n)"
  from assms obtain ts where ts: "normalize_targets (n_Channel m) (n_Targets m) = (ts, None)"
    and n': "n' = m\<lparr>n_Targets := ts\<rparr>"
    and trig: "n_Trigger m \<noteq> TriggerScheduled \<or> n_ScheduleAt m \<noteq> None"
    by (auto simp: Validate_def m_def Let_def split: if_splits prod.splits)
  from assms have base: "TrimSpace (n_TenantID n) \<noteq> []" "TrimSpace (n_IdempotencyKey n) \<noteq> []"
    "n_Channel n \<in> {ChannelEmail, ChannelSMS, ChannelWebhook, ChannelPush}"
    "n_Targets n \<noteq> []" "length (n_Targets n) \<le> 1000" "0 \<le> n_Priority n" "n_Priority n \<le> 100"
    by (auto simp: Validate_def split: if_splits)
  note norm = normalize_targets_ok [OF ts]
  have m_simps: "n_Channel m = n_Channel n" "n_Targets m = n_Targets n" "n_TenantID m = n_TenantID n"
    "n_IdempotencyKey m = n_IdempotencyKey n" "n_Priority m = n_Priority n" "n_Trigger m \<noteq> []"
    by (auto simp: m_def)
  show "n' = normalized n"
    using norm by (simp add: n' normalized_def m_def)
  show "wf_notification n'"
    using base norm trig m_simps by (auto simp: n' wf_notification_def Suc_le_eq)
qed

lemma Validate_wf: "wf_notification n \<Longrightarrow> Validate n = (n, None)"
  by (auto simp: Validate_def wf_notification_def normalize_targets_wf)

text \<open>C27: \<open>Validate\<close> accepts a notification exactly when its normalised form (trigger defaulted to
  immediate, every address trimmed and lower-cased) is well formed; the notification it leaves behind
  is that form, and validating it again changes nothing.\<close>

theorem Validate_accepts_iff_wf:
  "(snd (Validate n) = None) = wf_notification (normalized n) \<and>
   (\<forall>n'. Validate n = (n', None) \<longrightarrow> n' = normalized n \<and> Validate n' = (n', None))"
proof (intro conjI allI impI)
  show "(snd (Validate n) = None) = wf_notification (normalized n)"
  proof
    assume "snd (Validate n) = None"
    then have "Validate n = (fst (Validate n), None)" by (simp add: prod_eq_iff)
    then show "wf_notification (normalized n)" using Validate_ok by metis
  next
    assume wf: "wf_notification (normalized n)"
    then have "\<forall>t \<in> set (n_Targets n). snd (Normalize (n_Channel n) t) = None"
      by (auto simp: wf_notification_def normalized_def Normalize_ok_iff)
    then have "snd (normalize_targets (n_Channel n) (n_Targets n)) = None"
      by (simp add: normalize_targets_ok_iff)
    with wf show "snd (Validate n) = None"
      by (auto simp: Validate_def wf_notification_def normalized_def Let_def split: prod.splits if_splits)
  qed
next
  fix n' assume "Validate n = (n', None)"
  then show "n' = normalized n" and "Validate n' = (n', None)"
    using Validate_ok Validate_wf by blast+
qed

text \<open>The request of the README's quick start, the example the witnesses evaluate.\<close>

definition sample_notification :: Notification where
  "sample_notification = empty_Notification\<lparr>n_TenantID := ''acme'', n_IdempotencyKey := ''invoice-100'',
     n_Channel := ChannelEmail, n_Targets := [\<lparr>tgt_Address = '' User@example.com '', tgt_Name = []\<rparr>],
     n_Subject := ''Invoice'', n_Body := ''ready'', n_Priority := 80\<rparr>"

lemma sample_normalized:
  "normalized sample_notification = sample_notification\<lparr>n_Trigger := TriggerImmediate,
     n_Targets := [\<lparr>tgt_Address = ''user@example.com'', tgt_Name = []\<rparr>]\<rparr>"
proof -
  have "TrimSpace (ToLower '' User@example.com '') = ''user@example.com''" by code_simp
  then show ?thesis by (simp add: normalized_def sample_notification_def empty_Notification_def)
qed

lemma sample_wf: "wf_notification (normalized sample_notification)"
proof -
  have "TrimSpace (ToLower ''user@example.com'') = ''user@example.com''"
    "strings_Contains ''user@example.com'' ''@''" "TrimSpace ''acme'' \<noteq> []" "TrimSpace ''invoice-100'' \<noteq> []"
    by code_simp+
  then show ?thesis unfolding sample_normalized
    by (simp add: wf_notification_def wf_target_def sample_notification_def empty_Notification_def)
qed

theorem Validate_accepts_iff_wf_witness:
  "Validate sample_notification = (normalized sample_notification, None) \<and>
   Validate (normalized sample_notification) = (normalized sample_notification, None)"
  using Validate_accepts_iff_wf [of sample_notification] sample_wf
  by (cases "Validate sample_notification") auto

section \<open>The status machine\<close>

lemma Transition_ok_iff:
  "Transition now nxt n = (n', None) \<longleftrightarrow>
     (nxt = n_Status n \<and> n' = n) \<or>
     (nxt \<noteq> n_Status n \<and> nxt \<in> set (allowed (n_Status n)) \<and>
      n' = n\<lparr>n_Status := nxt, n_Version := i64 (n_Version n + 1), n_UpdatedAt := now\<rparr>)"
  by (auto simp: Transition_def)

lemma Transition_error_unchanged: "Transition now nxt n = (n', Some e) \<Longrightarrow> n' = n"
  by (auto simp: Transition_def split: if_splits)

lemma Transition_fields:
  assumes "Transition now nxt n = (n', e)"
  shows "n_ID n' = n_ID n" "n_TenantID n' = n_TenantID n" "n_IdempotencyKey n' = n_IdempotencyKey n"
    "n_Channel n' = n_Channel n" "n_Targets n' = n_Targets n" "n_Attempts n' = n_Attempts n"
    "n_Provider n' = n_Provider n" "n_Priority n' = n_Priority n" "n_ScheduleAt n' = n_ScheduleAt n"
    "n_ExpiresAt n' = n_ExpiresAt n" "n_LastError n' = n_LastError n" "n_CreatedAt n' = n_CreatedAt n"
  using assms by (auto simp: Transition_def split: if_splits)

definition terminal :: "Status \<Rightarrow> bool" where
  "terminal s \<longleftrightarrow> s \<in> {StatusDelivered, StatusBounced, StatusComplained, StatusFailed, StatusExpired, StatusCanceled}"

text \<open>How far a status is along the delivery: waiting, handed over, sent, closed.\<close>

definition phase :: "Status \<Rightarrow> nat" where
  "phase s = (if s = StatusAccepted then 1 else if s = StatusSent then 2 else if terminal s then 3 else 0)"

inductive transition_step :: "Notification \<Rightarrow> Notification \<Rightarrow> bool" where
  step: "Transition now nxt n = (n', None) \<Longrightarrow> transition_step n n'"

inductive_cases transition_stepE: "transition_step n n'"

lemma allowed_not_terminal: "s' \<in> set (allowed s) \<Longrightarrow> \<not> terminal s"
  by (auto simp: allowed_def terminal_def split: if_splits)

lemma allowed_phase: "s' \<in> set (allowed s) \<Longrightarrow> phase s \<le> phase s'"
  by (auto simp: allowed_def phase_def terminal_def split: if_splits)

lemma transition_step_terminal: "transition_step n n' \<Longrightarrow> terminal (n_Status n) \<Longrightarrow> n' = n"
  by (auto elim!: transition_stepE simp: Transition_ok_iff dest: allowed_not_terminal)

lemma transition_step_phase: "transition_step n n' \<Longrightarrow> phase (n_Status n) \<le> phase (n_Status n')"
  by (elim transition_stepE, unfold Transition_ok_iff, elim disjE conjE) (simp_all add: allowed_phase)

text \<open>C28: Along any sequence of successful \<open>Transition\<close> calls the delivery phase (waiting, accepted,
  sent, closed) never goes back, the identity, tenant and idempotency key stay, and a notification in
  a final status is never changed again.\<close>

theorem transitions_lifecycle:
  assumes "transition_step\<^sup>*\<^sup>* n n'"
  shows "phase (n_Status n) \<le> phase (n_Status n') \<and> n_ID n' = n_ID n \<and> n_TenantID n' = n_TenantID n \<and>
    n_IdempotencyKey n' = n_IdempotencyKey n \<and> (terminal (n_Status n) \<longrightarrow> n' = n)"
  using assms
proof (induction rule: rtranclp_induct)
  case (step m m')
  have "phase (n_Status m) \<le> phase (n_Status m')" by (rule transition_step_phase [OF step(2)])
  moreover from step(2) have "n_ID m' = n_ID m" "n_TenantID m' = n_TenantID m"
    "n_IdempotencyKey m' = n_IdempotencyKey m"
    by (auto elim!: transition_stepE dest: Transition_fields)
  ultimately show ?case using step transition_step_terminal [OF step(2)] by auto
qed simp

theorem transitions_lifecycle_witness:
  "transition_step\<^sup>*\<^sup>* (sample_notification\<lparr>n_Status := StatusQueued\<rparr>)
     (sample_notification\<lparr>n_Status := StatusProcessing, n_Version := 1, n_UpdatedAt := 7\<rparr>) \<and>
   phase (n_Status (sample_notification\<lparr>n_Status := StatusQueued\<rparr>)) \<le>
     phase (n_Status (sample_notification\<lparr>n_Status := StatusProcessing, n_Version := 1, n_UpdatedAt := 7\<rparr>))"
proof -
  have "transition_step (sample_notification\<lparr>n_Status := StatusQueued\<rparr>)
     (sample_notification\<lparr>n_Status := StatusProcessing, n_Version := 1, n_UpdatedAt := 7\<rparr>)"
    by (rule transition_step.step [where now = 7 and nxt = StatusProcessing])
      (simp add: Transition_def allowed_def sample_notification_def empty_Notification_def in_i64_def)
  then show ?thesis using transitions_lifecycle by blast
qed

end
