(* ===== verification/Go_Heap.thy ===== *)
theory Go_Heap
  imports Go_Prelude
begin

text \<open>
  The standard library's \<open>container/heap\<close>, as the queues call it: \<open>up\<close>, \<open>down\<close>, \<open>Push\<close> and
  \<open>Pop\<close> on a slice, over the \<open>Less\<close> and \<open>Swap\<close> methods of the client (arguments here).  The client's
  \<open>Swap\<close> also rewrites a position field of the elements, so the heap facts are proved for the part of
  an element its \<open>Less\<close> looks at (\<open>core\<close>), and a simulation lemma carries them to the client's slices.
\<close>

section \<open>The algorithms\<close>

abbreviation parent :: "nat \<Rightarrow> nat" where
  "parent i \<equiv> (i - 1) div 2"

lemma parent_less: "k < n \<Longrightarrow> parent k < n"
  by linarith

definition swap :: "nat \<Rightarrow> nat \<Rightarrow> 'a list \<Rightarrow> 'a list" where
  "swap i j xs = xs[i := xs ! j, j := xs ! i]"

function heap_up :: "('a \<Rightarrow> 'a \<Rightarrow> bool) \<Rightarrow> (nat \<Rightarrow> nat \<Rightarrow> 'a list \<Rightarrow> 'a list) \<Rightarrow> nat \<Rightarrow> 'a list \<Rightarrow> 'a list" where
  "heap_up lt sw j xs =
     (let i = parent j in
      if i = j \<or> \<not> lt (xs ! j) (xs ! i) then xs else heap_up lt sw i (sw i j xs))"
  by pat_completeness auto
termination
  by (relation "measure (\<lambda>(lt, sw, j, xs). j)") auto

definition down_child :: "('a \<Rightarrow> 'a \<Rightarrow> bool) \<Rightarrow> nat \<Rightarrow> nat \<Rightarrow> 'a list \<Rightarrow> nat" where
  "down_child lt n i xs =
     (let j1 = 2 * i + 1 in if j1 + 1 < n \<and> lt (xs ! (j1 + 1)) (xs ! j1) then j1 + 1 else j1)"

lemma down_child_bounds:
  "2 * i + 1 < n \<Longrightarrow> down_child lt n i xs < n" "i < down_child lt n i xs" "parent (down_child lt n i xs) = i"
  by (auto simp: down_child_def Let_def)

function heap_down ::
  "('a \<Rightarrow> 'a \<Rightarrow> bool) \<Rightarrow> (nat \<Rightarrow> nat \<Rightarrow> 'a list \<Rightarrow> 'a list) \<Rightarrow> nat \<Rightarrow> nat \<Rightarrow> 'a list \<Rightarrow> 'a list" where
  "heap_down lt sw i n xs =
     (if 2 * i + 1 \<ge> n then xs
      else
        let j = down_child lt n i xs in
        if \<not> lt (xs ! j) (xs ! i) then xs else heap_down lt sw j n (sw i j xs))"
  by pat_completeness auto
termination
  by (relation "measure (\<lambda>(lt, sw, i, n, xs). n - i)")
    (auto simp: down_child_bounds diff_less_mono2)

declare heap_up.simps [simp del] heap_down.simps [simp del]

text \<open>\<open>heap.Push\<close> after the client's \<open>Push\<close> appended the element, and \<open>heap.Pop\<close> before the
  client's \<open>Pop\<close> takes the last element off.\<close>

definition heap_fix_last :: "('a \<Rightarrow> 'a \<Rightarrow> bool) \<Rightarrow> (nat \<Rightarrow> nat \<Rightarrow> 'a list \<Rightarrow> 'a list) \<Rightarrow> 'a list \<Rightarrow> 'a list" where
  "heap_fix_last lt sw xs = heap_up lt sw (length xs - 1) xs"

definition heap_move_root :: "('a \<Rightarrow> 'a \<Rightarrow> bool) \<Rightarrow> (nat \<Rightarrow> nat \<Rightarrow> 'a list \<Rightarrow> 'a list) \<Rightarrow> 'a list \<Rightarrow> 'a list" where
  "heap_move_root lt sw xs = heap_down lt sw 0 (length xs - 1) (sw 0 (length xs - 1) xs)"

text \<open>One iteration of each loop.\<close>

lemma heap_up_stop: "parent j = j \<or> \<not> lt (xs ! j) (xs ! parent j) \<Longrightarrow> heap_up lt sw j xs = xs"
  by (simp add: heap_up.simps [of lt sw j xs] Let_def)

lemma heap_up_step:
  "parent j \<noteq> j \<Longrightarrow> lt (xs ! j) (xs ! parent j) \<Longrightarrow>
   heap_up lt sw j xs = heap_up lt sw (parent j) (sw (parent j) j xs)"
  by (simp add: heap_up.simps [of lt sw j xs] Let_def)

lemma heap_down_stop:
  "n \<le> 2 * i + 1 \<or> \<not> lt (xs ! down_child lt n i xs) (xs ! i) \<Longrightarrow> heap_down lt sw i n xs = xs"
  by (auto simp: heap_down.simps [of lt sw i n xs] Let_def)

lemma heap_down_step:
  "2 * i + 1 < n \<Longrightarrow> lt (xs ! down_child lt n i xs) (xs ! i) \<Longrightarrow>
   heap_down lt sw i n xs = heap_down lt sw (down_child lt n i xs) n (sw i (down_child lt n i xs) xs)"
  by (simp add: heap_down.simps [of lt sw i n xs] Let_def)

section \<open>Elements are kept\<close>

lemma length_swap [simp]: "length (swap i j xs) = length xs"
  by (simp add: swap_def)

lemma nth_swap:
  "i < length xs \<Longrightarrow> j < length xs \<Longrightarrow> k < length xs \<Longrightarrow>
   swap i j xs ! k = (if k = j then xs ! i else if k = i then xs ! j else xs ! k)"
  by (simp add: swap_def nth_list_update)

lemma mset_swap_keeps [simp]: "i < length xs \<Longrightarrow> j < length xs \<Longrightarrow> mset (swap i j xs) = mset xs"
  by (simp add: swap_def Multiset.mset_swap)

lemma heap_up_swap_mset: "j < length xs \<Longrightarrow> mset (heap_up lt swap j xs) = mset xs"
proof (induction j arbitrary: xs rule: less_induct)
  case (less j)
  show ?case
  proof (cases "parent j = j \<or> \<not> lt (xs ! j) (xs ! parent j)")
    case False
    then have "parent j < j" by linarith
    with False less show ?thesis by (simp add: heap_up_step)
  qed (simp add: heap_up_stop)
qed

lemma heap_down_swap_props:
  "n \<le> length xs \<Longrightarrow> i < n \<Longrightarrow>
     mset (heap_down lt swap i n xs) = mset xs \<and> length (heap_down lt swap i n xs) = length xs \<and>
     (\<forall>k. n \<le> k \<and> k < length xs \<longrightarrow> heap_down lt swap i n xs ! k = xs ! k)"
proof (induction "n - i" arbitrary: i xs rule: less_induct)
  case less
  let ?j = "down_child lt n i xs"
  show ?case
  proof (cases "n \<le> 2 * i + 1 \<or> \<not> lt (xs ! ?j) (xs ! i)")
    case False
    then have j: "?j < n" "i < ?j" by (auto simp: down_child_bounds)
    then have "n - ?j < n - i" by linarith
    from less(1) [OF this, of "swap i ?j xs"] j less.prems False show ?thesis
      by (auto simp: heap_down_step nth_swap)
  qed (auto simp: heap_down_stop)
qed

section \<open>Heap order\<close>

definition is_heap :: "('a \<Rightarrow> 'a \<Rightarrow> bool) \<Rightarrow> 'a list \<Rightarrow> bool" where
  "is_heap lt xs \<longleftrightarrow> (\<forall>i. 0 < i \<and> i < length xs \<longrightarrow> \<not> lt (xs ! i) (xs ! parent i))"

text \<open>The order with one position \<open>k\<close> that may still be too small for its parent, resp. too large
  for its children, among the first \<open>n\<close> elements.\<close>

definition up_inv :: "('a \<Rightarrow> 'a \<Rightarrow> bool) \<Rightarrow> nat \<Rightarrow> 'a list \<Rightarrow> bool" where
  "up_inv lt k xs \<longleftrightarrow> (\<forall>i. 0 < i \<and> i < length xs \<longrightarrow>
     (i \<noteq> k \<longrightarrow> \<not> lt (xs ! i) (xs ! parent i)) \<and>
     (parent i = k \<and> 0 < k \<longrightarrow> \<not> lt (xs ! i) (xs ! parent k)))"

definition down_inv :: "('a \<Rightarrow> 'a \<Rightarrow> bool) \<Rightarrow> nat \<Rightarrow> nat \<Rightarrow> 'a list \<Rightarrow> bool" where
  "down_inv lt n k xs \<longleftrightarrow> (\<forall>i. 0 < i \<and> i < n \<longrightarrow>
     (parent i \<noteq> k \<longrightarrow> \<not> lt (xs ! i) (xs ! parent i)) \<and>
     (parent i = k \<and> 0 < k \<longrightarrow> \<not> lt (xs ! i) (xs ! parent k)))"

context weak_order
begin

lemma up_inv_done:
  "up_inv lt k xs \<Longrightarrow> parent k = k \<or> \<not> lt (xs ! k) (xs ! parent k) \<Longrightarrow> is_heap lt xs"
  unfolding up_inv_def is_heap_def by (metis less_irrefl)

lemma up_inv_step:
  assumes inv: "up_inv lt k xs" and k: "0 < k" "k < length xs" and lt: "lt (xs ! k) (xs ! parent k)"
  shows "up_inv lt (parent k) (swap (parent k) k xs)"
  unfolding up_inv_def length_swap
proof (intro allI impI)
  fix i assume i: "0 < i \<and> i < length xs"
  let ?p = "parent k" and ?ys = "swap (parent k) k xs"
  have pk: "?p < k" "?p < length xs" using k by linarith+
  have pi: "parent i < i" "parent i < length xs" using i by linarith+
  have inv1: "\<And>i. 0 < i \<Longrightarrow> i < length xs \<Longrightarrow> i \<noteq> k \<Longrightarrow> \<not> lt (xs ! i) (xs ! parent i)"
    and inv2: "\<And>i. 0 < i \<Longrightarrow> i < length xs \<Longrightarrow> parent i = k \<Longrightarrow> \<not> lt (xs ! i) (xs ! ?p)"
    using inv k by (auto simp: up_inv_def)
  have sib: "\<not> lt (xs ! i) (xs ! k)" if "parent i = ?p" "i \<noteq> k"
    using inv1 [of i] i that lt less_not_less_trans less_asym by metis
  have "\<not> lt (?ys ! i) (?ys ! parent i)" if "i \<noteq> ?p"
  proof -
    consider "i = k" | "i \<noteq> k" "parent i = k" | "i \<noteq> k" "parent i = ?p" | "i \<noteq> k" "parent i \<noteq> k" "parent i \<noteq> ?p"
      by blast
    then show ?thesis
    proof cases
      case 1 then show ?thesis using lt less_asym pk k by (simp add: nth_swap)
    next
      case 2 then show ?thesis using inv2 [of i] i that pk k pi by (simp add: nth_swap)
    next
      case 3 then show ?thesis using sib i that pk k pi by (simp add: nth_swap)
    next
      case 4 then show ?thesis using inv1 [of i] i that pk k pi by (simp add: nth_swap)
    qed
  qed
  moreover have "\<not> lt (?ys ! i) (?ys ! parent ?p)" if "parent i = ?p" "0 < ?p"
  proof -
    have pp: "parent ?p < ?p" using that by linarith
    have up: "\<not> lt (xs ! ?p) (xs ! parent ?p)" using inv1 [of ?p] that pk by simp
    show ?thesis
    proof (cases "i = k")
      case True then show ?thesis using up pp pk k by (simp add: nth_swap)
    next
      case False
      then have "\<not> lt (xs ! i) (xs ! ?p)" using inv1 [of i] i that by simp
      then have "\<not> lt (xs ! i) (xs ! parent ?p)" using up not_less_trans by blast
      then show ?thesis using False that pi pp pk k i by (simp add: nth_swap)
    qed
  qed
  ultimately show "(i \<noteq> ?p \<longrightarrow> \<not> lt (?ys ! i) (?ys ! parent i)) \<and>
      (parent i = ?p \<and> 0 < ?p \<longrightarrow> \<not> lt (?ys ! i) (?ys ! parent ?p))" by blast
qed

lemma heap_up_heap: "j < length xs \<Longrightarrow> up_inv lt j xs \<Longrightarrow> is_heap lt (heap_up lt swap j xs)"
proof (induction j arbitrary: xs rule: less_induct)
  case (less j)
  show ?case
  proof (cases "parent j = j \<or> \<not> lt (xs ! j) (xs ! parent j)")
    case True
    then show ?thesis using less.prems up_inv_done by (simp add: heap_up_stop)
  next
    case False
    then have "parent j < j" by linarith
    with False less up_inv_step [of j xs] show ?thesis by (simp add: heap_up_step)
  qed
qed

lemma down_inv_done:
  assumes "down_inv lt n k xs" "n \<le> 2 * k + 1 \<or> \<not> lt (xs ! down_child lt n k xs) (xs ! k)" "0 < i" "i < n"
  shows "\<not> lt (xs ! i) (xs ! parent i)"
proof (cases "parent i = k")
  case True
  then have "2 * k + 1 < n" and i: "i = 2 * k + 1 \<or> i = 2 * k + 2" using assms(3,4) by linarith+
  then have j: "\<not> lt (xs ! down_child lt n k xs) (xs ! k)" using assms(2) by simp
  have "\<not> lt (xs ! i) (xs ! down_child lt n k xs)"
    using i assms(4) less_asym less_irrefl by (auto simp: down_child_def Let_def)
  then show ?thesis using j True not_less_trans by blast
next
  case False
  then show ?thesis using assms by (auto simp: down_inv_def)
qed

lemma down_inv_step:
  assumes inv: "down_inv lt n k xs" and n: "n \<le> length xs" and k: "2 * k + 1 < n"
    and lt: "lt (xs ! down_child lt n k xs) (xs ! k)"
  shows "down_inv lt n (down_child lt n k xs) (swap k (down_child lt n k xs) xs)"
  unfolding down_inv_def
proof (intro allI impI)
  fix i assume i: "0 < i \<and> i < n"
  let ?j = "down_child lt n k xs"
  let ?ys = "swap k ?j xs"
  have j: "?j < n" by (rule down_child_bounds(1) [OF k])
  note j = this down_child_bounds(2) [of k lt n xs] down_child_bounds(3) [of lt n k xs]
  have bnd: "k < length xs" "?j < length xs" "i < length xs" "parent i < length xs" "parent i < i"
    using j i n by linarith+
  note nth = nth_swap [OF bnd(1,2)]
  have inv1: "\<And>i. 0 < i \<Longrightarrow> i < n \<Longrightarrow> parent i \<noteq> k \<Longrightarrow> \<not> lt (xs ! i) (xs ! parent i)"
    and inv2: "\<And>i. 0 < i \<Longrightarrow> i < n \<Longrightarrow> parent i = k \<Longrightarrow> 0 < k \<Longrightarrow> \<not> lt (xs ! i) (xs ! parent k)"
    using inv by (auto simp: down_inv_def)
  have sib: "\<not> lt (xs ! i) (xs ! ?j)" if "parent i = k"
  proof -
    have "i = 2 * k + 1 \<or> i = 2 * k + 2" using that i by linarith
    then show ?thesis using i less_asym less_irrefl by (auto simp: down_child_def Let_def)
  qed
  have "\<not> lt (?ys ! i) (?ys ! parent i)" if ne: "parent i \<noteq> ?j"
  proof -
    consider "i = ?j" | "i = k" | "i \<noteq> ?j" "i \<noteq> k" "parent i = k" | "i \<noteq> ?j" "i \<noteq> k" "parent i \<noteq> k"
      by blast
    then show ?thesis
    proof cases
      case 1 then show ?thesis using lt less_asym j bnd by (simp add: nth)
    next
      case 2
      then have "\<not> lt (xs ! ?j) (xs ! parent k)" using inv2 [of ?j] j i by simp
      then show ?thesis using 2 j bnd ne by (simp add: nth)
    next
      case 3 then show ?thesis using sib bnd j by (simp add: nth)
    next
      case 4 then show ?thesis using inv1 [of i] i bnd ne by (simp add: nth)
    qed
  qed
  moreover have "\<not> lt (?ys ! i) (?ys ! parent ?j)" if "parent i = ?j"
  proof -
    have "i \<noteq> ?j" "i \<noteq> k" "parent i \<noteq> k" using that bnd j by linarith+
    then show ?thesis using inv1 [of i] i that j bnd by (simp add: nth)
  qed
  ultimately show "(parent i \<noteq> ?j \<longrightarrow> \<not> lt (?ys ! i) (?ys ! parent i)) \<and>
      (parent i = ?j \<and> 0 < ?j \<longrightarrow> \<not> lt (?ys ! i) (?ys ! parent ?j))" by blast
qed

lemma heap_down_heap:
  "n \<le> length xs \<Longrightarrow> down_inv lt n i xs \<Longrightarrow> is_heap lt (take n (heap_down lt swap i n xs))"
proof (induction "n - i" arbitrary: i xs rule: less_induct)
  case less
  let ?j = "down_child lt n i xs"
  show ?case
  proof (cases "n \<le> 2 * i + 1 \<or> \<not> lt (xs ! ?j) (xs ! i)")
    case True
    have "\<not> lt (xs ! k) (xs ! parent k)" if "0 < k" "k < n" for k
      by (rule down_inv_done [OF less.prems(2) True that])
    then show ?thesis using True parent_less by (simp add: heap_down_stop is_heap_def)
  next
    case False
    then have "?j < n" "i < ?j" by (auto simp: down_child_bounds)
    then have "n - ?j < n - i" by linarith
    from less(1) [OF this, of "swap i ?j xs"] less.prems False down_inv_step [of n i xs]
    show ?thesis by (simp add: heap_down_step)
  qed
qed

text \<open>The root is a smallest element.\<close>

lemma heap_root_least: "is_heap lt xs \<Longrightarrow> i < length xs \<Longrightarrow> \<not> lt (xs ! i) (xs ! 0)"
proof (induction i rule: less_induct)
  case (less i)
  show ?case
  proof (cases "i = 0")
    case False
    then have p: "parent i < i" by linarith
    with less have "\<not> lt (xs ! parent i) (xs ! 0)" by simp
    moreover have "\<not> lt (xs ! i) (xs ! parent i)" using less.prems False by (simp add: is_heap_def)
    ultimately show ?thesis using not_less_trans by blast
  qed simp
qed

lemma heap_fix_last_heap:
  assumes "is_heap lt xs"
  shows "is_heap lt (heap_fix_last lt swap (xs @ [x]))" "mset (heap_fix_last lt swap (xs @ [x])) = add_mset x (mset xs)"
proof -
  have "up_inv lt (length xs) (xs @ [x])"
    unfolding up_inv_def
  proof (intro allI impI)
    fix i assume i: "0 < i \<and> i < length (xs @ [x])"
    then have "parent i < i" by linarith
    with i assms show "(i \<noteq> length xs \<longrightarrow> \<not> lt ((xs @ [x]) ! i) ((xs @ [x]) ! parent i)) \<and>
      (parent i = length xs \<and> 0 < length xs \<longrightarrow> \<not> lt ((xs @ [x]) ! i) ((xs @ [x]) ! parent (length xs)))"
      by (auto simp: is_heap_def nth_append less_Suc_eq)
  qed
  then show "is_heap lt (heap_fix_last lt swap (xs @ [x]))"
    by (simp add: heap_fix_last_def heap_up_heap)
  show "mset (heap_fix_last lt swap (xs @ [x])) = add_mset x (mset xs)"
    by (simp add: heap_fix_last_def heap_up_swap_mset)
qed

lemma heap_move_root_heap:
  assumes "is_heap lt xs" "xs \<noteq> []"
  defines "ys \<equiv> heap_move_root lt swap xs"
  shows "length ys = length xs" "last ys = xs ! 0" "is_heap lt (butlast ys)" "mset ys = mset xs"
proof -
  let ?n = "length xs - 1" and ?zs = "swap 0 (length xs - 1) xs"
  have ys: "ys = heap_down lt swap 0 ?n ?zs" by (simp add: ys_def heap_move_root_def)
  have nz: "0 < length xs" using assms(2) by simp
  have zs: "?zs ! ?n = xs ! 0" "mset ?zs = mset xs" using nz by (simp_all add: nth_swap)
  have inv: "down_inv lt ?n 0 ?zs"
    unfolding down_inv_def
  proof (intro allI impI)
    fix i assume i: "0 < i \<and> i < ?n"
    then have "parent i < i" by linarith
    with i assms(1) nz show "(parent i \<noteq> 0 \<longrightarrow> \<not> lt (?zs ! i) (?zs ! parent i)) \<and>
      (parent i = 0 \<and> 0 < (0::nat) \<longrightarrow> \<not> lt (?zs ! i) (?zs ! parent 0))"
      by (simp add: nth_swap is_heap_def)
  qed
  show len: "length ys = length xs" and "mset ys = mset xs"
    using heap_down_swap_props [of ?n ?zs 0 lt] zs nz ys
    by (cases "?n = 0"; simp add: heap_down_stop)+
  have "ys ! ?n = xs ! 0"
    using heap_down_swap_props [of ?n ?zs 0 lt] zs nz ys
    by (cases "?n = 0"; simp add: heap_down_stop)
  then show "last ys = xs ! 0" using len nz by (metis last_conv_nth length_greater_0_conv)
  have "butlast ys = take ?n ys" using len by (simp add: butlast_conv_take)
  then show "is_heap lt (butlast ys)" using heap_down_heap [of ?n ?zs 0] inv ys by simp
qed

end

section \<open>Clients with position fields\<close>

text \<open>
  A client's \<open>Swap\<close> acts on the cores as an exchange; then so do \<open>up\<close> and \<open>down\<close>, and the heap facts
  carry over to the client's slice.
\<close>

locale heap_client = weak_order lt
  for lt :: "'c \<Rightarrow> 'c \<Rightarrow> bool" +
  fixes core :: "'a \<Rightarrow> 'c"
    and sw :: "nat \<Rightarrow> nat \<Rightarrow> 'a list \<Rightarrow> 'a list"
  assumes sw_core: "i < length xs \<Longrightarrow> j < length xs \<Longrightarrow> map core (sw i j xs) = swap i j (map core xs)"
begin

abbreviation clt :: "'a \<Rightarrow> 'a \<Rightarrow> bool" where
  "clt x y \<equiv> lt (core x) (core y)"

lemma length_sw: "i < length xs \<Longrightarrow> j < length xs \<Longrightarrow> length (sw i j xs) = length xs"
  using sw_core [of i xs j] by (metis length_map length_swap)

lemma heap_up_core: "j < length xs \<Longrightarrow> map core (heap_up clt sw j xs) = heap_up lt swap j (map core xs)"
proof (induction j arbitrary: xs rule: less_induct)
  case (less j)
  have p: "parent j < length xs" using less.prems by linarith
  show ?case
  proof (cases "parent j = j \<or> \<not> clt (xs ! j) (xs ! parent j)")
    case True
    then show ?thesis using p less.prems by (simp add: heap_up_stop)
  next
    case False
    then have "parent j < j" by linarith
    with less False p show ?thesis by (simp add: heap_up_step length_sw sw_core)
  qed
qed

lemma down_child_core:
  "2 * i + 1 < n \<Longrightarrow> n \<le> length xs \<Longrightarrow> down_child clt n i xs = down_child lt n i (map core xs)"
  by (simp add: down_child_def Let_def)

lemma heap_down_core:
  "n \<le> length xs \<Longrightarrow> i < n \<Longrightarrow> map core (heap_down clt sw i n xs) = heap_down lt swap i n (map core xs)"
proof (induction "n - i" arbitrary: i xs rule: less_induct)
  case less
  let ?j = "down_child clt n i xs"
  show ?case
  proof (cases "n \<le> 2 * i + 1")
    case False
    then have j: "?j < n" "i < ?j" by (auto simp: down_child_bounds)
    have c: "?j = down_child lt n i (map core xs)" using False less.prems by (simp add: down_child_core)
    have "n - ?j < n - i" using j by linarith
    from less(1) [OF this, of "sw i ?j xs"] j less.prems False c show ?thesis
      by (cases "clt (xs ! ?j) (xs ! i)")
        (simp_all add: heap_down_step heap_down_stop length_sw sw_core)
  qed (simp add: heap_down_stop)
qed

lemma heap_fix_last_core:
  "xs \<noteq> [] \<Longrightarrow> map core (heap_fix_last clt sw xs) = heap_fix_last lt swap (map core xs)"
  by (simp add: heap_fix_last_def heap_up_core)

lemma heap_move_root_core:
  "xs \<noteq> [] \<Longrightarrow> map core (heap_move_root clt sw xs) = heap_move_root lt swap (map core xs)"
  by (cases "length xs - 1 = 0")
    (simp_all add: heap_move_root_def heap_down_core heap_down_stop length_sw sw_core)

text \<open>A property that the client's \<open>Swap\<close> keeps is kept by the loops.\<close>

lemma heap_up_keeps:
  assumes P: "\<And>i j ys. i < length ys \<Longrightarrow> j < length ys \<Longrightarrow> P ys \<Longrightarrow> P (sw i j ys)"
  shows "j < length xs \<Longrightarrow> P xs \<Longrightarrow> P (heap_up clt sw j xs)"
proof (induction j arbitrary: xs rule: less_induct)
  case (less j)
  have p: "parent j < length xs" using less.prems by linarith
  show ?case
  proof (cases "parent j = j \<or> \<not> clt (xs ! j) (xs ! parent j)")
    case True
    then show ?thesis using less.prems by (simp add: heap_up_stop)
  next
    case False
    then have "parent j < j" by linarith
    with less False p P show ?thesis by (simp add: heap_up_step length_sw)
  qed
qed

lemma heap_down_keeps:
  assumes P: "\<And>i j ys. i < length ys \<Longrightarrow> j < length ys \<Longrightarrow> P ys \<Longrightarrow> P (sw i j ys)"
  shows "n \<le> length xs \<Longrightarrow> i < length xs \<Longrightarrow> P xs \<Longrightarrow> P (heap_down clt sw i n xs)"
proof (induction "n - i" arbitrary: i xs rule: less_induct)
  case less
  let ?j = "down_child clt n i xs"
  show ?case
  proof (cases "n \<le> 2 * i + 1 \<or> \<not> clt (xs ! ?j) (xs ! i)")
    case True
    then show ?thesis using less.prems by (simp add: heap_down_stop)
  next
    case False
    then have j: "?j < n" "i < ?j" by (auto simp: down_child_bounds)
    then have "n - ?j < n - i" by linarith
    from less(1) [OF this, of "sw i ?j xs"] j less.prems False P show ?thesis
      by (simp add: heap_down_step length_sw)
  qed
qed

lemma heap_fix_last_keeps:
  assumes P: "\<And>i j ys. i < length ys \<Longrightarrow> j < length ys \<Longrightarrow> P ys \<Longrightarrow> P (sw i j ys)" and "xs \<noteq> []" "P xs"
  shows "P (heap_fix_last clt sw xs)"
  unfolding heap_fix_last_def by (rule heap_up_keeps [where P = P, OF P]) (simp_all add: assms(2,3))

lemma heap_move_root_keeps:
  assumes P: "\<And>i j ys. i < length ys \<Longrightarrow> j < length ys \<Longrightarrow> P ys \<Longrightarrow> P (sw i j ys)" and ne: "xs \<noteq> []" and "P xs"
  shows "P (heap_move_root clt sw xs)"
proof -
  have "P (sw 0 (length xs - 1) xs)" "length (sw 0 (length xs - 1) xs) = length xs"
    using assms by (simp_all add: length_sw)
  with ne show ?thesis unfolding heap_move_root_def
    by (intro heap_down_keeps [where P = P, OF P]) simp_all
qed

text \<open>What \<open>heap.Push\<close> and \<open>heap.Pop\<close> do to the client's slice.\<close>

lemma push_spec:
  assumes "is_heap lt (map core xs)"
  shows "is_heap lt (map core (heap_fix_last clt sw (xs @ [x])))"
    and "mset (map core (heap_fix_last clt sw (xs @ [x]))) = add_mset (core x) (mset (map core xs))"
  using heap_fix_last_heap [OF assms, of "core x"] by (simp_all add: heap_fix_last_core del: mset_map)

lemma pop_spec:
  assumes h: "is_heap lt (map core xs)" and ne: "xs \<noteq> []"
  defines "ys \<equiv> heap_move_root clt sw xs"
  shows "ys \<noteq> []" "core (last ys) = core (xs ! 0)" "is_heap lt (map core (butlast ys))"
    "mset (map core xs) = add_mset (core (last ys)) (mset (map core (butlast ys)))"
    "\<forall>x \<in> set xs. \<not> clt x (last ys)" "length ys = length xs"
proof -
  have m: "map core ys = heap_move_root lt swap (map core xs)" using ne by (simp add: ys_def heap_move_root_core)
  note props = heap_move_root_heap [OF h, folded m]
  have ne': "map core xs \<noteq> []" using ne by simp
  show len: "length ys = length xs" using props(1) [OF ne'] by simp
  then show ys: "ys \<noteq> []" using ne by auto
  show l: "core (last ys) = core (xs ! 0)" using props(2) [OF ne'] ys ne by (simp add: last_map)
  show "is_heap lt (map core (butlast ys))" using props(3) [OF ne'] by (simp add: map_butlast)
  have "mset (map core ys) = mset (map core xs)" by (rule props(4) [OF ne'])
  moreover have "map core ys = map core (butlast ys) @ [core (last ys)]"
    using ys by (metis append_butlast_last_id list.simps(8,9) map_append)
  ultimately show "mset (map core xs) = add_mset (core (last ys)) (mset (map core (butlast ys)))"
    by (metis mset_append mset.simps union_mset_add_mset_right add_0_right)
  show "\<forall>x \<in> set xs. \<not> clt x (last ys)"
  proof
    fix x assume "x \<in> set xs"
    then obtain i where "i < length xs" "xs ! i = x" by (auto simp: in_set_conv_nth)
    then show "\<not> clt x (last ys)" using heap_root_least [OF h, of i] l ne by simp
  qed
qed

end

end
