(* ===== verification/Priority_Queue.thy ===== *)
theory Priority_Queue
  imports Notification_Domain Go_Heap
begin

text \<open>
  The package \<open>internal/queue\<close>: the bounded priority queue of \<open>priority.go\<close> and the delay queue of
  \<open>delay.go\<close>, both binary heaps of \<open>container/heap\<close>.  A queue owns the notifications its items point
  to, so an item holds the notification itself.  The wake and notify channels have capacity one:
  whether a token is in them is a boolean.  The interface \<open>bounded_pqueue\<close> states what both queues
  promise (capacity, contents, order); both interpret it, and draining a queue is proved once for the
  interface.
\<close>

section \<open>The contract of a bounded priority queue\<close>

text \<open>Taking elements off until the queue is empty or \<open>k\<close> are taken.\<close>

fun drain :: "('q \<Rightarrow> ('e \<times> 'q) option) \<Rightarrow> nat \<Rightarrow> 'q \<Rightarrow> 'e list" where
  "drain deq 0 q = []"
| "drain deq (Suc k) q = (case deq q of None \<Rightarrow> [] | Some (e, q') \<Rightarrow> e # drain deq k q')"

locale bounded_pqueue = weak_order before
  for before :: "'e \<Rightarrow> 'e \<Rightarrow> bool" +
  fixes inv :: "'q \<Rightarrow> bool"
    and contents :: "'q \<Rightarrow> 'e multiset"
    and cap :: "'q \<Rightarrow> int"
    and enq :: "'e \<Rightarrow> 'q \<Rightarrow> 'q option"
    and deq :: "'q \<Rightarrow> ('e \<times> 'q) option"
  assumes enq_full: "inv q \<Longrightarrow> cap q \<le> int (size (contents q)) \<Longrightarrow> enq e q = None"
    and enq_room: "inv q \<Longrightarrow> int (size (contents q)) < cap q \<Longrightarrow>
      \<exists>q'. enq e q = Some q' \<and> inv q' \<and> contents q' = add_mset e (contents q) \<and> cap q' = cap q"
    and deq_empty: "inv q \<Longrightarrow> contents q = {#} \<Longrightarrow> deq q = None"
    and deq_least: "inv q \<Longrightarrow> contents q \<noteq> {#} \<Longrightarrow>
      \<exists>e q'. deq q = Some (e, q') \<and> inv q' \<and> contents q = add_mset e (contents q') \<and> cap q' = cap q \<and>
        (\<forall>x \<in># contents q. \<not> before x e)"
begin

lemma enq_bounded:
  assumes "inv q" "int (size (contents q)) \<le> cap q" "enq e q = Some q'"
  shows "inv q'" "contents q' = add_mset e (contents q)" "cap q' = cap q" "int (size (contents q')) \<le> cap q'"
proof -
  have "int (size (contents q)) < cap q"
    using enq_full [OF assms(1), of e] assms(3) by (metis not_le option.discI)
  then show "inv q'" "contents q' = add_mset e (contents q)" "cap q' = cap q"
      "int (size (contents q')) \<le> cap q'"
    using enq_room [OF assms(1), of e] assms(3) by auto
qed

lemma deq_bounded:
  assumes "inv q" "deq q = Some (e, q')"
  shows "inv q'" "contents q = add_mset e (contents q')" "cap q' = cap q" "\<forall>x \<in># contents q. \<not> before x e"
proof -
  have "contents q \<noteq> {#}" using deq_empty [OF assms(1)] assms(2) by auto
  then show "inv q'" "contents q = add_mset e (contents q')" "cap q' = cap q" "\<forall>x \<in># contents q. \<not> before x e"
    using deq_least [OF assms(1)] assms(2) by auto
qed

lemma deq_None_iff: "inv q \<Longrightarrow> deq q = None \<longleftrightarrow> contents q = {#}"
  using deq_empty deq_least by fastforce

lemma drain_all: "inv q \<Longrightarrow> size (contents q) \<le> k \<Longrightarrow> mset (drain deq k q) = contents q \<and> sorted_by before (drain deq k q)"
proof (induction k arbitrary: q)
  case 0
  then show ?case by (simp add: sorted_by_def)
next
  case (Suc k)
  show ?case
  proof (cases "deq q")
    case None
    then have "contents q = {#}" using Suc.prems deq_None_iff by blast
    then show ?thesis by (simp add: None sorted_by_def)
  next
    case (Some r)
    obtain e q' where r: "r = (e, q')" by fastforce
    note d = deq_bounded [OF Suc.prems(1) Some [unfolded r]]
    from d(2) Suc.prems(2) have "size (contents q') \<le> k" by simp
    from Suc.IH [OF d(1) this] have IH: "mset (drain deq k q') = contents q'" "sorted_by before (drain deq k q')"
      by simp_all
    have "\<forall>x \<in> set (drain deq k q'). \<not> before x e"
      using d(2,4) IH(1) by (metis set_mset_mset union_iff add_mset_add_single)
    with IH d(2) show ?thesis by (simp add: Some r sorted_by_def)
  qed
qed

end

section \<open>The priority queue\<close>

record Item =
  it_N :: Notification
  it_index :: nat
  it_enqueued :: time

definition pq_Less :: "Item \<Rightarrow> Item \<Rightarrow> bool" where
  "pq_Less a b =
     (if n_Priority (it_N a) = n_Priority (it_N b) then it_enqueued a < it_enqueued b
      else n_Priority (it_N a) > n_Priority (it_N b))"

definition pq_Swap :: "nat \<Rightarrow> nat \<Rightarrow> Item list \<Rightarrow> Item list" where
  "pq_Swap i j p =
     (let p = p[i := p ! j, j := p ! i];
          p = p[i := (p ! i)\<lparr>it_index := i\<rparr>]
      in p[j := (p ! j)\<lparr>it_index := j\<rparr>])"

definition pq_Push :: "Item \<Rightarrow> Item list \<Rightarrow> Item list" where
  "pq_Push it p = p @ [it\<lparr>it_index := length p\<rparr>]"

definition pq_Pop :: "Item list \<Rightarrow> Item \<times> Item list" where
  "pq_Pop old = (old ! (length old - 1), take (length old - 1) old)"

record Queue =
  q_items :: "Item list"
  q_wake :: bool
  q_max :: int

definition Queue_New :: "int \<Rightarrow> Queue" where
  "Queue_New mx = \<lparr>q_items = [], q_wake = False, q_max = mx\<rparr>"

definition Enqueue :: "time \<Rightarrow> Notification \<Rightarrow> Queue \<Rightarrow> Queue \<times> go_error option" where
  "Enqueue now n q =
     (if int (length (q_items q)) \<ge> q_max q then (q, Some ''queue capacity reached'')
      else (q\<lparr>q_items := heap_fix_last pq_Less pq_Swap
                 (pq_Push \<lparr>it_N = n, it_index = 0, it_enqueued = now\<rparr> (q_items q)),
              q_wake := True\<rparr>, None))"

text \<open>\<open>heap.Pop(&q.items).(*Item)\<close>.\<close>

definition queue_pop :: "Queue \<Rightarrow> (Item \<times> Queue) option" where
  "queue_pop q =
     (if q_items q = [] then None
      else case pq_Pop (heap_move_root pq_Less pq_Swap (q_items q)) of
        (it, items) \<Rightarrow> Some (it, q\<lparr>q_items := items\<rparr>))"

definition Dequeue :: "Queue \<Rightarrow> Queue \<times> Notification option" where
  "Dequeue q = (case queue_pop q of None \<Rightarrow> (q, None) | Some (it, q') \<Rightarrow> (q', Some (it_N it)))"

definition Queue_Len :: "Queue \<Rightarrow> int" where
  "Queue_Len q = int (length (q_items q))"

text \<open>The receive on \<open>Wake()\<close>: takes the token when there is one.\<close>

definition Queue_Wake :: "Queue \<Rightarrow> Queue \<times> bool" where
  "Queue_Wake q = (q\<lparr>q_wake := False\<rparr>, q_wake q)"

section \<open>The delay queue\<close>

record delayedItem =
  di_notification :: Notification
  di_due :: time
  di_index :: nat

definition delayed_Less :: "delayedItem \<Rightarrow> delayedItem \<Rightarrow> bool" where
  "delayed_Less a b \<longleftrightarrow> di_due a < di_due b"

definition delayed_Swap :: "nat \<Rightarrow> nat \<Rightarrow> delayedItem list \<Rightarrow> delayedItem list" where
  "delayed_Swap i j h =
     (let h = h[i := h ! j, j := h ! i];
          h = h[i := (h ! i)\<lparr>di_index := i\<rparr>]
      in h[j := (h ! j)\<lparr>di_index := j\<rparr>])"

definition delayed_Push :: "delayedItem \<Rightarrow> delayedItem list \<Rightarrow> delayedItem list" where
  "delayed_Push it h = h @ [it\<lparr>di_index := length h\<rparr>]"

definition delayed_Pop :: "delayedItem list \<Rightarrow> delayedItem \<times> delayedItem list" where
  "delayed_Pop old = (old ! (length old - 1), take (length old - 1) old)"

record DelayQueue =
  dq_items :: "delayedItem list"
  dq_notify :: bool
  dq_limit :: int

definition NewDelayQueue :: "int \<Rightarrow> DelayQueue" where
  "NewDelayQueue limit = \<lparr>dq_items = [], dq_notify = False, dq_limit = limit\<rparr>"

definition DelayQueue_Add :: "Notification \<Rightarrow> time \<Rightarrow> DelayQueue \<Rightarrow> DelayQueue \<times> bool" where
  "DelayQueue_Add n due q =
     (if int (length (dq_items q)) \<ge> dq_limit q then (q, False)
      else (q\<lparr>dq_items := heap_fix_last delayed_Less delayed_Swap
                 (delayed_Push \<lparr>di_notification = n, di_due = due, di_index = 0\<rparr> (dq_items q)),
              dq_notify := True\<rparr>, True))"

definition delay_pop :: "DelayQueue \<Rightarrow> (delayedItem \<times> DelayQueue) option" where
  "delay_pop q =
     (if dq_items q = [] then None
      else case delayed_Pop (heap_move_root delayed_Less delayed_Swap (dq_items q)) of
        (it, items) \<Rightarrow> Some (it, q\<lparr>dq_items := items\<rparr>))"

text \<open>
  One round of the loop of \<open>Run\<close>.  The environment has the clock readings of \<open>time.Until\<close> and of \<open>Enqueue\<close>, whether the context is done when the
  round comes to a \<open>select\<close>, and which case it takes when a token is there as well.  A round returns, goes on, or blocks: on an empty
  heap until a token or the end of the context, on an item that is not due also until the timer.  The error of \<open>Enqueue\<close> is ignored.
\<close>

record run_env =
  ru_now :: time
  ru_enqueue :: time
  ru_done :: bool
  ru_prefers_done :: bool

datatype run_outcome =
    RunReturns
  | RunBlocks "duration option"
  | RunNext DelayQueue Queue

definition DelayQueue_select :: "run_env \<Rightarrow> duration option \<Rightarrow> DelayQueue \<Rightarrow> Queue \<Rightarrow> run_outcome" where
  "DelayQueue_select e timer q target =
     (if ru_done e \<and> (\<not> dq_notify q \<or> ru_prefers_done e) then RunReturns
      else if dq_notify q then RunNext (q\<lparr>dq_notify := False\<rparr>) target
      else RunBlocks timer)"

definition DelayQueue_Run_round :: "run_env \<Rightarrow> DelayQueue \<Rightarrow> Queue \<Rightarrow> run_outcome" where
  "DelayQueue_Run_round e q target =
     (if dq_items q = [] then DelayQueue_select e None q target
      else
        let item = dq_items q ! 0; wait = time_sub (di_due item) (ru_now e) in
        if wait > 0 then DelayQueue_select e (Some wait) q target
        else (case delay_pop q of
                None \<Rightarrow> RunBlocks None
              | Some (_, q') \<Rightarrow> RunNext q' (fst (Enqueue (ru_enqueue e) (di_notification item) target))))"

text \<open>
  The rounds from \<open>i\<close> on until one returns or blocks, at most \<open>fuel\<close> of them: how and in which round they end, and the two queues then.  A blocked loop
  returns when the context ends, and starts with the next round when its timer or an \<open>Add\<close> wakes it.
\<close>

fun DelayQueue_Run :: "(nat \<Rightarrow> run_env) \<Rightarrow> nat \<Rightarrow> nat \<Rightarrow> DelayQueue \<Rightarrow> Queue \<Rightarrow> (run_outcome \<times> nat \<times> DelayQueue \<times> Queue) option" where
  "DelayQueue_Run env 0 i q target = None"
| "DelayQueue_Run env (Suc fuel) i q target =
     (case DelayQueue_Run_round (env i) q target of
        RunNext q' target' \<Rightarrow> DelayQueue_Run env fuel (Suc i) q' target'
      | out \<Rightarrow> Some (out, i, q, target))"

section \<open>The priority queue meets the contract\<close>

definition item_core :: "Item \<Rightarrow> Notification \<times> time" where
  "item_core it = (it_N it, it_enqueued it)"

definition item_before :: "Notification \<times> time \<Rightarrow> Notification \<times> time \<Rightarrow> bool" where
  "item_before a b \<longleftrightarrow> (- n_Priority (fst a), snd a) < (- n_Priority (fst b), snd b)"

definition positions_ok :: "Item list \<Rightarrow> bool" where
  "positions_ok p \<longleftrightarrow> (\<forall>i < length p. it_index (p ! i) = i)"

definition queue_inv :: "Queue \<Rightarrow> bool" where
  "queue_inv q \<longleftrightarrow> is_heap item_before (map item_core (q_items q)) \<and> positions_ok (q_items q)"

definition queue_contents :: "Queue \<Rightarrow> (Notification \<times> time) multiset" where
  "queue_contents q = mset (map item_core (q_items q))"

definition queue_enq :: "Notification \<times> time \<Rightarrow> Queue \<Rightarrow> Queue option" where
  "queue_enq e q = (case Enqueue (snd e) (fst e) q of (q', None) \<Rightarrow> Some q' | (_, Some _) \<Rightarrow> None)"

definition queue_deq :: "Queue \<Rightarrow> ((Notification \<times> time) \<times> Queue) option" where
  "queue_deq q = map_option (\<lambda>(it, q'). (item_core it, q')) (queue_pop q)"

lemma pq_Less_core: "pq_Less = (\<lambda>a b. item_before (item_core a) (item_core b))"
  by (auto simp: fun_eq_iff pq_Less_def item_before_def item_core_def)

lemma length_pq_Swap [simp]: "length (pq_Swap i j p) = length p"
  by (simp add: pq_Swap_def Let_def)

lemma pq_Swap_positions: "i < length p \<Longrightarrow> j < length p \<Longrightarrow> positions_ok p \<Longrightarrow> positions_ok (pq_Swap i j p)"
  by (auto simp: positions_ok_def pq_Swap_def Let_def nth_list_update)

interpretation item_order: weak_order item_before
  unfolding item_before_def by (rule weak_order_key)

interpretation pq: heap_client item_before item_core pq_Swap
  by unfold_locales
    (auto simp: pq_Swap_def swap_def Let_def item_core_def list_eq_iff_nth_eq nth_list_update)

lemma pq_Push_core: "map item_core (pq_Push it p) = map item_core (p @ [it])"
  by (simp add: pq_Push_def item_core_def)

lemma pq_Push_positions: "positions_ok p \<Longrightarrow> positions_ok (pq_Push it p)"
  by (auto simp: positions_ok_def pq_Push_def nth_append less_Suc_eq)

lemma pq_Pop_eq: "p \<noteq> [] \<Longrightarrow> pq_Pop p = (last p, butlast p)"
  by (simp add: pq_Pop_def last_conv_nth butlast_conv_take)

lemma Enqueue_room:
  assumes inv: "queue_inv q" and room: "int (length (q_items q)) < q_max q"
  shows "snd (Enqueue now n q) = None" "queue_inv (fst (Enqueue now n q))"
    "queue_contents (fst (Enqueue now n q)) = add_mset (n, now) (queue_contents q)"
    "q_max (fst (Enqueue now n q)) = q_max q"
proof -
  let ?it = "\<lparr>it_N = n, it_index = length (q_items q), it_enqueued = now\<rparr>"
  let ?xs = "q_items q"
  let ?ys = "heap_fix_last pq_Less pq_Swap (?xs @ [?it])"
  have E: "Enqueue now n q = (q\<lparr>q_items := ?ys, q_wake := True\<rparr>, None)"
    using room by (simp add: Enqueue_def pq_Push_def)
  have h: "is_heap item_before (map item_core ?xs)" using inv by (simp add: queue_inv_def)
  have "positions_ok (?xs @ [?it])"
    using inv pq_Push_positions [of ?xs ?it] by (simp add: queue_inv_def pq_Push_def)
  then have "positions_ok ?ys" unfolding pq_Less_core
    by (intro pq.heap_fix_last_keeps [where P = positions_ok]) (simp_all add: pq_Swap_positions)
  then show "queue_inv (fst (Enqueue now n q))"
    using pq.push_spec(1) [OF h, of ?it] by (simp add: E queue_inv_def pq_Less_core)
  show "queue_contents (fst (Enqueue now n q)) = add_mset (n, now) (queue_contents q)"
    using pq.push_spec(2) [OF h, of ?it]
    by (simp add: E queue_contents_def pq_Less_core item_core_def del: mset_map)
qed (use room in \<open>simp_all add: Enqueue_def\<close>)

lemma Enqueue_full: "q_max q \<le> int (length (q_items q)) \<Longrightarrow> Enqueue now n q = (q, Some ''queue capacity reached'')"
  by (simp add: Enqueue_def)

lemma queue_pop_spec:
  assumes inv: "queue_inv q" and ne: "q_items q \<noteq> []"
  obtains it q' where "queue_pop q = Some (it, q')" "queue_inv q'" "q_max q' = q_max q"
    "queue_contents q = add_mset (item_core it) (queue_contents q')"
    "\<forall>x \<in># queue_contents q. \<not> item_before x (item_core it)"
proof -
  let ?ys = "heap_move_root pq_Less pq_Swap (q_items q)"
  have h: "is_heap item_before (map item_core (q_items q))" using inv by (simp add: queue_inv_def)
  note P = pq.pop_spec [OF h ne, folded pq_Less_core]
  have "positions_ok ?ys" unfolding pq_Less_core
    using inv ne by (intro pq.heap_move_root_keeps [where P = positions_ok])
      (simp_all add: pq_Swap_positions queue_inv_def)
  then have "positions_ok (butlast ?ys)" by (simp add: positions_ok_def nth_butlast)
  moreover have "\<forall>x \<in># queue_contents q. \<not> item_before x (item_core (last ?ys))"
    using P(5) by (simp add: queue_contents_def pq_Less_core)
  ultimately show ?thesis using P(1,3,4) ne
    by (intro that [of "last ?ys" "q\<lparr>q_items := butlast ?ys\<rparr>"])
      (simp_all add: queue_pop_def pq_Pop_eq queue_inv_def queue_contents_def del: mset_map)
qed

interpretation queue: bounded_pqueue item_before queue_inv queue_contents q_max queue_enq queue_deq
proof unfold_locales
  fix q e
  assume "queue_inv q" "q_max q \<le> int (size (queue_contents q))"
  then show "queue_enq e q = None" by (simp add: queue_enq_def Enqueue_full queue_contents_def)
next
  fix q e
  assume "queue_inv q" "int (size (queue_contents q)) < q_max q"
  then show "\<exists>q'. queue_enq e q = Some q' \<and> queue_inv q' \<and>
      queue_contents q' = add_mset e (queue_contents q) \<and> q_max q' = q_max q"
    using Enqueue_room [of q "snd e" "fst e"]
    by (cases "Enqueue (snd e) (fst e) q") (auto simp: queue_enq_def queue_contents_def)
next
  fix q
  assume "queue_inv q" "queue_contents q = {#}"
  then show "queue_deq q = None" by (simp add: queue_deq_def queue_pop_def queue_contents_def)
next
  fix q
  assume inv: "queue_inv q" and "queue_contents q \<noteq> {#}"
  then have "q_items q \<noteq> []" by (auto simp: queue_contents_def)
  from queue_pop_spec [OF inv this] obtain it q' where "queue_pop q = Some (it, q')" "queue_inv q'"
    "q_max q' = q_max q" "queue_contents q = add_mset (item_core it) (queue_contents q')"
    "\<forall>x \<in># queue_contents q. \<not> item_before x (item_core it)" .
  then show "\<exists>e q'. queue_deq q = Some (e, q') \<and> queue_inv q' \<and>
      queue_contents q = add_mset e (queue_contents q') \<and> q_max q' = q_max q \<and>
      (\<forall>x \<in># queue_contents q. \<not> item_before x e)"
    by (auto simp: queue_deq_def)
qed

section \<open>What the priority queue guarantees\<close>

lemma queue_inv_New: "queue_inv (Queue_New mx)"
  by (simp add: queue_inv_def Queue_New_def is_heap_def positions_ok_def)

lemma Enqueue_cases:
  obtains (full) "q_max q \<le> Queue_Len q" "Enqueue now n q = (q, Some ''queue capacity reached'')"
  | (room) q' where "Queue_Len q < q_max q" "Enqueue now n q = (q', None)" "q_max q' = q_max q"
      "Queue_Len q' = Queue_Len q + 1"
proof (cases "q_max q \<le> int (length (q_items q))")
  case True
  then show ?thesis using full by (simp add: Enqueue_full Queue_Len_def)
next
  case False
  let ?xs = "pq_Push \<lparr>it_N = n, it_index = 0, it_enqueued = now\<rparr> (q_items q)"
  have "length (heap_fix_last pq_Less pq_Swap ?xs) = length ?xs" unfolding pq_Less_core
    by (rule pq.heap_fix_last_keeps [where P = "\<lambda>ys. length ys = length ?xs"]) (simp_all add: pq_Push_def)
  then show ?thesis using False room by (simp add: Enqueue_def Queue_Len_def pq_Push_def)
qed

text \<open>The states a queue of capacity \<open>mx\<close> can be in: every operation of the package, in any order.\<close>

inductive queue_reachable :: "int \<Rightarrow> Queue \<Rightarrow> bool" for mx :: int where
  new: "queue_reachable mx (Queue_New mx)"
| enqueue: "queue_reachable mx q \<Longrightarrow> queue_reachable mx (fst (Enqueue now n q))"
| dequeue: "queue_reachable mx q \<Longrightarrow> queue_reachable mx (fst (Dequeue q))"
| wake: "queue_reachable mx q \<Longrightarrow> queue_reachable mx (fst (Queue_Wake q))"

lemma Dequeue_deq:
  "Dequeue q = (case queue_deq q of None \<Rightarrow> (q, None) | Some (e, q') \<Rightarrow> (q', Some (fst e)))"
  by (auto simp: Dequeue_def queue_deq_def item_core_def split: option.splits)

lemma Queue_Len_contents: "Queue_Len q = int (size (queue_contents q))"
  by (simp add: Queue_Len_def queue_contents_def)

lemma queue_reachable_inv_lemma:
  assumes "queue_reachable mx q" "0 \<le> mx"
  shows "queue_inv q \<and> q_max q = mx \<and> Queue_Len q \<le> mx"
  using assms
proof (induction rule: queue_reachable.induct)
  case new
  then show ?case using queue_inv_New by (simp add: Queue_New_def Queue_Len_def)
next
  case (enqueue q now n)
  then have IH: "queue_inv q" "q_max q = mx" "Queue_Len q \<le> mx" by simp_all
  then show ?case
    using Enqueue_room(2) [OF IH(1), of now n]
    by (cases rule: Enqueue_cases [of q now n]) (auto simp: Queue_Len_def)
next
  case (dequeue q)
  then show ?case
    using queue.deq_bounded [of q]
    by (auto simp: Dequeue_deq Queue_Len_contents split: option.splits)
next
  case (wake q)
  then show ?case by (simp add: Queue_Wake_def queue_inv_def Queue_Len_def)
qed

text \<open>In every state a queue of positive capacity can reach, its slice is a heap for "higher
  priority first, earlier first among equals", every item's recorded index is its position, and the
  number of waiting notifications is at most the capacity.\<close>

theorem queue_reachable_inv:
  assumes "queue_reachable mx q" "0 \<le> mx"
  shows "is_heap pq_Less (q_items q) \<and> (\<forall>i < length (q_items q). it_index (q_items q ! i) = i) \<and>
    q_max q = mx \<and> Queue_Len q \<le> mx"
  using queue_reachable_inv_lemma [OF assms]
  by (auto simp: queue_inv_def is_heap_def pq_Less_core positions_ok_def)

definition sample_queue :: Queue where
  "sample_queue = fst (Enqueue 7 (sample_notification\<lparr>n_Priority := 90\<rparr>) (fst (Enqueue 5 sample_notification (Queue_New 2))))"

lemma sample_queue_reachable: "queue_reachable 2 sample_queue"
  unfolding sample_queue_def by (intro queue_reachable.intros)

lemma sample_queue_items:
  "q_items sample_queue = [\<lparr>it_N = sample_notification\<lparr>n_Priority := 90\<rparr>, it_index = 0, it_enqueued = 7\<rparr>,
     \<lparr>it_N = sample_notification, it_index = 1, it_enqueued = 5\<rparr>]"
  by (simp add: sample_queue_def Enqueue_def Queue_New_def heap_fix_last_def pq_Push_def heap_up.simps Let_def
      pq_Less_def pq_Swap_def sample_notification_def)

theorem queue_reachable_inv_witness:
  "queue_reachable 2 sample_queue \<and> is_heap pq_Less (q_items sample_queue) \<and> Queue_Len sample_queue \<le> 2 \<and>
   it_index (q_items sample_queue ! 1) = 1"
  using queue_reachable_inv [OF sample_queue_reachable] sample_queue_reachable by (simp add: sample_queue_items)

text \<open>\<open>Dequeue\<close> on a queue in a reachable state fails exactly when the queue is empty; otherwise it
  removes one item, and no waiting notification has a higher priority than the one returned, nor the
  same priority and an earlier arrival.\<close>

theorem Dequeue_best_first:
  assumes "queue_reachable mx q" "0 \<le> mx"
  shows "(snd (Dequeue q) = None) = (Queue_Len q = 0) \<and>
    (\<forall>n q'. Dequeue q = (q', Some n) \<longrightarrow>
       (\<exists>t. queue_contents q = add_mset (n, t) (queue_contents q') \<and>
         (\<forall>m u. (m, u) \<in># queue_contents q \<longrightarrow>
            n_Priority m \<le> n_Priority n \<and> (n_Priority m = n_Priority n \<longrightarrow> t \<le> u))))"
proof -
  have inv: "queue_inv q" using queue_reachable_inv_lemma [OF assms] by simp
  have "(snd (Dequeue q) = None) = (Queue_Len q = 0)"
    using queue.deq_None_iff [OF inv] by (auto simp: Dequeue_deq Queue_Len_contents split: option.splits)
  moreover have "\<exists>t. queue_contents q = add_mset (n, t) (queue_contents q') \<and>
         (\<forall>m u. (m, u) \<in># queue_contents q \<longrightarrow>
            n_Priority m \<le> n_Priority n \<and> (n_Priority m = n_Priority n \<longrightarrow> t \<le> u))"
    if "Dequeue q = (q', Some n)" for n q'
  proof -
    from that obtain t where deq: "queue_deq q = Some ((n, t), q')"
      by (auto simp: Dequeue_deq split: option.splits)
    note d = queue.deq_bounded [OF inv deq]
    from d(4) have "\<forall>m u. (m, u) \<in># queue_contents q \<longrightarrow> \<not> item_before (m, u) (n, t)" by blast
    then show ?thesis using d(2) by (intro exI [of _ t]) (fastforce simp: item_before_def)
  qed
  ultimately show ?thesis by blast
qed

theorem Dequeue_best_first_witness:
  "\<exists>q' n t. Dequeue sample_queue = (q', Some n) \<and>
     queue_contents sample_queue = add_mset (n, t) (queue_contents q') \<and> n_Priority sample_notification \<le> n_Priority n"
proof -
  note D = Dequeue_best_first [OF sample_queue_reachable, simplified]
  have "Queue_Len sample_queue \<noteq> 0" by (simp add: Queue_Len_def sample_queue_items)
  with D obtain q' n where dq: "Dequeue sample_queue = (q', Some n)" by (cases "Dequeue sample_queue") auto
  moreover have "(sample_notification, 5) \<in># queue_contents sample_queue"
    by (simp add: queue_contents_def sample_queue_items item_core_def)
  ultimately show ?thesis using D by blast
qed

text \<open>Enqueueing a list of notifications, each at its own clock reading.\<close>

fun enqueue_all :: "(Notification \<times> time) list \<Rightarrow> Queue \<Rightarrow> Queue" where
  "enqueue_all [] q = q"
| "enqueue_all (e # es) q = enqueue_all es (fst (Enqueue (snd e) (fst e) q))"

lemma enqueue_all_contents:
  assumes "queue_inv q" "Queue_Len q + int (length es) \<le> q_max q"
  shows "queue_inv (enqueue_all es q) \<and> queue_contents (enqueue_all es q) = queue_contents q + mset es"
  using assms
proof (induction es arbitrary: q)
  case (Cons e es)
  then have "int (length (q_items q)) < q_max q" by (simp add: Queue_Len_def)
  note E = Enqueue_room [OF Cons.prems(1) this, of "snd e" "fst e"]
  from E(3,4) Cons.prems(2) have "Queue_Len (fst (Enqueue (snd e) (fst e) q)) + int (length es) \<le> q_max (fst (Enqueue (snd e) (fst e) q))"
    by (simp add: Queue_Len_contents)
  from Cons.IH [OF E(2) this] E(3) show ?case by simp
qed simp

lemma insort_key_item_before:
  assumes "sorted_by item_before ys" "\<forall>y \<in> set ys. snd x < snd y"
  shows "sorted_by item_before (insort_key (\<lambda>e. - n_Priority (fst e)) x ys)"
  using assms
proof (induction ys)
  case (Cons y ys)
  have "\<not> item_before z x" if "- n_Priority (fst x) \<le> - n_Priority (fst y)" "z \<in> set (y # ys)" for z
    using that Cons.prems by (force simp: sorted_by_def item_before_def)
  moreover have "\<not> item_before x y" if "\<not> - n_Priority (fst x) \<le> - n_Priority (fst y)"
    using that by (simp add: item_before_def)
  ultimately show ?case using Cons by (auto simp: sorted_by_def set_insort_key)
qed (simp add: sorted_by_def)

lemma sort_key_item_before:
  "sorted_wrt (<) (map snd es) \<Longrightarrow> sorted_by item_before (sort_key (\<lambda>e. - n_Priority (fst e)) es)"
proof (induction es)
  case (Cons e es)
  then show ?case by (simp add: insort_key_item_before)
qed (simp add: sorted_by_def)

text \<open>C29: Notifications that arrive one after the other in a new queue with room for all of them leave
  it in the order of a stable sort by descending priority: by priority, and first come first served
  among equal priorities.\<close>

theorem queue_is_stable_priority_sort:
  assumes "sorted_wrt (<) (map snd es)" "int (length es) \<le> mx"
  shows "drain queue_deq (length es) (enqueue_all es (Queue_New mx)) =
    sort_key (\<lambda>e. - n_Priority (fst e)) es"
proof -
  let ?q = "enqueue_all es (Queue_New mx)"
  have New: "Queue_Len (Queue_New mx) = 0" "q_max (Queue_New mx) = mx" "queue_contents (Queue_New mx) = {#}"
    by (simp_all add: Queue_New_def Queue_Len_def queue_contents_def)
  have q: "queue_inv ?q" "queue_contents ?q = mset es"
    using enqueue_all_contents [OF queue_inv_New, of mx es] assms(2) New by simp_all
  have d: "mset (drain queue_deq (length es) ?q) = mset es" "sorted_by item_before (drain queue_deq (length es) ?q)"
    using queue.drain_all [OF q(1), of "length es"] q(2) by simp_all
  have "e = e' \<or> item_before e e' \<or> item_before e' e" if "e \<in> set es" "e' \<in> set es" for e e'
  proof -
    have "inj_on snd (set es)" using assms(1) by (auto simp: distinct_map dest: strict_sorted_iff [THEN iffD1])
    then have "snd e = snd e' \<Longrightarrow> e = e'" using that by (auto dest: inj_onD)
    then show ?thesis by (cases "snd e = snd e'") (auto simp: item_before_def)
  qed
  moreover have "set (drain queue_deq (length es) ?q) = set es" using d(1) by (metis set_mset_mset)
  ultimately show ?thesis
    using d assms(1) by (intro item_order.sorted_by_unique) (simp_all add: sort_key_item_before)
qed

theorem queue_is_stable_priority_sort_witness:
  "map snd (drain queue_deq 3 (enqueue_all [(sample_notification, 1), (sample_notification\<lparr>n_Priority := 90\<rparr>, 2),
     (sample_notification, 3)] (Queue_New 3))) = [2, 1, 3]"
  using queue_is_stable_priority_sort [of "[(sample_notification, 1), (sample_notification\<lparr>n_Priority := 90\<rparr>, 2),
     (sample_notification, 3)]" 3]
  by (simp add: sample_notification_def eval_nat_numeral del: drain.simps enqueue_all.simps)

section \<open>The delay queue meets the contract\<close>

definition delay_core :: "delayedItem \<Rightarrow> Notification \<times> time" where
  "delay_core it = (di_notification it, di_due it)"

definition due_before :: "Notification \<times> time \<Rightarrow> Notification \<times> time \<Rightarrow> bool" where
  "due_before a b \<longleftrightarrow> snd a < snd b"

definition delay_inv :: "DelayQueue \<Rightarrow> bool" where
  "delay_inv q \<longleftrightarrow> is_heap due_before (map delay_core (dq_items q))"

definition delay_contents :: "DelayQueue \<Rightarrow> (Notification \<times> time) multiset" where
  "delay_contents q = mset (map delay_core (dq_items q))"

definition delay_enq :: "Notification \<times> time \<Rightarrow> DelayQueue \<Rightarrow> DelayQueue option" where
  "delay_enq e q = (case DelayQueue_Add (fst e) (snd e) q of (q', True) \<Rightarrow> Some q' | (_, False) \<Rightarrow> None)"

definition delay_deq :: "DelayQueue \<Rightarrow> ((Notification \<times> time) \<times> DelayQueue) option" where
  "delay_deq q = map_option (\<lambda>(it, q'). (delay_core it, q')) (delay_pop q)"

lemma delayed_Less_core: "delayed_Less = (\<lambda>a b. due_before (delay_core a) (delay_core b))"
  by (auto simp: fun_eq_iff delayed_Less_def due_before_def delay_core_def)

interpretation due_order: weak_order due_before
  unfolding due_before_def by (rule weak_order_key)

interpretation dh: heap_client due_before delay_core delayed_Swap
  by unfold_locales
    (auto simp: delayed_Swap_def swap_def Let_def delay_core_def list_eq_iff_nth_eq nth_list_update)

lemma DelayQueue_Add_room:
  assumes inv: "delay_inv q" and room: "int (length (dq_items q)) < dq_limit q"
  shows "snd (DelayQueue_Add n due q)" "delay_inv (fst (DelayQueue_Add n due q))"
    "delay_contents (fst (DelayQueue_Add n due q)) = add_mset (n, due) (delay_contents q)"
    "dq_limit (fst (DelayQueue_Add n due q)) = dq_limit q"
  using dh.push_spec [OF inv [unfolded delay_inv_def], of "\<lparr>di_notification = n, di_due = due, di_index = length (dq_items q)\<rparr>"] room
  by (simp_all add: DelayQueue_Add_def delayed_Push_def delayed_Less_core delay_inv_def delay_contents_def
      delay_core_def del: mset_map)

lemma delayed_Pop_eq: "p \<noteq> [] \<Longrightarrow> delayed_Pop p = (last p, butlast p)"
  by (simp add: delayed_Pop_def last_conv_nth butlast_conv_take)

lemma delay_pop_spec:
  assumes inv: "delay_inv q" and ne: "dq_items q \<noteq> []"
  obtains it q' where "delay_pop q = Some (it, q')" "delay_inv q'" "dq_limit q' = dq_limit q"
    "delay_contents q = add_mset (delay_core it) (delay_contents q')"
    "delay_core it = delay_core (dq_items q ! 0)"
    "\<forall>x \<in># delay_contents q. \<not> due_before x (delay_core it)"
proof -
  let ?ys = "heap_move_root delayed_Less delayed_Swap (dq_items q)"
  note P = dh.pop_spec [OF inv [unfolded delay_inv_def] ne, folded delayed_Less_core]
  have "\<forall>x \<in># delay_contents q. \<not> due_before x (delay_core (last ?ys))"
    using P(5) by (simp add: delay_contents_def delayed_Less_core)
  then show ?thesis using P(1-4) ne
    by (intro that [of "last ?ys" "q\<lparr>dq_items := butlast ?ys\<rparr>"])
      (simp_all add: delay_pop_def delayed_Pop_eq delay_inv_def delay_contents_def del: mset_map)
qed

interpretation delay: bounded_pqueue due_before delay_inv delay_contents dq_limit delay_enq delay_deq
proof unfold_locales
  fix q e
  assume "delay_inv q" "dq_limit q \<le> int (size (delay_contents q))"
  then show "delay_enq e q = None" by (simp add: delay_enq_def DelayQueue_Add_def delay_contents_def)
next
  fix q e
  assume "delay_inv q" "int (size (delay_contents q)) < dq_limit q"
  then show "\<exists>q'. delay_enq e q = Some q' \<and> delay_inv q' \<and>
      delay_contents q' = add_mset e (delay_contents q) \<and> dq_limit q' = dq_limit q"
    using DelayQueue_Add_room [of q "fst e" "snd e"]
    by (cases "DelayQueue_Add (fst e) (snd e) q") (auto simp: delay_enq_def delay_contents_def)
next
  fix q
  assume "delay_inv q" "delay_contents q = {#}"
  then show "delay_deq q = None" by (simp add: delay_deq_def delay_pop_def delay_contents_def)
next
  fix q
  assume inv: "delay_inv q" and "delay_contents q \<noteq> {#}"
  then have "dq_items q \<noteq> []" by (auto simp: delay_contents_def)
  from delay_pop_spec [OF inv this] obtain it q' where "delay_pop q = Some (it, q')" "delay_inv q'"
    "dq_limit q' = dq_limit q" "delay_contents q = add_mset (delay_core it) (delay_contents q')"
    "\<forall>x \<in># delay_contents q. \<not> due_before x (delay_core it)" .
  then show "\<exists>e q'. delay_deq q = Some (e, q') \<and> delay_inv q' \<and>
      delay_contents q = add_mset e (delay_contents q') \<and> dq_limit q' = dq_limit q \<and>
      (\<forall>x \<in># delay_contents q. \<not> due_before x e)"
    by (intro exI [of _ "delay_core it"] exI [of _ q']) (simp add: delay_deq_def)
qed

section \<open>The delay loop\<close>

lemma time_sub_pos_iff: "0 < time_sub t u \<longleftrightarrow> u < t"
  by (auto simp: time_sub_def min_i64_def max_i64_def)

lemma Run_round_cases:
  assumes "delay_inv q"
  obtains (waits) timer where "\<forall>x \<in># delay_contents q. ru_now e < snd x" "timer = None \<longleftrightarrow> delay_contents q = {#}"
      "DelayQueue_Run_round e q target = DelayQueue_select e timer q target"
  | (moved) n due q' where "due \<le> ru_now e" "delay_inv q'" "delay_contents q = add_mset (n, due) (delay_contents q')" "dq_notify q' = dq_notify q"
      "DelayQueue_Run_round e q target = RunNext q' (fst (Enqueue (ru_enqueue e) n target))"
proof (cases "dq_items q = []")
  case True
  then show ?thesis using waits [of None] by (simp add: DelayQueue_Run_round_def delay_contents_def)
next
  case False
  from delay_pop_spec [OF assms False] obtain it q' where pop: "delay_pop q = Some (it, q')" "delay_inv q'"
    "delay_contents q = add_mset (delay_core it) (delay_contents q')"
    and it: "delay_core it = delay_core (dq_items q ! 0)"
    and least: "\<forall>x \<in># delay_contents q. \<not> due_before x (delay_core it)" .
  have notify: "dq_notify q' = dq_notify q" using pop(1) by (auto simp: delay_pop_def split: if_splits prod.splits)
  from least have le: "\<forall>x \<in># delay_contents q. di_due (dq_items q ! 0) \<le> snd x"
    using it by (auto simp: due_before_def delay_core_def)
  show ?thesis
  proof (cases "ru_now e < di_due (dq_items q ! 0)")
    case True
    then have later: "\<forall>x \<in># delay_contents q. ru_now e < snd x" using le by fastforce
    have "delay_contents q \<noteq> {#}" using False by (simp add: delay_contents_def)
    then show ?thesis using True False waits [OF later, of "Some (time_sub (di_due (dq_items q ! 0)) (ru_now e))"]
      by (simp add: DelayQueue_Run_round_def Let_def time_sub_pos_iff)
  next
    case dueF: False
    then show ?thesis using moved [of "di_due (dq_items q ! 0)" q' "di_notification (dq_items q ! 0)"] False pop it notify
      by (simp add: DelayQueue_Run_round_def Let_def time_sub_pos_iff delay_core_def)
  qed
qed

lemma clock_mono:
  fixes f :: "nat \<Rightarrow> time"
  assumes "i \<le> j" "\<forall>k \<ge> i. f k \<le> f (Suc k)"
  shows "f i \<le> f j"
  using assms(1)
proof (induction j rule: dec_induct)
  case (step k)
  then show ?case using assms(2) by (meson order_trans)
qed simp

lemma later_filters:
  assumes "\<forall>x \<in># M. (t::time) < snd x"
  shows "{# x \<in># M. t < snd x #} = M" "{# x \<in># M. snd x \<le> t #} = {#}"
  using assms by (auto simp: filter_mset_eq_conv not_le)

text \<open>How the rounds end: in round \<open>j\<close>, with what was due then moved, and by returning or by blocking.\<close>

definition ends_moved :: "(nat \<Rightarrow> run_env) \<Rightarrow> nat \<Rightarrow> DelayQueue \<Rightarrow> Queue \<Rightarrow> run_outcome \<times> nat \<times> DelayQueue \<times> Queue \<Rightarrow> bool" where
  "ends_moved env i q target r \<longleftrightarrow> (case r of (out, j, q', target') \<Rightarrow> i \<le> j \<and>
     delay_contents q' = {# x \<in># delay_contents q. ru_now (env j) < snd x #} \<and>
     image_mset fst (queue_contents target') =
       image_mset fst (queue_contents target) + image_mset fst {# x \<in># delay_contents q. snd x \<le> ru_now (env j) #} \<and>
     (if ru_done (env j) then out = RunReturns else \<exists>timer. out = RunBlocks timer \<and> (timer = None \<longleftrightarrow> delay_contents q' = {#})))"

lemma ends_moved_one:
  assumes "ends_moved env (Suc i) q1 target1 r" "delay_contents q = add_mset (n, due) (delay_contents q1)" "due \<le> ru_now (env i)"
    and "queue_contents target1 = add_mset (n, t) (queue_contents target)" "\<forall>j \<ge> i. ru_now (env j) \<le> ru_now (env (Suc j))"
  shows "ends_moved env i q target r"
proof -
  obtain out j q' target' where r: "r = (out, j, q', target')" by (cases r) auto
  then have "ru_now (env i) \<le> ru_now (env j)" using assms(1,5) by (intro clock_mono) (auto simp: ends_moved_def)
  then have "due \<le> ru_now (env j)" using assms(3) by simp
  then show ?thesis using assms(1,2,4) unfolding r ends_moved_def prod.case by (elim conjE, intro conjI) simp_all
qed

lemma DelayQueue_Run_ends:
  assumes "delay_inv q" "queue_inv target" "length (dq_items q) + (if dq_notify q then 1 else 0) < fuel"
    "Queue_Len target + int (length (dq_items q)) \<le> q_max target" "\<forall>j \<ge> i. ru_now (env j) \<le> ru_now (env (Suc j))"
  shows "\<exists>r. DelayQueue_Run env fuel i q target = Some r \<and> ends_moved env i q target r"
  using assms
proof (induction fuel arbitrary: i q target)
  case (Suc fuel)
  from Suc.prems(1) show ?case
  proof (cases rule: Run_round_cases [of q "env i" target])
    case (waits timer)
    show ?thesis
    proof (cases "dq_notify q \<and> \<not> (ru_done (env i) \<and> ru_prefers_done (env i))")
      case True
      let ?q = "q\<lparr>dq_notify := False\<rparr>"
      have q: "delay_inv ?q" "delay_contents ?q = delay_contents q" using Suc.prems(1) by (simp_all add: delay_inv_def delay_contents_def)
      then obtain r where R: "DelayQueue_Run env fuel (Suc i) ?q target = Some r" "ends_moved env (Suc i) ?q target r"
        using Suc.IH [of ?q target "Suc i"] Suc.prems(2-5) True by auto
      have "DelayQueue_Run env (Suc fuel) i q target = Some r" using R(1) True waits(3) by (auto simp: DelayQueue_select_def)
      then show ?thesis using R(2) q(2) by (auto simp: ends_moved_def)
    next
      case False
      then show ?thesis using waits(2,3) later_filters [OF waits(1)]
        by (auto simp: DelayQueue_select_def ends_moved_def simp del: filter_mset_eq_conv)
    qed
  next
    case (moved n due q1)
    let ?t = "fst (Enqueue (ru_enqueue (env i)) n target)"
    from moved(3) have len: "length (dq_items q) = Suc (length (dq_items q1))"
      by (metis delay_contents_def length_map size_add_mset size_mset)
    then have "int (length (q_items target)) < q_max target" using Suc.prems(4) by (simp add: Queue_Len_def)
    note E = Enqueue_room [OF Suc.prems(2) this, of "ru_enqueue (env i)" n]
    have room: "Queue_Len ?t + int (length (dq_items q1)) \<le> q_max ?t"
      using E(3,4) Suc.prems(4) len by (simp add: Queue_Len_contents)
    have "length (dq_items q1) + (if dq_notify q1 then 1 else 0) < fuel" using Suc.prems(3) len moved(4) by simp
    from Suc.IH [OF moved(2) E(2) this room, of "Suc i"] Suc.prems(5) obtain r where
      R: "DelayQueue_Run env fuel (Suc i) q1 ?t = Some r" "ends_moved env (Suc i) q1 ?t r" by auto
    then show ?thesis using moved(5) ends_moved_one [OF R(2) moved(3,1) E(3) Suc.prems(5)] by simp
  qed
qed simp

text \<open>C30: While nothing is added, the clock does not go back and the target queue has room, the rounds of the delay loop come to an end, at most one per
  delayed notification and two more: they have moved exactly the notifications that are due at the reading of the last round, and
  then the loop returns if the context is done, and otherwise blocks, with a timer exactly if something is left.  The context is not looked
  at while something is due.\<close>

theorem DelayQueue_Run_releases_due:
  assumes "delay_inv q" "queue_inv target" "length (dq_items q) + (if dq_notify q then 1 else 0) < fuel"
    "Queue_Len target + int (length (dq_items q)) \<le> q_max target" "\<forall>j \<ge> i. ru_now (env j) \<le> ru_now (env (Suc j))"
  shows "\<exists>out j q' target'. DelayQueue_Run env fuel i q target = Some (out, j, q', target') \<and> i \<le> j \<and>
    delay_contents q' = {# x \<in># delay_contents q. ru_now (env j) < snd x #} \<and>
    image_mset fst (queue_contents target') =
      image_mset fst (queue_contents target) + image_mset fst {# x \<in># delay_contents q. snd x \<le> ru_now (env j) #} \<and>
    (if ru_done (env j) then out = RunReturns else \<exists>timer. out = RunBlocks timer \<and> (timer = None \<longleftrightarrow> delay_contents q' = {#}))"
  using DelayQueue_Run_ends [OF assms] by (auto simp: ends_moved_def)

definition sample_delay_queue :: DelayQueue where
  "sample_delay_queue = fst (DelayQueue_Add sample_notification 5 (NewDelayQueue 3))"

lemma sample_delay_queue_items:
  "dq_items sample_delay_queue = [\<lparr>di_notification = sample_notification, di_due = 5, di_index = 0\<rparr>]"
  by (simp add: sample_delay_queue_def DelayQueue_Add_def NewDelayQueue_def heap_fix_last_def delayed_Push_def
      heap_up.simps)

lemma sample_delay_inv: "delay_inv sample_delay_queue"
  by (simp add: delay_inv_def is_heap_def sample_delay_queue_items)

definition sample_run_env :: "nat \<Rightarrow> run_env" where
  "sample_run_env j = \<lparr>ru_now = 6 + int j, ru_enqueue = 6 + int j, ru_done = False, ru_prefers_done = False\<rparr>"

theorem DelayQueue_Run_releases_due_witness:
  "\<exists>out j q' target'. DelayQueue_Run sample_run_env 3 0 sample_delay_queue (Queue_New 3) = Some (out, j, q', target') \<and>
     delay_contents q' = {#} \<and> image_mset fst (queue_contents target') = {# sample_notification #}"
proof -
  have Q: "queue_inv (Queue_New 3)" by (rule queue_inv_New)
  have c: "delay_contents sample_delay_queue = {# (sample_notification, 5) #}" "length (dq_items sample_delay_queue) = 1"
    "queue_contents (Queue_New 3) = {#}" "Queue_Len (Queue_New 3) = 0" "q_max (Queue_New 3) = 3"
    "(if dq_notify sample_delay_queue then 1 else 0) < (2::nat)"
    by (simp_all add: sample_delay_queue_items delay_contents_def delay_core_def queue_contents_def Queue_New_def Queue_Len_def)
  from DelayQueue_Run_releases_due [OF sample_delay_inv Q, of 3 0 sample_run_env] obtain out j q' target' where
    "DelayQueue_Run sample_run_env 3 0 sample_delay_queue (Queue_New 3) = Some (out, j, q', target')"
    "delay_contents q' = {#}" "image_mset fst (queue_contents target') = {# sample_notification #}"
    by (auto simp: c sample_run_env_def split: if_splits)
  then show ?thesis by blast
qed

text \<open>When the target queue is full, the loop still takes the due notification off the delay heap:
  the error of \<open>Enqueue\<close> is dropped and the notification is in neither queue.\<close>

theorem DelayQueue_Run_drops_when_full:
  assumes "delay_inv q" "delay_contents q = {# (n, due) #}" "due \<le> ru_now e" "q_max target \<le> Queue_Len target"
  shows "\<exists>q'. DelayQueue_Run_round e q target = RunNext q' target \<and> delay_contents q' = {#}"
  using assms(1)
proof (cases rule: Run_round_cases [of q e target])
  case (moved n' due' q')
  then show ?thesis using assms by (simp add: Enqueue_full Queue_Len_def)
qed (use assms in auto)

end
