(* ===== verification/Security.thy ===== *)
theory Security
  imports Go_Prelude
begin

text \<open>
  The package \<open>internal/security\<close>: address hashing, signing and verification of receipts,
  redaction, and its own integer printer.  The algorithms of \<open>crypto/sha256\<close> and \<open>crypto/hmac\<close> are
  arguments (\<open>sum256\<close> and \<open>mac\<close>): every theorem holds for all functions, and where the code relies on
  a missing collision the theorem says which.  \<open>encoding/hex\<close> is modelled.
\<close>

section \<open>encoding/hex\<close>

definition hex_digit :: "nat \<Rightarrow> char" where
  "hex_digit d = (if d < 10 then char_of (48 + d) else char_of (87 + d))"

definition hex_EncodeToString :: "string \<Rightarrow> string" where
  "hex_EncodeToString bs = concat (map (\<lambda>c. [hex_digit (of_char c div 16), hex_digit (of_char c mod 16)]) bs)"

definition hex_value :: "char \<Rightarrow> nat option" where
  "hex_value c =
     (let v = of_char c in
      if 48 \<le> v \<and> v \<le> 57 then Some (v - 48)
      else if 97 \<le> v \<and> v \<le> 102 then Some (v - 87)
      else if 65 \<le> v \<and> v \<le> 70 then Some (v - 55)
      else None)"

text \<open>\<open>None\<close> is an error: an odd length or a byte that is no hexadecimal digit.\<close>

fun hex_DecodeString :: "string \<Rightarrow> string option" where
  "hex_DecodeString [] = Some []"
| "hex_DecodeString [c] = None"
| "hex_DecodeString (a # b # s) =
     (case (hex_value a, hex_value b, hex_DecodeString s) of
        (Some x, Some y, Some r) \<Rightarrow> Some (char_of (16 * x + y) # r)
      | _ \<Rightarrow> None)"

section \<open>The package\<close>

definition HashAddress :: "(string \<Rightarrow> string) \<Rightarrow> string \<Rightarrow> string \<Rightarrow> string" where
  "HashAddress sum256 tenant address =
     hex_EncodeToString (sum256 (tenant @ '':'' @ ToLower (TrimSpace address)))"

text \<open>\<open>n = -n\<close> wraps at the smallest 64-bit integer, where the digit loop then does not run.\<close>

definition formatInt :: "int \<Rightarrow> string" where
  "formatInt n =
     (if n = 0 then ''0''
      else
        let neg = n < 0; n = (if neg then i64 (- n) else n); b = prepend_digits n []
        in if neg then CHR ''-'' # b else b)"

definition Sign :: "(string \<Rightarrow> string \<Rightarrow> string) \<Rightarrow> string \<Rightarrow> int \<Rightarrow> string \<Rightarrow> string" where
  "Sign mac secret timestamp body = hex_EncodeToString (mac secret (formatInt timestamp @ ''.'' @ body))"

text \<open>\<open>now1\<close> and \<open>now2\<close> are the clock readings of \<open>time.Since\<close> and \<open>time.Until\<close>.\<close>

definition Verify ::
  "(string \<Rightarrow> string \<Rightarrow> string) \<Rightarrow> time \<Rightarrow> time \<Rightarrow> string \<Rightarrow> string \<Rightarrow> int \<Rightarrow> string \<Rightarrow> duration \<Rightarrow> go_error option" where
  "Verify mac now1 now2 secret signature timestamp body maxSkew =
     (if time_sub now1 (time_Unix timestamp) > maxSkew \<or> time_sub (time_Unix timestamp) now2 > maxSkew
      then Some ''receipt timestamp outside replay window''
      else case hex_DecodeString signature of
        None \<Rightarrow> Some ''invalid signature encoding''
      | Some got \<Rightarrow>
          (let expected = (case hex_DecodeString (Sign mac secret timestamp body) of None \<Rightarrow> [] | Some b \<Rightarrow> b) in
           if got \<noteq> expected then Some ''invalid receipt signature'' else None))"

definition Redact :: "string \<Rightarrow> string" where
  "Redact value =
     (if value = [] then []
      else if length value \<le> 4 then ''****''
      else take 2 value @ ''****'' @ drop (length value - 2) value)"

section \<open>Hexadecimal round trip\<close>

lemma of_char_div_16: "(of_char c :: nat) div 16 < 16"
  by (rule less_mult_imp_div_less) simp

lemma hex_value_hex_digit: "d < 16 \<Longrightarrow> hex_value (hex_digit d) = Some d"
  by (simp add: hex_value_def hex_digit_def Let_def)

lemma hex_roundtrip [simp]: "hex_DecodeString (hex_EncodeToString bs) = Some bs"
proof (induction bs)
  case (Cons c bs)
  have "16 * (of_char c div 16) + of_char c mod 16 = (of_char c :: nat)" by simp
  then show ?case using Cons of_char_div_16 [of c] by (simp add: hex_EncodeToString_def hex_value_hex_digit)
qed (simp add: hex_EncodeToString_def)

lemma hex_EncodeToString_inj: "hex_EncodeToString a = hex_EncodeToString b \<longleftrightarrow> a = b"
  by (metis hex_roundtrip option.inject)

lemma length_hex_EncodeToString: "length (hex_EncodeToString bs) = 2 * length bs"
  by (induction bs) (simp_all add: hex_EncodeToString_def)

lemma hex_no_colon: "CHR '':'' \<notin> set (hex_EncodeToString bs)"
proof -
  have "hex_value (CHR '':'') = None" by (simp add: hex_value_def)
  then have ne: "CHR '':'' \<noteq> hex_digit d" if "d < 16" for d
    using hex_value_hex_digit [OF that] by (metis option.distinct(1))
  show ?thesis by (induction bs) (simp_all add: hex_EncodeToString_def ne of_char_div_16)
qed

section \<open>Addresses\<close>

lemma HashAddress_normalized:
  "HashAddress sum256 t (TrimSpace (ToLower a)) = HashAddress sum256 t a"
  by (simp add: HashAddress_def TrimSpace_ToLower)

section \<open>Integers and signatures\<close>

lemma prepend_digits_no:
  "\<not> is_digit c \<Longrightarrow> c \<notin> set (prepend_digits n [])"
  using prepend_digits_digits [of "[]" n] by (auto simp: list_all_iff)

lemma formatInt_no_dot: "CHR ''.'' \<notin> set (formatInt n)"
  using prepend_digits_no [of "CHR ''.''"] by (auto simp: formatInt_def Let_def is_digit_def)

lemma prepend_digits_nonempty: "0 < n \<Longrightarrow> prepend_digits n [] \<noteq> []"
  using dec_val_prepend_digits [of n "[]"] by auto

lemma formatInt_inj:
  assumes "in_i64 m" "in_i64 n" "formatInt m = formatInt n"
  shows "m = n"
proof -
  have neg: "i64 (- k) = (if k = min_i64 then min_i64 else - k)" if "in_i64 k" "k < 0" for k
  proof (cases "k = min_i64")
    case True
    then show ?thesis by (simp add: i64_def min_i64_def)
  next
    case False
    then have "in_i64 (- k)" using that by (auto simp: in_i64_def min_i64_def)
    with False show ?thesis by simp
  qed
  have hd: "hd (formatInt k) = CHR ''-'' \<longleftrightarrow> k < 0" for k
  proof (cases "k > 0")
    case True
    then have "formatInt k = prepend_digits k []" by (simp add: formatInt_def Let_def)
    moreover have "hd (prepend_digits k []) \<in> set (prepend_digits k [])"
      using True prepend_digits_nonempty by simp
    moreover have "CHR ''-'' \<notin> set (prepend_digits k [])" by (rule prepend_digits_no) (simp add: is_digit_def)
    ultimately show ?thesis using True by auto
  qed (auto simp: formatInt_def Let_def)
  have "m < 0 \<longleftrightarrow> n < 0" using hd assms(3) by metis
  then consider "m < 0" "n < 0" | "0 \<le> m" "0 \<le> n" by linarith
  then show ?thesis
  proof cases
    case 1
    then have "prepend_digits (i64 (- m)) [] = prepend_digits (i64 (- n)) []"
      using assms(3) by (simp add: formatInt_def Let_def)
    moreover have "i64 (- k) < 0 \<longleftrightarrow> k = min_i64" "i64 (- k) \<noteq> 0" if "in_i64 k" "k < 0" for k
      using neg [OF that] that by (auto simp: min_i64_def)
    ultimately have "m = min_i64 \<longleftrightarrow> n = min_i64" using 1 assms
      by (metis linorder_neqE_linordered_idom prepend_digits_nonempty prepend_digits_nonpos less_imp_le)
    then show ?thesis
      using \<open>prepend_digits (i64 (- m)) [] = _\<close> 1 neg assms(1,2) prepend_digits_inj [of "- m" "- n"]
      by (cases "m = min_i64") auto
  next
    case 2
    have z: "prepend_digits k [] \<noteq> ''0''" if "0 < k" for k
    proof
      assume "prepend_digits k [] = ''0''"
      then have "dec_val (prepend_digits k []) 0 = 0" by simp
      then show False using that dec_val_prepend_digits [of k "[]"] by simp
    qed
    from 2 consider "m = 0" "n = 0" | "m = 0" "0 < n" | "0 < m" "n = 0" | "0 < m" "0 < n" by linarith
    then show ?thesis
      using assms(3) prepend_digits_inj [of m n] z [of m] z [of n] by cases (simp_all add: formatInt_def Let_def)
  qed
qed

text \<open>The signed text determines the timestamp and the body.\<close>

lemma signed_text_inj:
  assumes "in_i64 ts" "in_i64 ts'" "formatInt ts @ ''.'' @ body = formatInt ts' @ ''.'' @ body'"
  shows "ts = ts' \<and> body = body'"
proof -
  have "takeWhile (\<lambda>c. c \<noteq> CHR ''.'') (formatInt ts @ ''.'' @ body) = formatInt ts" for ts body
    using formatInt_no_dot [of ts] by (subst takeWhile_append2) auto
  then have "formatInt ts = formatInt ts'" using assms(3) by metis
  then show ?thesis using assms formatInt_inj by auto
qed

text \<open>\<open>Verify\<close> accepts exactly when the timestamp is within the allowed skew on both sides and the
  signature is a hexadecimal text, in either case, of the keyed hash of the printed timestamp, a dot
  and the body; so what \<open>Sign\<close> produces is accepted inside the window.\<close>

theorem Verify_iff:
  "(Verify mac now1 now2 secret sig ts body skew = None) =
     (time_sub now1 (time_Unix ts) \<le> skew \<and> time_sub (time_Unix ts) now2 \<le> skew \<and>
      hex_DecodeString sig = Some (mac secret (formatInt ts @ ''.'' @ body))) \<and>
   hex_DecodeString (Sign mac secret ts body) = Some (mac secret (formatInt ts @ ''.'' @ body))"
  by (auto simp: Verify_def Sign_def Let_def split: option.splits)

text \<open>C31: If the keyed hash has no collision between the two signed texts, a signature accepted for
  one timestamp and body is accepted for no other.\<close>

theorem Verify_binds_message:
  assumes acc: "Verify mac now1 now2 secret sig ts body skew = None"
      "Verify mac now1' now2' secret sig ts' body' skew' = None"
    and range: "in_i64 ts" "in_i64 ts'"
    and nocoll: "mac secret (formatInt ts @ ''.'' @ body) = mac secret (formatInt ts' @ ''.'' @ body') \<Longrightarrow>
        formatInt ts @ ''.'' @ body = formatInt ts' @ ''.'' @ body'"
  shows "ts = ts' \<and> body = body'"
proof -
  have "Some (mac secret (formatInt ts @ ''.'' @ body)) = Some (mac secret (formatInt ts' @ ''.'' @ body'))"
    using acc by (simp add: Verify_def Sign_def Let_def split: if_splits option.splits)
  then show ?thesis using nocoll range signed_text_inj by blast
qed

theorem Verify_binds_message_witness:
  "Verify (\<lambda>k m. k @ m) (time_Unix 100) (time_Unix 100) ''s'' (Sign (\<lambda>k m. k @ m) ''s'' 100 ''b'') 100 ''b'' 0 = None \<and>
   Verify (\<lambda>k m. k @ m) (time_Unix 100) (time_Unix 100) ''s'' (Sign (\<lambda>k m. k @ m) ''s'' 100 ''b'') 99 ''b'' (60 * second) \<noteq> None"
proof -
  let ?sig = "Sign (\<lambda>k m. k @ m) ''s'' 100 ''b''"
  have ok: "Verify (\<lambda>k m. k @ m) (time_Unix 100) (time_Unix 100) ''s'' ?sig 100 ''b'' 0 = None"
    by (simp add: Verify_def Sign_def Let_def time_sub_def min_i64_def max_i64_def)
  moreover have "Verify (\<lambda>k m. k @ m) (time_Unix 100) (time_Unix 100) ''s'' ?sig 99 ''b'' (60 * second) \<noteq> None"
  proof
    assume acc: "Verify (\<lambda>k m. k @ m) (time_Unix 100) (time_Unix 100) ''s'' ?sig 99 ''b'' (60 * second) = None"
    have "(100::int) = 99 \<and> ''b'' = ''b''"
      by (rule Verify_binds_message [OF ok acc]) (simp_all add: in_i64_def)
    then show False by simp
  qed
  ultimately show ?thesis by blast
qed

text \<open>\<open>Redact\<close> shows at most the first and last two bytes: the redacted texts of two values longer
  than four bytes that agree there are the same, and so are those of two values of one to four bytes;
  a redacted text never has more than eight bytes.\<close>

theorem Redact_reveals_little:
  "length (Redact v) \<le> 8 \<and>
   (4 < length v \<and> 4 < length w \<and> take 2 v = take 2 w \<and> drop (length v - 2) v = drop (length w - 2) w \<longrightarrow> Redact v = Redact w) \<and>
   (0 < length v \<and> length v \<le> 4 \<and> 0 < length w \<and> length w \<le> 4 \<longrightarrow> Redact v = Redact w)"
  by (auto simp: Redact_def)

theorem Redact_reveals_little_witness:
  "Redact ''+4412345678'' = Redact ''+4400000078'' \<and> Redact ''+4412345678'' = ''+4****78''"
  using Redact_reveals_little [of "''+4412345678''" "''+4400000078''"] by (simp add: Redact_def)

end
