(* ===== verification/Optimistic_Concurrency.thy ===== *)
theory Optimistic_Concurrency
  imports Go_Prelude
begin

text \<open>
  The interface of a keyed store with optimistic concurrency control: an update names the version it
  is based on and is refused, without any effect, when the stored version is another one.  The store of
  notifications and the provider registry interpret it.  The lemmas are those a
  client relies on: of several writers that read the same version at most one succeeds, whatever
  happens in between to other keys.
\<close>

text \<open>A sequence of writers based on the same version; the flags say which were not refused.\<close>

fun run_writers :: "('w \<Rightarrow> int \<Rightarrow> 's \<Rightarrow> 's \<times> go_error option) \<Rightarrow> int \<Rightarrow> 'w list \<Rightarrow> 's \<Rightarrow> 's \<times> bool list" where
  "run_writers upd e [] s = (s, [])"
| "run_writers upd e (w # ws) s =
     (let r = upd w e s; r' = run_writers upd e ws (fst r) in (fst r', (snd r = None) # snd r'))"

locale versioned =
  fixes get :: "'s \<Rightarrow> 'k \<Rightarrow> 'v option"
    and ver :: "'v \<Rightarrow> int"
    and key :: "'w \<Rightarrow> 'k"
    and admissible :: "int \<Rightarrow> 'w \<Rightarrow> bool"
    and upd :: "'w \<Rightarrow> int \<Rightarrow> 's \<Rightarrow> 's \<times> go_error option"
  assumes upd_missing: "get s (key w) = None \<Longrightarrow> \<exists>err. upd w e s = (s, Some err)"
    and upd_conflict: "get s (key w) = Some old \<Longrightarrow> ver old \<noteq> e \<Longrightarrow> \<exists>err. upd w e s = (s, Some err)"
    and upd_bumps: "get s (key w) = Some old \<Longrightarrow> ver old = e \<Longrightarrow> admissible e w \<Longrightarrow>
      \<exists>new. get (fst (upd w e s)) (key w) = Some new \<and> ver new \<noteq> e"
    and upd_frame: "k \<noteq> key w \<Longrightarrow> get (fst (upd w e s)) k = get s k"
begin

text \<open>An update that the store does not refuse was based on the stored version.\<close>

lemma applied_current:
  assumes "fst (upd w e s) \<noteq> s \<or> snd (upd w e s) = None"
  obtains old where "get s (key w) = Some old" "ver old = e"
proof (cases "get s (key w)")
  case None
  then show ?thesis using upd_missing [of s w e] assms by auto
next
  case (Some old)
  then show ?thesis using upd_conflict [of s w old e] assms that by fastforce
qed

lemma second_writer_refused:
  assumes "snd (upd w e s) = None" "admissible e w" "key w' = key w"
  shows "\<exists>err. upd w' e (fst (upd w e s)) = (fst (upd w e s), Some err)"
proof -
  obtain old where "get s (key w) = Some old" "ver old = e" using applied_current assms(1) by metis
  then obtain new where "get (fst (upd w e s)) (key w') = Some new" "ver new \<noteq> e"
    using upd_bumps assms(2,3) by metis
  then show ?thesis by (rule upd_conflict)
qed

lemma run_writers_stale:
  assumes "\<forall>w \<in> set ws. key w = k" "get s k = Some old" "ver old \<noteq> e"
  shows "run_writers upd e ws s = (s, map (\<lambda>_. False) ws)"
  using assms
proof (induction ws)
  case (Cons w ws)
  then obtain err where "upd w e s = (s, Some err)" using upd_conflict [of s w old e] by auto
  with Cons show ?case by simp
qed simp

lemma at_most_one_writer:
  assumes "\<forall>w \<in> set ws. key w = k \<and> admissible e w"
  shows "length (filter (\<lambda>b. b) (snd (run_writers upd e ws s))) \<le> 1"
  using assms
proof (induction ws arbitrary: s)
  case (Cons w ws)
  let ?s = "fst (upd w e s)"
  show ?case
  proof (cases "snd (upd w e s) = None")
    case True
    then obtain old where "get s (key w) = Some old" "ver old = e" using applied_current by metis
    then obtain new where "get ?s k = Some new" "ver new \<noteq> e" using upd_bumps Cons.prems(1) by fastforce
    then have "run_writers upd e ws ?s = (?s, map (\<lambda>_. False) ws)"
      using run_writers_stale [of ws k ?s new e] Cons.prems(1) by simp
    then show ?thesis by (simp add: Let_def)
  next
    case False
    then show ?thesis using Cons by (auto simp: Let_def)
  qed
qed simp

text \<open>After a writer that has changed the version every later one based on the old version is refused.\<close>

lemma later_writer_refused:
  assumes "\<forall>w \<in> set ws. key w = k" "i < j" "j < length ws" "snd (run_writers upd e ws s) ! i" "admissible e (ws ! i)"
  shows "\<not> snd (run_writers upd e ws s) ! j"
  using assms
proof (induction ws arbitrary: s i j)
  case (Cons w ws)
  let ?s = "fst (upd w e s)"
  obtain j' where j: "j = Suc j'" "j' < length ws" using Cons.prems(2,3) by (cases j) auto
  show ?case
  proof (cases i)
    case 0
    then have ok: "snd (upd w e s) = None" "admissible e w" using Cons.prems(4,5) by (simp_all add: Let_def)
    obtain old where "get s (key w) = Some old" "ver old = e" using applied_current ok(1) by metis
    then obtain new where "get ?s k = Some new" "ver new \<noteq> e" using upd_bumps [of s w old e] ok(2) Cons.prems(1) by auto
    then have "run_writers upd e ws ?s = (?s, map (\<lambda>_. False) ws)"
      using run_writers_stale [of ws k ?s new e] Cons.prems(1) by simp
    then show ?thesis using j by (simp add: Let_def)
  next
    case (Suc i')
    then show ?thesis using Cons.IH [of i' j' ?s] Cons.prems j by (simp add: Let_def)
  qed
qed simp

end

end
