(* ===== verification/Store_Repository.thy ===== *)
theory Store_Repository
  imports Notification_Domain Optimistic_Concurrency "HOL-Library.Sublist"
begin

text \<open>
  The package \<open>internal/repository\<close>: the snapshot the process keeps in memory, the operations of
  \<open>Store\<close> (each runs under the store's mutex, so each is one atomic step), and the JSON file it is
  saved in.  A file holds nothing, a JSON document with some of the fields of a snapshot, or bytes that do not decode.  Saving is a
  list of calls of \<open>os\<close> and \<open>encoding/json\<close>, which may fail (the argument \<open>persist_io\<close> says where) and during which the
  process may be killed.  Clock readings are arguments too.  The interface
  \<open>versioned\<close> states optimistic concurrency control, which the store and the provider registry
  offer.
\<close>

section \<open>Data\<close>

record Suppression =
  sp_TenantID :: string
  sp_Channel :: Channel
  sp_AddressHash :: string
  sp_Reason :: string
  sp_CreatedAt :: time

text \<open>The payload is the JSON text of the notification; the model keeps the notification.\<close>

record Outbox =
  ob_ID :: string
  ob_Topic :: string
  ob_AggregateID :: string
  ob_Payload :: Notification
  ob_CreatedAt :: time
  ob_PublishedAt :: "time option"

record snapshot =
  s_Notifications :: "string \<rightharpoonup> Notification"
  s_Idempotency :: "string \<rightharpoonup> string"
  s_Events :: "string \<rightharpoonup> TimelineEvent list"
  s_Suppressions :: "string \<rightharpoonup> Suppression"
  s_Receipts :: "string \<rightharpoonup> bool"
  s_Outbox :: "Outbox list"

text \<open>
  A JSON document for a snapshot: a field that is absent is \<open>None\<close>.  \<open>json.MarshalIndent\<close> writes all fields; \<open>json.Unmarshal\<close> adds
  the entries of a map to the map that is there and leaves a field that is absent as it is.  (The text of the document is not
  modelled, and neither is \<open>null\<close> for a map, which the program never writes.)
\<close>

record document =
  doc_notifications :: "(string \<rightharpoonup> Notification) option"
  doc_idempotency :: "(string \<rightharpoonup> string) option"
  doc_events :: "(string \<rightharpoonup> TimelineEvent list) option"
  doc_suppressions :: "(string \<rightharpoonup> Suppression) option"
  doc_receipts :: "(string \<rightharpoonup> bool) option"
  doc_outbox :: "Outbox list option"

definition MarshalIndent :: "snapshot \<Rightarrow> document" where
  "MarshalIndent d = \<lparr>doc_notifications = Some (s_Notifications d), doc_idempotency = Some (s_Idempotency d), doc_events = Some (s_Events d),
     doc_suppressions = Some (s_Suppressions d), doc_receipts = Some (s_Receipts d), doc_outbox = Some (s_Outbox d)\<rparr>"

definition into_map :: "('k \<rightharpoonup> 'v) option \<Rightarrow> ('k \<rightharpoonup> 'v) \<Rightarrow> 'k \<rightharpoonup> 'v" where
  "into_map x m = (case x of None \<Rightarrow> m | Some y \<Rightarrow> m ++ y)"

definition Unmarshal :: "document \<Rightarrow> snapshot \<Rightarrow> snapshot" where
  "Unmarshal x d = \<lparr>s_Notifications = into_map (doc_notifications x) (s_Notifications d), s_Idempotency = into_map (doc_idempotency x) (s_Idempotency d),
     s_Events = into_map (doc_events x) (s_Events d), s_Suppressions = into_map (doc_suppressions x) (s_Suppressions d),
     s_Receipts = into_map (doc_receipts x) (s_Receipts d), s_Outbox = (case doc_outbox x of None \<Rightarrow> s_Outbox d | Some ob \<Rightarrow> ob)\<rparr>"

text \<open>The contents of a file; \<open>Undecodable e\<close> is a text on which \<open>json.Unmarshal\<close> returns the error \<open>e\<close>.\<close>

datatype stored_file = NoFile | EmptyFile | Document document | Undecodable go_error

type_synonym disk = "string \<Rightarrow> stored_file"

abbreviation Encoded :: "snapshot \<Rightarrow> stored_file" where
  "Encoded d \<equiv> Document (MarshalIndent d)"

record Store =
  st_path :: string
  st_data :: snapshot
  st_disk :: disk

definition ErrNotFound :: go_error where
  "ErrNotFound = ''not found''"

definition empty_snapshot :: snapshot where
  "empty_snapshot = \<lparr>s_Notifications = Map.empty, s_Idempotency = Map.empty, s_Events = Map.empty,
     s_Suppressions = Map.empty, s_Receipts = Map.empty, s_Outbox = []\<rparr>"

section \<open>Opening and saving\<close>

text \<open>
  The results of \<open>Open\<close>: an error, a store, or a nil store without an error.  \<open>read_err\<close> is an error
  of \<open>os.ReadFile\<close> other than a missing file.
\<close>

datatype open_result = OpenError go_error | OpenNil | Opened Store

definition Open :: "go_error option \<Rightarrow> disk \<Rightarrow> string \<Rightarrow> open_result" where
  "Open read_err disk path =
     (let s = \<lparr>st_path = path, st_data = empty_snapshot, st_disk = disk\<rparr> in
      case read_err of
        Some e \<Rightarrow> OpenError e
      | None \<Rightarrow>
          (case disk path of
             NoFile \<Rightarrow> Opened s
           | EmptyFile \<Rightarrow> OpenNil
           | Document x \<Rightarrow> Opened (s\<lparr>st_data := Unmarshal x (st_data s)\<rparr>)
           | Undecodable e \<Rightarrow> OpenError e))"

text \<open>Which call fails, if any, and what a failing write leaves in the file.\<close>

datatype persist_io =
    IoOk
  | MkdirFails go_error
  | MarshalFails go_error
  | WriteFails go_error stored_file
  | RenameFails go_error

definition tmp_path :: "Store \<Rightarrow> string" where
  "tmp_path s = st_path s @ ''.tmp''"

text \<open>The calls of \<open>persistLocked\<close> and what each does to the disk.  A rename is atomic, as POSIX promises.  (Power failures, before
  which written data may not have reached the disk, are not considered.)\<close>

datatype persist_call = MkdirAll | Marshal snapshot | WriteFile string snapshot | Rename string string

definition persist_calls :: "Store \<Rightarrow> persist_call list" where
  "persist_calls s = [MkdirAll, Marshal (st_data s), WriteFile (tmp_path s) (st_data s), Rename (tmp_path s) (st_path s)]"

fun call :: "persist_io \<Rightarrow> persist_call \<Rightarrow> disk \<Rightarrow> disk \<times> go_error option" where
  "call io MkdirAll disk = (disk, (case io of MkdirFails e \<Rightarrow> Some e | _ \<Rightarrow> None))"
| "call io (Marshal d) disk = (disk, (case io of MarshalFails e \<Rightarrow> Some e | _ \<Rightarrow> None))"
| "call io (WriteFile p d) disk = (case io of WriteFails e left \<Rightarrow> (disk(p := left), Some e) | _ \<Rightarrow> (disk(p := Encoded d), None))"
| "call io (Rename p p') disk = (case io of RenameFails e \<Rightarrow> (disk, Some e) | _ \<Rightarrow> (disk(p := NoFile, p' := disk p), None))"

fun run_calls :: "persist_io \<Rightarrow> persist_call list \<Rightarrow> disk \<Rightarrow> disk \<times> go_error option" where
  "run_calls io [] disk = (disk, None)"
| "run_calls io (c # cs) disk =
     (case call io c disk of (disk', Some e) \<Rightarrow> (disk', Some e) | (disk', None) \<Rightarrow> run_calls io cs disk')"

definition persistLocked :: "persist_io \<Rightarrow> Store \<Rightarrow> Store \<times> go_error option" where
  "persistLocked io s = (case run_calls io (persist_calls s) (st_disk s) of (disk, err) \<Rightarrow> (s\<lparr>st_disk := disk\<rparr>, err))"

text \<open>
  The disks a process may leave behind that is killed while it makes a list of calls: before the first, during a write, which leaves whatever
  part of the text in the file that is written, or after some of them.
\<close>

inductive killed :: "persist_call list \<Rightarrow> disk \<Rightarrow> disk \<Rightarrow> bool" where
  before_call: "killed cs disk disk"
| during_write: "killed (WriteFile p d # cs) disk (disk(p := left))"
| after_call: "call IoOk c disk = (disk', None) \<Longrightarrow> killed cs disk' disk'' \<Longrightarrow> killed (c # cs) disk disk''"

inductive_cases killed_NilE [elim!]: "killed [] disk disk'"
inductive_cases killed_ConsE [elim!]: "killed (c # cs) disk disk'"

section \<open>Operations\<close>

definition itoa :: "int \<Rightarrow> string" where
  "itoa n = (if n = 0 then ''0'' else prepend_digits n [])"

abbreviation upd_data :: "(snapshot \<Rightarrow> snapshot) \<Rightarrow> Store \<Rightarrow> Store" where
  "upd_data f s \<equiv> s\<lparr>st_data := f (st_data s)\<rparr>"

definition events_of :: "snapshot \<Rightarrow> string \<Rightarrow> TimelineEvent list" where
  "events_of d nid = (case s_Events d nid of None \<Rightarrow> [] | Some es \<Rightarrow> es)"

definition addEventLocked ::
  "time \<Rightarrow> string \<Rightarrow> Status \<Rightarrow> string \<Rightarrow> (string \<times> string) list \<Rightarrow> snapshot \<Rightarrow> snapshot" where
  "addEventLocked now nid status provider meta d =
     (let events = events_of d nid; k = int (length events) + 1 in
      d\<lparr>s_Events := (s_Events d)(nid \<mapsto> events @
          [\<lparr>ev_ID = nid @ ''-'' @ itoa k, ev_NotificationID = nid, ev_Status = status, ev_Provider = provider,
            ev_Sequence = k, ev_OccurredAt = now, ev_Metadata = meta\<rparr>])\<rparr>)"

definition idem_key :: "string \<Rightarrow> string \<Rightarrow> string" where
  "idem_key tenant key = tenant @ '':'' @ key"

text \<open>
  The changes \<open>Create\<close> makes in memory for a new idempotency key; \<open>t1\<close> is the clock reading of the
  timeline event, \<open>t2\<close> that of the outbox entry.
\<close>

definition create_data :: "time \<Rightarrow> time \<Rightarrow> Notification \<Rightarrow> snapshot \<Rightarrow> snapshot" where
  "create_data t1 t2 n d =
     (let d = d\<lparr>s_Notifications := (s_Notifications d)(n_ID n \<mapsto> n)\<rparr>;
          d = d\<lparr>s_Idempotency := (s_Idempotency d)(idem_key (n_TenantID n) (n_IdempotencyKey n) \<mapsto> n_ID n)\<rparr>;
          d = addEventLocked t1 (n_ID n) (n_Status n) [] [(''source'', ''submit'')] d
      in d\<lparr>s_Outbox := s_Outbox d @
           [\<lparr>ob_ID = n_ID n @ ''-created'', ob_Topic = ''notification.created'', ob_AggregateID = n_ID n,
             ob_Payload = n, ob_CreatedAt = t2, ob_PublishedAt = None\<rparr>]\<rparr>)"

definition Store_Create ::
  "time \<Rightarrow> time \<Rightarrow> persist_io \<Rightarrow> Notification \<Rightarrow> Store \<Rightarrow> Store \<times> Notification \<times> bool \<times> go_error option" where
  "Store_Create t1 t2 io n s =
     (case s_Idempotency (st_data s) (idem_key (n_TenantID n) (n_IdempotencyKey n)) of
        Some nid \<Rightarrow>
          (s, (case s_Notifications (st_data s) nid of None \<Rightarrow> empty_Notification | Some m \<Rightarrow> m), False, None)
      | None \<Rightarrow>
          (let r = persistLocked io (upd_data (create_data t1 t2 n) s) in (fst r, n, True, snd r)))"

definition Store_Get :: "string \<Rightarrow> Store \<Rightarrow> Notification \<times> go_error option" where
  "Store_Get nid s =
     (case s_Notifications (st_data s) nid of
        None \<Rightarrow> (empty_Notification, Some ErrNotFound)
      | Some n \<Rightarrow> (n, None))"

definition update_data :: "time \<Rightarrow> Notification \<Rightarrow> snapshot \<Rightarrow> snapshot" where
  "update_data now n d =
     addEventLocked now (n_ID n) (n_Status n) (n_Provider n) [(''attempts'', itoa (n_Attempts n))]
       (d\<lparr>s_Notifications := (s_Notifications d)(n_ID n \<mapsto> n)\<rparr>)"

definition Store_Update :: "time \<Rightarrow> persist_io \<Rightarrow> Notification \<Rightarrow> int \<Rightarrow> Store \<Rightarrow> Store \<times> go_error option" where
  "Store_Update now io n expected s =
     (case s_Notifications (st_data s) (n_ID n) of
        None \<Rightarrow> (s, Some ErrNotFound)
      | Some old \<Rightarrow>
          if n_Version old \<noteq> expected then (s, Some ''version conflict'')
          else persistLocked io (upd_data (update_data now n) s))"

definition Timeline :: "string \<Rightarrow> Store \<Rightarrow> TimelineEvent list" where
  "Timeline nid s = events_of (st_data s) nid"

text \<open>\<open>ks\<close> is the order in which this call iterates the map, another one on every call.  \<open>None\<close> is the run-time panic of the
  slice expression \<open>out[offset:]\<close> on a negative offset.\<close>

definition created_after :: "Notification \<Rightarrow> Notification \<Rightarrow> bool" where
  "created_after a b \<longleftrightarrow> n_CreatedAt a > n_CreatedAt b"

definition Store_List :: "string list \<Rightarrow> string \<Rightarrow> int \<Rightarrow> int \<Rightarrow> Store \<Rightarrow> Notification list option" where
  "Store_List ks tenant limit offset s =
     (let out = filter (\<lambda>n. tenant = [] \<or> n_TenantID n = tenant) (map_values (s_Notifications (st_data s)) ks);
          out = sort_Slice created_after out
      in if offset \<ge> int (length out) then Some []
         else if offset < 0 then None
         else
           let out = drop (nat offset) out
           in Some (if limit > 0 \<and> int (length out) > limit then take (nat limit) out else out))"

definition Queued :: "string list \<Rightarrow> Store \<Rightarrow> Notification list" where
  "Queued ks s = filter (\<lambda>n. n_Status n = StatusQueued) (map_values (s_Notifications (st_data s)) ks)"

definition receipt_data :: "time \<Rightarrow> string \<Rightarrow> TimelineEvent \<Rightarrow> snapshot \<Rightarrow> snapshot" where
  "receipt_data now key event d =
     (let d = d\<lparr>s_Receipts := (s_Receipts d)(key \<mapsto> True)\<rparr>;
          nid = ev_NotificationID event;
          d = d\<lparr>s_Events := (s_Events d)(nid \<mapsto> events_of d nid @ [event])\<rparr>
      in case s_Notifications d nid of
           None \<Rightarrow> d
         | Some n \<Rightarrow>
             (let n = n\<lparr>n_Status := ev_Status event, n_Version := i64 (n_Version n + 1), n_UpdatedAt := now\<rparr>
              in d\<lparr>s_Notifications := (s_Notifications d)(n_ID n \<mapsto> n)\<rparr>))"

definition RecordReceipt :: "time \<Rightarrow> persist_io \<Rightarrow> string \<Rightarrow> TimelineEvent \<Rightarrow> Store \<Rightarrow> Store \<times> bool" where
  "RecordReceipt now io key event s =
     (if s_Receipts (st_data s) key = Some True then (s, False)
      else (fst (persistLocked io (upd_data (receipt_data now key event) s)), True))"

definition suppression_key :: "string \<Rightarrow> Channel \<Rightarrow> string \<Rightarrow> string" where
  "suppression_key tenant ch hash = tenant @ '':'' @ ch @ '':'' @ hash"

definition Suppress :: "persist_io \<Rightarrow> Suppression \<Rightarrow> Store \<Rightarrow> Store \<times> go_error option" where
  "Suppress io x s =
     persistLocked io (upd_data (\<lambda>d. d\<lparr>s_Suppressions := (s_Suppressions d)
       (suppression_key (sp_TenantID x) (sp_Channel x) (sp_AddressHash x) \<mapsto> x)\<rparr>) s)"

definition IsSuppressed :: "string \<Rightarrow> Channel \<Rightarrow> string \<Rightarrow> Store \<Rightarrow> bool" where
  "IsSuppressed tenant ch hash s = (s_Suppressions (st_data s) (suppression_key tenant ch hash) \<noteq> None)"

definition ListSuppressions :: "string list \<Rightarrow> string \<Rightarrow> Store \<Rightarrow> Suppression list" where
  "ListSuppressions ks tenant s =
     filter (\<lambda>x. tenant = [] \<or> sp_TenantID x = tenant) (map_values (s_Suppressions (st_data s)) ks)"

definition Audit :: "Store \<Rightarrow> Outbox list" where
  "Audit s = s_Outbox (st_data s)"

section \<open>Saving replaces the file atomically\<close>

lemma tmp_path_neq [simp]: "tmp_path s \<noteq> st_path s" "st_path s \<noteq> tmp_path s"
  by (simp_all add: tmp_path_def)

lemma persistLocked_cases:
  "persistLocked IoOk s = (s\<lparr>st_disk := (st_disk s)(tmp_path s := NoFile, st_path s := Encoded (st_data s))\<rparr>, None)"
  "persistLocked (MkdirFails e) s = (s, Some e)" "persistLocked (MarshalFails e) s = (s, Some e)"
  "persistLocked (WriteFails e left) s = (s\<lparr>st_disk := (st_disk s)(tmp_path s := left)\<rparr>, Some e)"
  "persistLocked (RenameFails e) s = (s\<lparr>st_disk := (st_disk s)(tmp_path s := Encoded (st_data s))\<rparr>, Some e)"
  by (simp_all add: persistLocked_def persist_calls_def)

lemma persistLocked_data [simp]:
  "st_data (fst (persistLocked io s)) = st_data s" "st_path (fst (persistLocked io s)) = st_path s"
  by (cases io; simp add: persistLocked_cases)+

text \<open>What is written is read back.\<close>

lemma Unmarshal_MarshalIndent: "Unmarshal (MarshalIndent d) empty_snapshot = d"
  by (simp add: Unmarshal_def MarshalIndent_def into_map_def empty_snapshot_def)

lemma Open_Encoded: "disk path = Encoded d \<Longrightarrow> Open None disk path = Opened \<lparr>st_path = path, st_data = d, st_disk = disk\<rparr>"
  by (simp add: Open_def Unmarshal_MarshalIndent)

text \<open>What a start gets from the file: an error, a nil store, or the data.\<close>

datatype loaded = LoadError go_error | LoadNil | LoadData snapshot

definition load :: "disk \<Rightarrow> string \<Rightarrow> loaded" where
  "load disk path = (case Open None disk path of OpenError e \<Rightarrow> LoadError e | OpenNil \<Rightarrow> LoadNil | Opened s \<Rightarrow> LoadData (st_data s))"

lemma load_cong: "disk' path = disk path \<Longrightarrow> load disk' path = load disk path"
  by (simp add: load_def Open_def Let_def split: stored_file.split)

lemma load_Encoded: "disk path = Encoded d \<Longrightarrow> load disk path = LoadData d"
  by (simp add: load_def Open_Encoded)

lemma killed_persist:
  assumes "killed (persist_calls s) (st_disk s) disk"
  shows "disk (st_path s) = st_disk s (st_path s) \<or> disk (st_path s) = Encoded (st_data s)"
    "\<forall>p. p \<noteq> st_path s \<and> p \<noteq> tmp_path s \<longrightarrow> disk p = st_disk s p"
  using assms unfolding persist_calls_def by auto

text \<open>C32: Saving is atomic.  A process that is killed anywhere in \<open>persistLocked\<close>, also in the middle of writing, leaves a file from which the next
  start gets what it would have got before, or the data in memory; after a call that returns an error the next start gets
  what it would have got before, after one that succeeds the data in memory.  No file but the store's own and its temporary one
  is touched.\<close>

theorem persist_atomic:
  "(killed (persist_calls s) (st_disk s) disk \<longrightarrow>
     load disk (st_path s) \<in> {load (st_disk s) (st_path s), LoadData (st_data s)} \<and>
     (\<forall>p. p \<noteq> st_path s \<and> p \<noteq> tmp_path s \<longrightarrow> disk p = st_disk s p)) \<and>
   (case persistLocked io s of (s', err) \<Rightarrow>
     load (st_disk s') (st_path s) = (if err = None then LoadData (st_data s) else load (st_disk s) (st_path s)))"
proof (intro conjI impI)
  assume K: "killed (persist_calls s) (st_disk s) disk"
  from killed_persist(1) [OF K] show "load disk (st_path s) \<in> {load (st_disk s) (st_path s), LoadData (st_data s)}"
    using load_cong [of disk "st_path s" "st_disk s"] load_Encoded [of disk "st_path s" "st_data s"] by blast
  show "\<forall>p. p \<noteq> st_path s \<and> p \<noteq> tmp_path s \<longrightarrow> disk p = st_disk s p" by (rule killed_persist(2) [OF K])
next
  show "case persistLocked io s of (s', err) \<Rightarrow>
     load (st_disk s') (st_path s) = (if err = None then LoadData (st_data s) else load (st_disk s) (st_path s))"
    by (cases io) (auto simp: persistLocked_cases intro: load_cong load_Encoded)
qed

definition empty_store :: Store where
  "empty_store = \<lparr>st_path = ''data/store.json'', st_data = empty_snapshot, st_disk = (\<lambda>_. NoFile)\<rparr>"

theorem persist_atomic_witness:
  "load ((st_disk empty_store)(tmp_path empty_store := EmptyFile)) (st_path empty_store) \<in> {load (st_disk empty_store) (st_path empty_store), LoadData empty_snapshot} \<and>
   load (st_disk (fst (persistLocked IoOk empty_store))) (st_path empty_store) = LoadData empty_snapshot"
proof -
  have "killed (persist_calls empty_store) (st_disk empty_store) ((st_disk empty_store)(tmp_path empty_store := EmptyFile))"
    unfolding persist_calls_def by (rule killed.after_call [OF _ killed.after_call [OF _ killed.during_write]]) simp_all
  then show ?thesis
    using persist_atomic [of empty_store "(st_disk empty_store)(tmp_path empty_store := EmptyFile)" IoOk]
    by (simp add: persistLocked_cases empty_store_def)
qed

text \<open>Opening a path whose file exists and is empty returns a nil store and no error.\<close>

theorem Open_empty_file_is_nil:
  "disk path = EmptyFile \<Longrightarrow> Open None disk path = OpenNil"
  by (simp add: Open_def)

theorem Open_empty_file_is_nil_witness:
  "Open None ((\<lambda>_. NoFile)(''data/store.json'' := EmptyFile)) ''data/store.json'' = OpenNil"
  by (rule Open_empty_file_is_nil) simp

section \<open>The history only grows\<close>

definition extends_history :: "snapshot \<Rightarrow> snapshot \<Rightarrow> bool" where
  "extends_history d d' \<longleftrightarrow>
     (\<forall>nid. prefix (events_of d nid) (events_of d' nid)) \<and> prefix (s_Outbox d) (s_Outbox d') \<and>
     s_Idempotency d \<subseteq>\<^sub>m s_Idempotency d' \<and> dom (s_Notifications d) \<subseteq> dom (s_Notifications d') \<and>
     (\<forall>k. s_Receipts d k = Some True \<longrightarrow> s_Receipts d' k = Some True) \<and>
     dom (s_Suppressions d) \<subseteq> dom (s_Suppressions d')"

lemma extends_history_refl [simp]: "extends_history d d"
  by (simp add: extends_history_def)

lemma extends_history_trans: "extends_history d d' \<Longrightarrow> extends_history d' d'' \<Longrightarrow> extends_history d d''"
  unfolding extends_history_def by (meson map_le_trans prefix_order.trans subset_trans)

inductive store_step :: "Store \<Rightarrow> Store \<Rightarrow> bool" where
  create: "store_step s (fst (Store_Create t1 t2 io n s))"
| update: "store_step s (fst (Store_Update now io n expected s))"
| receipt: "store_step s (fst (RecordReceipt now io key event s))"
| suppress: "store_step s (fst (Suppress io x s))"

lemma events_of_addEvent:
  "events_of (addEventLocked now nid st p m d) nid' =
     (if nid' = nid then events_of d nid @
        [\<lparr>ev_ID = nid @ ''-'' @ itoa (int (length (events_of d nid)) + 1), ev_NotificationID = nid, ev_Status = st,
          ev_Provider = p, ev_Sequence = int (length (events_of d nid)) + 1, ev_OccurredAt = now, ev_Metadata = m\<rparr>]
      else events_of d nid')"
  by (simp add: addEventLocked_def Let_def events_of_def)

lemma addEventLocked_other [simp]:
  "s_Notifications (addEventLocked now nid st p m d) = s_Notifications d"
  "s_Idempotency (addEventLocked now nid st p m d) = s_Idempotency d"
  "s_Suppressions (addEventLocked now nid st p m d) = s_Suppressions d"
  "s_Receipts (addEventLocked now nid st p m d) = s_Receipts d"
  "s_Outbox (addEventLocked now nid st p m d) = s_Outbox d"
  by (simp_all add: addEventLocked_def Let_def)

lemma events_of_irrelevant [simp]:
  "events_of (d\<lparr>s_Notifications := x\<rparr>) = events_of d" "events_of (d\<lparr>s_Idempotency := y\<rparr>) = events_of d"
  "events_of (d\<lparr>s_Suppressions := z\<rparr>) = events_of d" "events_of (d\<lparr>s_Receipts := r\<rparr>) = events_of d"
  "events_of (d\<lparr>s_Outbox := ob\<rparr>) = events_of d"
  by (simp_all add: events_of_def fun_eq_iff)

lemma events_of_upd [simp]:
  "events_of (d\<lparr>s_Events := (s_Events d')(i \<mapsto> es)\<rparr>) j = (if j = i then es else events_of d' j)"
  by (simp add: events_of_def)

lemma create_data_simps [simp]:
  "s_Notifications (create_data t1 t2 n d) = (s_Notifications d)(n_ID n \<mapsto> n)"
  "s_Idempotency (create_data t1 t2 n d) =
     (s_Idempotency d)(idem_key (n_TenantID n) (n_IdempotencyKey n) \<mapsto> n_ID n)"
  "s_Suppressions (create_data t1 t2 n d) = s_Suppressions d" "s_Receipts (create_data t1 t2 n d) = s_Receipts d"
  "s_Outbox (create_data t1 t2 n d) = s_Outbox d @
     [\<lparr>ob_ID = n_ID n @ ''-created'', ob_Topic = ''notification.created'', ob_AggregateID = n_ID n,
       ob_Payload = n, ob_CreatedAt = t2, ob_PublishedAt = None\<rparr>]"
  by (simp_all add: create_data_def Let_def)

lemma update_data_simps [simp]:
  "s_Notifications (update_data now n d) = (s_Notifications d)(n_ID n \<mapsto> n)"
  "s_Idempotency (update_data now n d) = s_Idempotency d" "s_Suppressions (update_data now n d) = s_Suppressions d"
  "s_Receipts (update_data now n d) = s_Receipts d" "s_Outbox (update_data now n d) = s_Outbox d"
  by (simp_all add: update_data_def)

lemma receipt_data_simps [simp]:
  "s_Idempotency (receipt_data now key ev d) = s_Idempotency d"
  "s_Suppressions (receipt_data now key ev d) = s_Suppressions d" "s_Outbox (receipt_data now key ev d) = s_Outbox d"
  "s_Receipts (receipt_data now key ev d) = (s_Receipts d)(key \<mapsto> True)"
  "events_of (receipt_data now key ev d) j =
     (if j = ev_NotificationID ev then events_of d j @ [ev] else events_of d j)"
  "s_Notifications (receipt_data now key ev d) =
     (case s_Notifications d (ev_NotificationID ev) of
        None \<Rightarrow> s_Notifications d
      | Some n \<Rightarrow> (s_Notifications d)(n_ID n \<mapsto>
          n\<lparr>n_Status := ev_Status ev, n_Version := i64 (n_Version n + 1), n_UpdatedAt := now\<rparr>))"
  by (auto simp: receipt_data_def Let_def split: option.splits)

lemma events_of_create_data:
  "events_of (create_data t1 t2 n d) j =
     events_of (addEventLocked t1 (n_ID n) (n_Status n) [] [(''source'', ''submit'')] d) j"
  by (simp add: create_data_def Let_def events_of_addEvent)

lemma events_of_update_data:
  "events_of (update_data now n d) j =
     events_of (addEventLocked now (n_ID n) (n_Status n) (n_Provider n) [(''attempts'', itoa (n_Attempts n))] d) j"
  by (simp add: update_data_def events_of_addEvent)

lemma Store_Create_new:
  "s_Idempotency (st_data s) (idem_key (n_TenantID n) (n_IdempotencyKey n)) = None \<Longrightarrow>
   Store_Create t1 t2 io n s =
     (fst (persistLocked io (upd_data (create_data t1 t2 n) s)), n, True,
      snd (persistLocked io (upd_data (create_data t1 t2 n) s)))"
  by (simp add: Store_Create_def Let_def)

lemma Store_Create_existing:
  "s_Idempotency (st_data s) (idem_key (n_TenantID n) (n_IdempotencyKey n)) = Some nid \<Longrightarrow>
   Store_Create t1 t2 io n s = (s, (case s_Notifications (st_data s) nid of None \<Rightarrow> empty_Notification | Some m \<Rightarrow> m), False, None)"
  by (simp add: Store_Create_def)

lemma store_step_history:
  assumes "store_step s s'"
  shows "extends_history (st_data s) (st_data s')"
  using assms
proof (cases rule: store_step.cases)
  case (create t1 t2 io n)
  show ?thesis
  proof (cases "s_Idempotency (st_data s) (idem_key (n_TenantID n) (n_IdempotencyKey n))")
    case None
    then show ?thesis
      using create by (auto simp: Store_Create_new extends_history_def events_of_create_data events_of_addEvent map_le_def)
  next
    case (Some i)
    then show ?thesis using create by (simp add: Store_Create_existing)
  qed
next
  case (update now io n expected)
  then show ?thesis
    by (auto simp: Store_Update_def extends_history_def events_of_update_data events_of_addEvent split: option.splits)
next
  case (receipt now io key ev)
  then show ?thesis by (auto simp: RecordReceipt_def extends_history_def split: option.splits)
next
  case (suppress io x)
  then show ?thesis by (auto simp: Suppress_def extends_history_def)
qed

lemma store_steps_history:
  "store_step\<^sup>*\<^sup>* s s' \<Longrightarrow> extends_history (st_data s) (st_data s')"
  by (induction rule: rtranclp_induct) (auto dest: store_step_history intro: extends_history_trans)

text \<open>C33: Whatever operations run on a store, in whatever order and with whatever arguments, every
  timeline and the outbox only grow at the end, no idempotency key changes its notification, no suppression is forgotten, the
  key of a recorded receipt stays refused, and no identifier of a notification disappears.\<close>

theorem store_history_append_only:
  assumes "store_step\<^sup>*\<^sup>* s s'"
  shows "prefix (Timeline nid s) (Timeline nid s') \<and> prefix (Audit s) (Audit s') \<and>
    s_Idempotency (st_data s) \<subseteq>\<^sub>m s_Idempotency (st_data s') \<and>
    (IsSuppressed tenant ch hash s \<longrightarrow> IsSuppressed tenant ch hash s') \<and>
    (s_Receipts (st_data s) key = Some True \<longrightarrow> RecordReceipt now io key ev s' = (s', False)) \<and>
    (snd (Store_Get nid s) = None \<longrightarrow> snd (Store_Get nid s') = None)"
  using store_steps_history [OF assms]
  by (auto simp: extends_history_def Timeline_def Audit_def IsSuppressed_def RecordReceipt_def Store_Get_def domIff split: option.splits)

definition sample_store :: Store where
  "sample_store = fst (Store_Create 1 2 IoOk (sample_notification\<lparr>n_ID := ''n1'', n_Status := StatusQueued, n_Version := 1\<rparr>) empty_store)"

definition sample_suppression :: Suppression where
  "sample_suppression = \<lparr>sp_TenantID = ''acme'', sp_Channel = ChannelEmail, sp_AddressHash = ''00'', sp_Reason = [], sp_CreatedAt = 3\<rparr>"

theorem store_history_append_only_witness:
  "store_step\<^sup>*\<^sup>* sample_store (fst (Suppress IoOk sample_suppression sample_store)) \<and>
   prefix (Timeline ''n1'' sample_store) (Timeline ''n1'' (fst (Suppress IoOk sample_suppression sample_store)))"
proof -
  have "store_step\<^sup>*\<^sup>* sample_store (fst (Suppress IoOk sample_suppression sample_store))"
    by (rule r_into_rtranclp) (rule store_step.suppress)
  then show ?thesis using store_history_append_only by blast
qed

section \<open>Well-formed stores\<close>

definition wf_snapshot :: "snapshot \<Rightarrow> bool" where
  "wf_snapshot d \<longleftrightarrow>
     (\<forall>i n. s_Notifications d i = Some n \<longrightarrow> n_ID n = i) \<and>
     (\<forall>k i. s_Idempotency d k = Some i \<longrightarrow> i \<in> dom (s_Notifications d)) \<and>
     (\<forall>i e. e \<in> set (events_of d i) \<longrightarrow> ev_NotificationID e = i) \<and>
     (\<forall>i \<in> dom (s_Notifications d). events_of d i \<noteq> [] \<and>
        (\<exists>x \<in> set (s_Outbox d). ob_AggregateID x = i \<and> ob_Topic x = ''notification.created''))"

lemma wf_snapshot_empty: "wf_snapshot empty_snapshot"
  by (simp add: wf_snapshot_def empty_snapshot_def events_of_def)

lemma wf_create_data: "wf_snapshot d \<Longrightarrow> wf_snapshot (create_data t1 t2 n d)"
  by (auto simp: wf_snapshot_def events_of_create_data events_of_addEvent)

lemma wf_update_data: "wf_snapshot d \<Longrightarrow> n_ID n \<in> dom (s_Notifications d) \<Longrightarrow> wf_snapshot (update_data now n d)"
  by (auto simp: wf_snapshot_def events_of_update_data events_of_addEvent)

lemma wf_receipt_data: "wf_snapshot d \<Longrightarrow> wf_snapshot (receipt_data now key ev d)"
  by (auto simp: wf_snapshot_def split: option.splits)

lemma wf_suppress: "wf_snapshot d \<Longrightarrow> wf_snapshot (d\<lparr>s_Suppressions := x\<rparr>)"
  by (simp add: wf_snapshot_def)

lemma store_step_wf:
  assumes "store_step s s'" "wf_snapshot (st_data s)"
  shows "wf_snapshot (st_data s')"
  using assms
proof (cases rule: store_step.cases)
  case (create t1 t2 io n)
  then show ?thesis using assms(2) by (auto simp: Store_Create_def Let_def wf_create_data split: option.splits)
next
  case (update now io n expected)
  then show ?thesis using assms(2) by (auto simp: Store_Update_def intro!: wf_update_data split: option.splits)
next
  case (receipt now io key ev)
  then show ?thesis using assms(2) by (auto simp: RecordReceipt_def wf_receipt_data)
next
  case (suppress io x)
  then show ?thesis using assms(2) by (auto simp: Suppress_def wf_suppress)
qed

lemma store_steps_wf: "store_step\<^sup>*\<^sup>* s s' \<Longrightarrow> wf_snapshot (st_data s) \<Longrightarrow> wf_snapshot (st_data s')"
  by (induction rule: rtranclp_induct) (auto dest: store_step_wf)

text \<open>C34: In every store reached from a new one, each notification is filed under its own identifier,
  each idempotency key leads to a stored notification, each timeline holds only events of its
  notification, and every stored notification has a timeline and a record of its creation in the
  outbox.\<close>

theorem store_reachable_wf:
  assumes "Open None disk path = Opened s0" "disk path = NoFile" "store_step\<^sup>*\<^sup>* s0 s"
  shows "(\<forall>i n. s_Notifications (st_data s) i = Some n \<longrightarrow> n_ID n = i) \<and>
    (\<forall>k i. s_Idempotency (st_data s) k = Some i \<longrightarrow> snd (Store_Get i s) = None) \<and>
    (\<forall>i e. e \<in> set (Timeline i s) \<longrightarrow> ev_NotificationID e = i) \<and>
    (\<forall>i n. Store_Get i s = (n, None) \<longrightarrow> Timeline i s \<noteq> [] \<and>
       (\<exists>x \<in> set (Audit s). ob_AggregateID x = i \<and> ob_Topic x = ''notification.created''))"
proof -
  have "st_data s0 = empty_snapshot" using assms(1,2) by (auto simp: Open_def)
  then have wf: "wf_snapshot (st_data s)" using store_steps_wf [OF assms(3)] wf_snapshot_empty by simp
  have get: "(snd (Store_Get i s) = None) = (i \<in> dom (s_Notifications (st_data s)))" for i
    by (auto simp: Store_Get_def split: option.splits)
  have "Store_Get i s = (n, None) \<Longrightarrow> i \<in> dom (s_Notifications (st_data s))" for i n
    using get [of i] by simp
  with wf get show ?thesis unfolding wf_snapshot_def Timeline_def Audit_def by blast
qed

lemma sample_store_reachable:
  "Open None (\<lambda>_. NoFile) ''data/store.json'' = Opened empty_store" "store_step\<^sup>*\<^sup>* empty_store sample_store"
  unfolding sample_store_def by (simp add: Open_def empty_store_def, rule r_into_rtranclp, rule store_step.create)

theorem store_reachable_wf_witness:
  "store_step\<^sup>*\<^sup>* empty_store sample_store \<and> Timeline ''n1'' sample_store \<noteq> [] \<and>
   (\<exists>x \<in> set (Audit sample_store). ob_AggregateID x = ''n1'')"
proof -
  note W = store_reachable_wf [OF sample_store_reachable(1) refl sample_store_reachable(2)]
  have "snd (Store_Get ''n1'' sample_store) = None"
    by (simp add: sample_store_def Store_Create_def empty_store_def empty_snapshot_def Store_Get_def Let_def)
  then have "Store_Get ''n1'' sample_store = (fst (Store_Get ''n1'' sample_store), None)" by (simp add: prod_eq_iff)
  with W sample_store_reachable show ?thesis by blast
qed

section \<open>Idempotent submission\<close>

text \<open>Once a notification is created under a tenant and idempotency key, every later \<open>Create\<close> with
  a notification of the same tenant and key, whatever happened in between, returns the notification
  stored under the first one's identifier as not created, and leaves the store as it is.\<close>

theorem Create_idempotent:
  assumes created: "Store_Create t1 t2 io n s = (s1, m, True, e)" and later: "store_step\<^sup>*\<^sup>* s1 s2"
    and wf: "wf_snapshot (st_data s)"
    and same: "n_TenantID n' = n_TenantID n" "n_IdempotencyKey n' = n_IdempotencyKey n"
  shows "\<exists>m'. Store_Create t1' t2' io' n' s2 = (s2, m', False, None) \<and> n_ID m' = n_ID n \<and>
    Store_Get (n_ID n) s2 = (m', None)"
proof -
  let ?k = "idem_key (n_TenantID n) (n_IdempotencyKey n)"
  from created have new: "s_Idempotency (st_data s) ?k = None"
    by (auto simp: Store_Create_def Let_def split: option.splits)
  then have s1: "st_data s1 = create_data t1 t2 n (st_data s)"
    using created by (auto simp: Store_Create_new)
  then have "s_Idempotency (st_data s1) ?k = Some (n_ID n)" by simp
  then have k2: "s_Idempotency (st_data s2) ?k = Some (n_ID n)"
    using store_steps_history [OF later] unfolding extends_history_def map_le_def by (metis domI)
  have wf2: "wf_snapshot (st_data s2)"
    using store_steps_wf [OF later] wf by (simp add: s1 wf_create_data)
  then obtain m' where m': "s_Notifications (st_data s2) (n_ID n) = Some m'" "n_ID m' = n_ID n"
    using k2 unfolding wf_snapshot_def by (metis domD)
  have "Store_Create t1' t2' io' n' s2 = (s2, m', False, None)"
    using Store_Create_existing [of s2 n' "n_ID n" t1' t2' io'] k2 m' same by simp
  then show ?thesis using m' by (simp add: Store_Get_def)
qed

theorem Create_idempotent_witness:
  "\<exists>m'. Store_Create 5 6 IoOk (sample_notification\<lparr>n_ID := ''other''\<rparr>) sample_store = (sample_store, m', False, None) \<and>
     n_ID m' = ''n1''"
proof -
  let ?n = "sample_notification\<lparr>n_ID := ''n1'', n_Status := StatusQueued, n_Version := 1\<rparr>"
  have "Store_Create 1 2 IoOk ?n empty_store = (sample_store, ?n, True, None)"
    by (simp add: sample_store_def Store_Create_def Let_def empty_store_def empty_snapshot_def persistLocked_cases)
  moreover have "wf_snapshot (st_data empty_store)" by (simp add: empty_store_def wf_snapshot_empty)
  ultimately show ?thesis
    using Create_idempotent [of 1 2 IoOk ?n empty_store sample_store ?n None sample_store "sample_notification\<lparr>n_ID := ''other''\<rparr>" 5 6 IoOk]
    by (auto simp: sample_notification_def)
qed

lemma idem_key_inj:
  assumes "CHR '':'' \<notin> set t" "CHR '':'' \<notin> set t'" "idem_key t k = idem_key t' k'"
  shows "t = t' \<and> k = k'"
proof -
  have "takeWhile (\<lambda>c. c \<noteq> CHR '':'') (idem_key t k) = t" if "CHR '':'' \<notin> set t" for t k
    using that unfolding idem_key_def by (subst takeWhile_append2) auto
  then have "t = t'" using assms by metis
  then show ?thesis using assms(3) by (simp add: idem_key_def)
qed

text \<open>The idempotency key is not scoped to a tenant: a tenant whose name continues another
  tenant's name with a colon shares keys with it, and the second submitter is handed the first
  tenant's notification.\<close>

theorem idempotency_crosses_tenants:
  assumes "n_TenantID n = a @ '':'' @ b" "n_IdempotencyKey n = c"
    "n_TenantID n' = a" "n_IdempotencyKey n' = b @ '':'' @ c"
    "s_Idempotency (st_data s) (idem_key (n_TenantID n) (n_IdempotencyKey n)) = None"
  shows "n_TenantID n' \<noteq> n_TenantID n \<and>
    snd (Store_Create t3 t4 io' n' (fst (Store_Create t1 t2 io n s))) = (n, False, None)"
proof -
  have k: "idem_key (n_TenantID n') (n_IdempotencyKey n') = idem_key (n_TenantID n) (n_IdempotencyKey n)"
    using assms by (simp add: idem_key_def)
  have "s_Idempotency (st_data (fst (Store_Create t1 t2 io n s))) (idem_key (n_TenantID n') (n_IdempotencyKey n')) = Some (n_ID n)"
    "s_Notifications (st_data (fst (Store_Create t1 t2 io n s))) (n_ID n) = Some n"
    using assms(5) k by (simp_all add: Store_Create_new)
  then show ?thesis using assms(1,3) by (simp add: Store_Create_existing)
qed

theorem idempotency_crosses_tenants_witness:
  "snd (Store_Create 3 4 IoOk (sample_notification\<lparr>n_TenantID := ''acme'', n_IdempotencyKey := ''eu:1'', n_ID := ''n2''\<rparr>)
     (fst (Store_Create 1 2 IoOk (sample_notification\<lparr>n_TenantID := ''acme:eu'', n_IdempotencyKey := ''1'', n_ID := ''n1''\<rparr>) empty_store)))
   = (sample_notification\<lparr>n_TenantID := ''acme:eu'', n_IdempotencyKey := ''1'', n_ID := ''n1''\<rparr>, False, None)"
  using idempotency_crosses_tenants [of "sample_notification\<lparr>n_TenantID := ''acme:eu'', n_IdempotencyKey := ''1'', n_ID := ''n1''\<rparr>" "''acme''" "''eu''" "''1''"
      "sample_notification\<lparr>n_TenantID := ''acme'', n_IdempotencyKey := ''eu:1'', n_ID := ''n2''\<rparr>" empty_store 3 4 IoOk 1 2 IoOk]
  by (simp add: empty_store_def empty_snapshot_def)

text \<open>\<open>Create\<close> does not look whether the identifier is taken: a notification with a new idempotency
  key and the identifier of a stored one replaces it, and the first one's idempotency key then leads
  to the replacement, of whatever tenant.\<close>

theorem Create_replaces_same_identifier:
  assumes "s_Idempotency (st_data s) (idem_key (n_TenantID v) (n_IdempotencyKey v)) = Some (n_ID v)"
    "Store_Get (n_ID v) s = (v, None)"
    "s_Idempotency (st_data s) (idem_key (n_TenantID n) (n_IdempotencyKey n)) = None" "n_ID n = n_ID v"
  shows "Store_Get (n_ID v) (fst (Store_Create t1 t2 io n s)) = (n, None) \<and>
    snd (Store_Create t3 t4 io' v (fst (Store_Create t1 t2 io n s))) = (n, False, None)"
proof -
  have "s_Idempotency (st_data (fst (Store_Create t1 t2 io n s))) (idem_key (n_TenantID v) (n_IdempotencyKey v)) = Some (n_ID v)"
    "s_Notifications (st_data (fst (Store_Create t1 t2 io n s))) (n_ID v) = Some n"
    using assms by (auto simp: Store_Create_new)
  then show ?thesis by (simp add: Store_Create_existing Store_Get_def)
qed

theorem Create_replaces_same_identifier_witness:
  "Store_Get ''n1'' (fst (Store_Create 3 4 IoOk (sample_notification\<lparr>n_TenantID := ''evil'', n_ID := ''n1''\<rparr>) sample_store)) =
     (sample_notification\<lparr>n_TenantID := ''evil'', n_ID := ''n1''\<rparr>, None)"
proof -
  let ?v = "sample_notification\<lparr>n_ID := ''n1'', n_Status := StatusQueued, n_Version := 1\<rparr>"
  let ?n = "sample_notification\<lparr>n_TenantID := ''evil'', n_ID := ''n1''\<rparr>"
  have "s_Idempotency (st_data sample_store) (idem_key (n_TenantID ?v) (n_IdempotencyKey ?v)) = Some (n_ID ?v)"
    "Store_Get (n_ID ?v) sample_store = (?v, None)"
    "s_Idempotency (st_data sample_store) (idem_key (n_TenantID ?n) (n_IdempotencyKey ?n)) = None"
    by (simp_all add: sample_store_def Store_Create_def Let_def empty_store_def empty_snapshot_def
        Store_Get_def idem_key_def sample_notification_def)
  from Create_replaces_same_identifier [OF this] show ?thesis by simp
qed

section \<open>Optimistic concurrency\<close>

text \<open>A write request: the clock reading and the answers of the file system, and the notification.\<close>

definition store_get :: "Store \<Rightarrow> string \<rightharpoonup> Notification" where
  "store_get s = s_Notifications (st_data s)"

definition store_upd :: "time \<times> persist_io \<times> Notification \<Rightarrow> int \<Rightarrow> Store \<Rightarrow> Store \<times> go_error option" where
  "store_upd w e s = (case w of (now, io, n) \<Rightarrow> Store_Update now io n e s)"

interpretation store_versioned: versioned store_get n_Version "\<lambda>(now, io, n). n_ID n"
  "\<lambda>e (now, io, n). n_Version n \<noteq> e" store_upd
  by unfold_locales
    (auto simp: store_get_def store_upd_def Store_Update_def split: prod.splits option.splits)

text \<open>\<open>Update\<close> is a compare-and-swap on the version: a missing notification or another stored
  version is refused and nothing changes; otherwise the notification is replaced, one event with its
  status, provider and number of attempts is appended to its timeline, and nothing else changes.\<close>

theorem Update_compare_and_swap:
  "(s_Notifications (st_data s) (n_ID n) = None \<longrightarrow> Store_Update now io n e s = (s, Some ErrNotFound)) \<and>
   (\<forall>old. s_Notifications (st_data s) (n_ID n) = Some old \<and> n_Version old \<noteq> e \<longrightarrow>
      Store_Update now io n e s = (s, Some ''version conflict'')) \<and>
   (\<forall>old. s_Notifications (st_data s) (n_ID n) = Some old \<and> n_Version old = e \<longrightarrow>
      s_Notifications (st_data (fst (Store_Update now io n e s))) = (s_Notifications (st_data s))(n_ID n \<mapsto> n) \<and>
      (\<exists>ev. Timeline (n_ID n) (fst (Store_Update now io n e s)) = Timeline (n_ID n) s @ [ev] \<and>
         ev_Status ev = n_Status n \<and> ev_Provider ev = n_Provider n \<and>
         ev_Sequence ev = int (length (Timeline (n_ID n) s)) + 1 \<and> ev_Metadata ev = [(''attempts'', itoa (n_Attempts n))]) \<and>
      (\<forall>j. j \<noteq> n_ID n \<longrightarrow> Timeline j (fst (Store_Update now io n e s)) = Timeline j s) \<and>
      Audit (fst (Store_Update now io n e s)) = Audit s)"
  by (auto simp: Store_Update_def Timeline_def Audit_def events_of_update_data events_of_addEvent)

theorem Update_compare_and_swap_witness:
  "Store_Update 9 IoOk (sample_notification\<lparr>n_ID := ''n1''\<rparr>) 7 sample_store = (sample_store, Some ''version conflict'') \<and>
   Store_Update 9 IoOk (sample_notification\<lparr>n_ID := ''n2''\<rparr>) 7 sample_store = (sample_store, Some ErrNotFound)"
proof -
  let ?v = "sample_notification\<lparr>n_ID := ''n1'', n_Status := StatusQueued, n_Version := 1\<rparr>"
  have "s_Notifications (st_data sample_store) = [''n1'' \<mapsto> ?v]"
    by (simp add: sample_store_def Store_Create_def Let_def empty_store_def empty_snapshot_def)
  then show ?thesis
    using Update_compare_and_swap [of sample_store "sample_notification\<lparr>n_ID := ''n1''\<rparr>" 9 IoOk 7]
      Update_compare_and_swap [of sample_store "sample_notification\<lparr>n_ID := ''n2''\<rparr>" 9 IoOk 7]
    by simp
qed

text \<open>C35: Of any number of workers and requests that all read the same version of a notification and then update it in some order, the first whose
  update goes through with another version than the one it read is the last: every later one is refused.  (An update that keeps the version, as a
  transition to the same status does, excludes nobody.)\<close>

theorem no_lost_update:
  assumes "\<forall>w \<in> set ws. n_ID (snd (snd w)) = nid" "i < j" "j < length ws"
    and "snd (run_writers store_upd e ws s) ! i" "n_Version (snd (snd (ws ! i))) \<noteq> e"
  shows "\<not> snd (run_writers store_upd e ws s) ! j"
  using assms by (intro store_versioned.later_writer_refused [of ws nid i j e s]) (auto split: prod.splits)

theorem no_lost_update_witness:
  "snd (run_writers store_upd 1
     [(3, IoOk, sample_notification\<lparr>n_ID := ''n1'', n_Status := StatusCanceled, n_Version := 2\<rparr>),
      (4, IoOk, sample_notification\<lparr>n_ID := ''n1'', n_Status := StatusProcessing, n_Version := 2\<rparr>)] sample_store) = [True, False]"
proof -
  let ?ws = "[(3, IoOk, sample_notification\<lparr>n_ID := ''n1'', n_Status := StatusCanceled, n_Version := 2\<rparr>),
      (4, IoOk, sample_notification\<lparr>n_ID := ''n1'', n_Status := StatusProcessing, n_Version := 2\<rparr>)]"
  have first: "snd (run_writers store_upd 1 ?ws sample_store) ! 0"
    by (simp add: store_upd_def Store_Update_def sample_store_def Store_Create_def Let_def empty_store_def empty_snapshot_def persistLocked_cases)
  have "\<not> snd (run_writers store_upd 1 ?ws sample_store) ! 1"
    by (rule no_lost_update [of ?ws "''n1''" 0 1, OF _ _ _ first]) simp_all
  then show ?thesis using first by (simp add: Let_def)
qed

section \<open>Listing\<close>

interpretation created_order: weak_order created_after
  by unfold_locales (auto simp: created_after_def)

text \<open>C36: For a non-negative offset \<open>List\<close> returns the page at that offset of one list, which holds
  exactly the notifications of the tenant (all notifications for the empty tenant), newest first; a
  limit that is not positive means no limit.  A negative offset is a run-time panic.\<close>

theorem List_pages:
  assumes "iteration_order (s_Notifications (st_data s)) ks"
  shows "\<exists>full. sorted_by created_after full \<and>
    set full = {n. n \<in> ran (s_Notifications (st_data s)) \<and> (tenant = [] \<or> n_TenantID n = tenant)} \<and>
    (\<forall>limit offset. Store_List ks tenant limit offset s =
       (if offset < 0 then None
        else if limit > 0 then Some (take (nat limit) (drop (nat offset) full))
        else Some (drop (nat offset) full)))"
proof -
  let ?out = "filter (\<lambda>n. tenant = [] \<or> n_TenantID n = tenant) (map_values (s_Notifications (st_data s)) ks)"
  let ?full = "sort_Slice created_after ?out"
  have "sorted_by created_after ?full" by (rule created_order.sort_Slice_sorted)
  moreover have "set ?full = {n. n \<in> ran (s_Notifications (st_data s)) \<and> (tenant = [] \<or> n_TenantID n = tenant)}"
    using set_map_values_order [OF assms] by auto
  moreover have "Store_List ks tenant limit offset s =
       (if offset < 0 then None
        else if limit > 0 then Some (take (nat limit) (drop (nat offset) ?full))
        else Some (drop (nat offset) ?full))" for limit offset
    by (auto simp: Store_List_def Let_def)
  ultimately show ?thesis by blast
qed

theorem List_pages_witness:
  "\<exists>full. sorted_by created_after full \<and> Store_List [''n1''] ''acme'' 0 0 sample_store = Some full \<and>
     Store_List [''n1''] ''acme'' 10 (- 1) sample_store = None"
proof -
  have "iteration_order (s_Notifications (st_data sample_store)) [''n1'']"
    by (simp add: iteration_order_def sample_store_def Store_Create_def Let_def empty_store_def empty_snapshot_def)
  from List_pages [OF this, of "''acme''"] obtain full where f: "sorted_by created_after full"
    "\<forall>limit offset. Store_List [''n1''] ''acme'' limit offset sample_store =
       (if offset < 0 then None
        else if limit > 0 then Some (take (nat limit) (drop (nat offset) full))
        else Some (drop (nat offset) full))" by blast
  then show ?thesis by (intro exI [of _ full]) simp
qed

section \<open>Receipts are recorded once\<close>

lemma RecordReceipt_recorded:
  "snd (RecordReceipt now io key ev s) \<Longrightarrow> s_Receipts (st_data (fst (RecordReceipt now io key ev s))) key = Some True"
  by (auto simp: RecordReceipt_def)

text \<open>A receipt key that has been recorded is refused ever after, whatever happens in between, and
  the refused receipt changes nothing.\<close>

theorem RecordReceipt_at_most_once:
  assumes "RecordReceipt now io key ev s = (s1, True)" "store_step\<^sup>*\<^sup>* s1 s2"
  shows "RecordReceipt now' io' key ev' s2 = (s2, False)"
proof -
  have "s_Receipts (st_data s1) key = Some True" using RecordReceipt_recorded [of now io key ev s] assms(1) by simp
  then have "s_Receipts (st_data s2) key = Some True"
    using store_steps_history [OF assms(2)] by (simp add: extends_history_def)
  then show ?thesis by (simp add: RecordReceipt_def)
qed

definition sample_event :: TimelineEvent where
  "sample_event = \<lparr>ev_ID = ''p:x:1'', ev_NotificationID = ''n1'', ev_Status = StatusDelivered, ev_Provider = ''p'',
     ev_Sequence = 1, ev_OccurredAt = 4, ev_Metadata = []\<rparr>"

theorem RecordReceipt_at_most_once_witness:
  "snd (RecordReceipt 5 IoOk ''p:x:1'' sample_event sample_store) \<and>
   RecordReceipt 6 IoOk ''p:x:1'' sample_event (fst (RecordReceipt 5 IoOk ''p:x:1'' sample_event sample_store)) =
     (fst (RecordReceipt 5 IoOk ''p:x:1'' sample_event sample_store), False)"
proof -
  have ok: "RecordReceipt 5 IoOk ''p:x:1'' sample_event sample_store =
      (fst (RecordReceipt 5 IoOk ''p:x:1'' sample_event sample_store), True)"
    by (simp add: RecordReceipt_def sample_store_def Store_Create_def Let_def empty_store_def empty_snapshot_def)
  show ?thesis using RecordReceipt_at_most_once [OF ok rtranclp.rtrancl_refl] ok by (metis snd_conv)
qed

section \<open>Numbers in identifiers\<close>

lemma itoa_inj: "0 \<le> m \<Longrightarrow> 0 \<le> n \<Longrightarrow> itoa m = itoa n \<Longrightarrow> m = n"
proof -
  have val: "dec_val (itoa n) 0 = n" if "0 \<le> n" for n
    using that dec_val_prepend_digits [of n "[]"] by (simp add: itoa_def)
  show "0 \<le> m \<Longrightarrow> 0 \<le> n \<Longrightarrow> itoa m = itoa n \<Longrightarrow> m = n" using val by metis
qed

section \<open>Two processes on one file\<close>

text \<open>
  Two processes that have opened the same file keep a snapshot each.  When the first creates a notification and the second then saves
  a change of its own, the file no longer has the created notification: whoever opens it next does not know it.
\<close>

lemma shared_file_loses_created:
  assumes "Open None disk path = Opened a" "Open None disk path = Opened b"
    and "s_Notifications (st_data a) (n_ID n) = None" "Store_Create t1 t2 IoOk n a = (a', n, True, None)"
    and "n_ID m \<noteq> n_ID n" "Store_Update now IoOk m e (b\<lparr>st_disk := st_disk a'\<rparr>) = (b', None)"
  shows "Open None (st_disk a') path = Opened a' \<and> s_Notifications (st_data a') (n_ID n) = Some n \<and>
    Open None (st_disk b') path = Opened b' \<and> s_Notifications (st_data b') (n_ID n) = None"
proof -
  have p: "a = b" "st_path a = path" using assms(1,2) by (auto simp: Open_def Let_def split: stored_file.splits)
  have A: "a' = fst (persistLocked IoOk (upd_data (create_data t1 t2 n) a))"
    using assms(4) by (auto simp: Store_Create_def Let_def split: option.splits)
  have B: "b' = fst (persistLocked IoOk (upd_data (update_data now m) (b\<lparr>st_disk := st_disk a'\<rparr>)))"
    using assms(6) by (auto simp: Store_Update_def split: option.splits if_splits)
  have "Open None (st_disk a') path = Opened a'" "Open None (st_disk b') path = Opened b'"
    using p unfolding A B by (simp_all add: persistLocked_cases Open_Encoded)
  then show ?thesis using assms(3,5) p(1) by (simp add: A B)
qed

end
