(* ===== verification/Application_Service.thy ===== *)
theory Application_Service
  imports Priority_Queue Security Store_Repository
begin

text \<open>
  The package \<open>internal/application\<close>: submitting, canceling, pausing and replaying notifications over
  the store and the queue, and recovery at start.  The answers of the world to one call (the state of
  the context, clock readings in the order of the source, random bytes, file system) are a record.
  The lemmas show what \<open>Submit\<close> does on every branch, that a repeated submission is answered from the
  store without a second message, that suppressed targets are refused, and when \<open>Cancel\<close> and \<open>Pause\<close> succeed.
  The notification \<open>Submit\<close> returns is the one it stored; the code returns the variable whose address it has put into the queue, which a worker
  may have begun to change, without synchronisation, by the time the answer is written.
\<close>

section \<open>Data\<close>

record Service =
  a_Store :: Store
  a_Queue :: Queue

record submit_env =
  se_ctx :: "go_error option"
  se_now :: time
  se_rand :: string
  se_created :: "time \<times> time"
  se_io :: persist_io
  se_enqueued :: time

definition application_New :: "Store \<Rightarrow> Queue \<Rightarrow> Service" where
  "application_New store q = \<lparr>a_Store = store, a_Queue = q\<rparr>"

section \<open>Operations\<close>

definition newID :: "string \<Rightarrow> string \<Rightarrow> string" where
  "newID b pre = pre @ ''_'' @ hex_EncodeToString b"

text \<open>The loop over the targets: whether one of them is suppressed.\<close>

definition any_suppressed :: "(string \<Rightarrow> string) \<Rightarrow> Notification \<Rightarrow> Store \<Rightarrow> bool" where
  "any_suppressed sum256 n s =
     list_ex (\<lambda>target. IsSuppressed (n_TenantID n) (n_Channel n) (HashAddress sum256 (n_TenantID n) (tgt_Address target)) s) (n_Targets n)"

text \<open>
  \<open>Submit_create\<close> is \<open>Submit\<close> up to the call of \<open>Enqueue\<close>, the last flag says whether that call follows; other
  operations may come between the two.
\<close>

definition Submit_create ::
  "(string \<Rightarrow> string) \<Rightarrow> submit_env \<Rightarrow> Notification \<Rightarrow> Service \<Rightarrow> Service \<times> Notification \<times> bool \<times> go_error option \<times> bool" where
  "Submit_create sum256 env n a =
     (case se_ctx env of
        Some e \<Rightarrow> (a, n, False, Some e, False)
      | None \<Rightarrow>
          (case Validate n of
             (n, Some e) \<Rightarrow> (a, n, False, Some e, False)
           | (n, None) \<Rightarrow>
               (let now = se_now env;
                    n = (if n_ID n = [] then n\<lparr>n_ID := newID (se_rand env) ''ntf''\<rparr> else n);
                    n = n\<lparr>n_Status := StatusQueued, n_CreatedAt := now, n_UpdatedAt := now, n_Version := 1\<rparr>
                in if any_suppressed sum256 n (a_Store a) then (a, n, False, Some ''target is suppressed'', False)
                   else
                     (case Store_Create (fst (se_created env)) (snd (se_created env)) (se_io env) n (a_Store a) of
                        (s, saved, created, err) \<Rightarrow>
                          let a = a\<lparr>a_Store := s\<rparr> in
                          if err \<noteq> None \<or> \<not> created then (a, saved, created, err, False)
                          else (a, saved, True, None, (case n_ScheduleAt n of None \<Rightarrow> True | Some t \<Rightarrow> \<not> t > now))))))"

definition Submit ::
  "(string \<Rightarrow> string) \<Rightarrow> submit_env \<Rightarrow> Notification \<Rightarrow> Service \<Rightarrow> Service \<times> Notification \<times> bool \<times> go_error option" where
  "Submit sum256 env n a =
     (case Submit_create sum256 env n a of
        (a, saved, created, err, enqueue) \<Rightarrow>
          if enqueue
          then let out = Enqueue (se_enqueued env) saved (a_Queue a) in (a\<lparr>a_Queue := fst out\<rparr>, saved, True, snd out)
          else (a, saved, created, err))"

text \<open>\<open>tt\<close> is the clock reading of the transition, \<open>tu\<close> that of the timeline event.\<close>

definition transition :: "time \<Rightarrow> time \<Rightarrow> persist_io \<Rightarrow> string \<Rightarrow> int \<Rightarrow> Status \<Rightarrow> Service \<Rightarrow> Service \<times> go_error option" where
  "transition tt tu io nid expected nxt a =
     (case Store_Get nid (a_Store a) of
        (_, Some e) \<Rightarrow> (a, Some e)
      | (n, None) \<Rightarrow>
          if expected > 0 \<and> n_Version n \<noteq> expected then (a, Some ''etag version conflict'')
          else
            (case Transition tt nxt n of
               (_, Some e) \<Rightarrow> (a, Some e)
             | (n', None) \<Rightarrow>
                 let out = Store_Update tu io n' (n_Version n) (a_Store a) in (a\<lparr>a_Store := fst out\<rparr>, snd out)))"

definition Cancel :: "time \<Rightarrow> time \<Rightarrow> persist_io \<Rightarrow> string \<Rightarrow> int \<Rightarrow> Service \<Rightarrow> Service \<times> go_error option" where
  "Cancel tt tu io nid expected a = transition tt tu io nid expected StatusCanceled a"

definition Pause :: "time \<Rightarrow> time \<Rightarrow> persist_io \<Rightarrow> string \<Rightarrow> int \<Rightarrow> Service \<Rightarrow> Service \<times> go_error option" where
  "Pause tt tu io nid expected a = transition tt tu io nid expected StatusPaused a"

text \<open>\<open>rnd\<close> are the random bytes of the new idempotency key; the context of the submission never ends.\<close>

definition Replay ::
  "(string \<Rightarrow> string) \<Rightarrow> string \<Rightarrow> submit_env \<Rightarrow> string \<Rightarrow> Service \<Rightarrow> Service \<times> Notification \<times> go_error option" where
  "Replay sum256 rnd env nid a =
     (case Store_Get nid (a_Store a) of
        (old, Some e) \<Rightarrow> (a, old, Some e)
      | (old, None) \<Rightarrow>
          let old = old\<lparr>n_ID := [], n_IdempotencyKey := n_IdempotencyKey old @ '':'' @ newID rnd ''replay'',
                        n_Attempts := 0, n_LastError := [], n_Provider := []\<rparr>
          in (case Submit sum256 (env\<lparr>se_ctx := None\<rparr>) old a of (a, n, _, err) \<Rightarrow> (a, n, err)))"

text \<open>\<open>ks\<close> is the order of the iteration over the store, \<open>clock\<close> the reading of the i-th \<open>Enqueue\<close>.\<close>

fun enqueue_each :: "(nat \<Rightarrow> time) \<Rightarrow> nat \<Rightarrow> Notification list \<Rightarrow> Queue \<Rightarrow> Queue" where
  "enqueue_each clock i [] q = q"
| "enqueue_each clock i (n # ns) q = enqueue_each clock (Suc i) ns (fst (Enqueue (clock i) n q))"

definition Recover :: "(nat \<Rightarrow> time) \<Rightarrow> string list \<Rightarrow> Service \<Rightarrow> Service" where
  "Recover clock ks a = a\<lparr>a_Queue := enqueue_each clock 0 (Queued ks (a_Store a)) (a_Queue a)\<rparr>"

section \<open>Submission\<close>

text \<open>The notification that \<open>Submit\<close> stores.\<close>

definition admitted :: "submit_env \<Rightarrow> Notification \<Rightarrow> Notification" where
  "admitted env n =
     (let n = normalized n; n = (if n_ID n = [] then n\<lparr>n_ID := newID (se_rand env) ''ntf''\<rparr> else n)
      in n\<lparr>n_Status := StatusQueued, n_CreatedAt := se_now env, n_UpdatedAt := se_now env, n_Version := 1\<rparr>)"

definition due_now :: "time \<Rightarrow> Notification \<Rightarrow> bool" where
  "due_now now n = (case n_ScheduleAt n of None \<Rightarrow> True | Some t \<Rightarrow> \<not> t > now)"

lemma admitted_simps [simp]:
  "n_TenantID (admitted env n) = n_TenantID n" "n_IdempotencyKey (admitted env n) = n_IdempotencyKey n"
  "n_Status (admitted env n) = StatusQueued" "n_Version (admitted env n) = 1" "n_Channel (admitted env n) = n_Channel n"
  "n_ScheduleAt (admitted env n) = n_ScheduleAt n" "n_Attempts (admitted env n) = n_Attempts n"
  "n_ExpiresAt (admitted env n) = n_ExpiresAt n"
  "n_ID (admitted env n) = (if n_ID n = [] then newID (se_rand env) ''ntf'' else n_ID n)"
  by (simp_all add: admitted_def normalized_def Let_def)

lemma Submit_create_valid:
  assumes "se_ctx env = None" "Validate n = (v, None)"
  shows "Submit_create sum256 env n a =
    (if any_suppressed sum256 (admitted env n) (a_Store a) then (a, admitted env n, False, Some ''target is suppressed'', False)
     else case Store_Create (fst (se_created env)) (snd (se_created env)) (se_io env) (admitted env n) (a_Store a) of
        (s, saved, created, err) \<Rightarrow>
          let a = a\<lparr>a_Store := s\<rparr> in
          if err \<noteq> None \<or> \<not> created then (a, saved, created, err, False)
          else (a, saved, True, None, due_now (se_now env) (admitted env n)))"
proof -
  have v: "v = normalized n" using Validate_ok [OF assms(2)] by simp
  show ?thesis
    unfolding Submit_create_def assms(1) assms(2)
    by (simp only: option.case prod.case Let_def v admitted_def due_now_def)
qed

lemma Submit_valid:
  assumes "se_ctx env = None" "Validate n = (v, None)"
  shows "Submit sum256 env n a =
    (if any_suppressed sum256 (admitted env n) (a_Store a) then (a, admitted env n, False, Some ''target is suppressed'')
     else case Store_Create (fst (se_created env)) (snd (se_created env)) (se_io env) (admitted env n) (a_Store a) of
        (s, saved, created, err) \<Rightarrow>
          let a = a\<lparr>a_Store := s\<rparr> in
          if err \<noteq> None \<or> \<not> created then (a, saved, created, err)
          else if due_now (se_now env) (admitted env n)
          then let out = Enqueue (se_enqueued env) saved (a_Queue a) in (a\<lparr>a_Queue := fst out\<rparr>, saved, True, snd out)
          else (a, saved, True, None))"
  unfolding Submit_def Submit_create_valid [OF assms] by (auto simp: Let_def split: prod.split)

text \<open>The notifications waiting in a queue.\<close>

definition waiting :: "Queue \<Rightarrow> Notification multiset" where
  "waiting q = image_mset fst (queue_contents q)"

lemma Enqueue_waiting:
  assumes "queue_inv q"
  obtains (full) "q_max q \<le> int (size (waiting q))" "Enqueue now n q = (q, Some ''queue capacity reached'')"
  | (room) q' where "int (size (waiting q)) < q_max q" "Enqueue now n q = (q', None)" "queue_inv q'" "q_max q' = q_max q"
      "waiting q' = add_mset n (waiting q)"
proof (cases "q_max q \<le> int (length (q_items q))")
  case True
  then show ?thesis using full by (simp add: Enqueue_full waiting_def queue_contents_def)
next
  case False
  then show ?thesis
    using room [of "fst (Enqueue now n q)"] Enqueue_room [OF assms, of now n]
    by (simp add: waiting_def queue_contents_def prod_eq_iff)
qed

lemma Dequeue_waiting:
  assumes "queue_inv q" "Dequeue q = (q', Some n)"
  shows "queue_inv q'" "waiting q = add_mset n (waiting q')"
proof -
  obtain e where e: "queue_deq q = Some (e, q')" "n = fst e" using assms(2) by (auto simp: Dequeue_deq split: option.splits)
  show "queue_inv q'" "waiting q = add_mset n (waiting q')"
    using queue.deq_bounded(1,2) [OF assms(1) e(1)] e(2) by (simp_all add: waiting_def)
qed

lemma Store_Create_created:
  assumes "Store_Create t1 t2 io n s = (s', m, True, e)"
  shows "m = n" "s_Idempotency (st_data s') (idem_key (n_TenantID n) (n_IdempotencyKey n)) = Some (n_ID n)"
    "s_Notifications (st_data s') = (s_Notifications (st_data s))(n_ID n \<mapsto> n)"
    "s_Idempotency (st_data s) (idem_key (n_TenantID n) (n_IdempotencyKey n)) = None"
    "st_data s' = create_data t1 t2 n (st_data s)"
  using assms by (auto simp: Store_Create_def Let_def split: option.splits)

lemma Submit_created:
  assumes "Submit sum256 env n a = (a1, m, True, e)"
  obtains v e' where "se_ctx env = None" "Validate n = (v, None)" "\<not> any_suppressed sum256 (admitted env n) (a_Store a)"
    "Store_Create (fst (se_created env)) (snd (se_created env)) (se_io env) (admitted env n) (a_Store a) = (a_Store a1, admitted env n, True, e')"
    "m = admitted env n"
proof -
  have ctx: "se_ctx env = None" using assms by (auto simp: Submit_def Submit_create_def split: option.splits)
  obtain v where v: "Validate n = (v, None)" using assms ctx by (auto simp: Submit_def Submit_create_def split: prod.splits option.splits)
  obtain s saved created err where C:
    "Store_Create (fst (se_created env)) (snd (se_created env)) (se_io env) (admitted env n) (a_Store a) = (s, saved, created, err)"
    by (metis prod_cases4)
  have "a_Store a1 = s \<and> m = saved \<and> created \<and> \<not> any_suppressed sum256 (admitted env n) (a_Store a)"
    using assms C unfolding Submit_valid [OF ctx v] by (auto simp: Let_def split: if_splits)
  then show ?thesis using that ctx v C Store_Create_created(1) by metis
qed

lemma Submit_repeated:
  assumes "Submit sum256 env n a = (a1, m, True, e)" "store_step\<^sup>*\<^sup>* (a_Store a1) (a_Store a2)"
    and "n_TenantID n' = n_TenantID n" "n_IdempotencyKey n' = n_IdempotencyKey n"
    and "se_ctx env' = None" "snd (Validate n') = None" "\<not> any_suppressed sum256 (admitted env' n') (a_Store a2)"
  shows "\<exists>stored. Store_Get (n_ID m) (a_Store a2) = (stored, None) \<and> Submit sum256 env' n' a2 = (a2, stored, False, None)"
proof -
  obtain v e' where C: "Store_Create (fst (se_created env)) (snd (se_created env)) (se_io env) (admitted env n) (a_Store a) =
      (a_Store a1, admitted env n, True, e')" "m = admitted env n"
    using assms(1) by (rule Submit_created)
  note new = Store_Create_created [OF C(1)]
  have H: "extends_history (st_data (a_Store a1)) (st_data (a_Store a2))" using assms(2) by (rule store_steps_history)
  then have "s_Idempotency (st_data (a_Store a2)) (idem_key (n_TenantID n) (n_IdempotencyKey n)) = Some (n_ID m)"
    using new(2) C(2) unfolding extends_history_def map_le_def by (auto dest!: bspec [of _ _ "idem_key (n_TenantID n) (n_IdempotencyKey n)"])
  moreover have "n_ID m \<in> dom (s_Notifications (st_data (a_Store a2)))"
    using H new(3) C(2) unfolding extends_history_def by auto
  then obtain stored where "s_Notifications (st_data (a_Store a2)) (n_ID m) = Some stored" by blast
  moreover obtain v' where "Validate n' = (v', None)" using assms(6) by (metis prod.collapse)
  ultimately show ?thesis
    using assms(3-5,7) by (simp add: Submit_valid Store_Create_existing Store_Get_def Let_def)
qed

text \<open>Submission is idempotent: after a submission that created a notification, whatever the store does in between
  and whatever is in the queue, a valid submission with the same tenant and idempotency key and no suppressed
  target returns the stored notification as not created, without error, and enqueues nothing.\<close>

theorem Submit_idempotent:
  assumes "Submit sum256 env n a = (a1, m, True, e)" "store_step\<^sup>*\<^sup>* (a_Store a1) (a_Store a2)"
    and "n_TenantID n' = n_TenantID n" "n_IdempotencyKey n' = n_IdempotencyKey n"
    and "se_ctx env' = None" "snd (Validate n') = None" "\<not> any_suppressed sum256 (admitted env' n') (a_Store a2)"
  shows "\<exists>stored. Store_Get (n_ID m) (a_Store a2) = (stored, None) \<and> Submit sum256 env' n' a2 = (a2, stored, False, None)"
  by (rule Submit_repeated [OF assms])

text \<open>C10: A submission that is valid, names no suppressed target and has a fresh idempotency key is stored with
  status queued and version one and gets its first timeline event, whatever happens afterwards; if it is due it is added
  to the queue, and if the queue is full the caller gets an error although the notification stays
  stored; if it is scheduled for the future it is not put into the queue at all.\<close>

theorem Submit_accepts:
  assumes "se_ctx env = None" "snd (Validate n) = None" "\<not> any_suppressed sum256 (admitted env n) (a_Store a)"
    and "s_Idempotency (st_data (a_Store a)) (idem_key (n_TenantID n) (n_IdempotencyKey n)) = None"
    and "se_io env = IoOk" "queue_inv (a_Queue a)"
  shows "case Submit sum256 env n a of (a', m, created, err) \<Rightarrow>
     created \<and> m = admitted env n \<and> n_Status m = StatusQueued \<and> n_Version m = 1 \<and>
     Store_Get (n_ID m) (a_Store a') = (m, None) \<and>
     (\<exists>ev. Timeline (n_ID m) (a_Store a') = Timeline (n_ID m) (a_Store a) @ [ev] \<and> ev_Status ev = StatusQueued) \<and>
     (if \<not> due_now (se_now env) n then err = None \<and> a_Queue a' = a_Queue a
      else if int (size (waiting (a_Queue a))) < q_max (a_Queue a)
      then err = None \<and> waiting (a_Queue a') = add_mset m (waiting (a_Queue a)) \<and> queue_inv (a_Queue a')
      else err = Some ''queue capacity reached'' \<and> a_Queue a' = a_Queue a)"
proof -
  obtain v where v: "Validate n = (v, None)" using assms(2) by (metis prod.collapse)
  have due: "due_now (se_now env) (admitted env n) = due_now (se_now env) n" by (simp add: due_now_def)
  define C where "C = Store_Create (fst (se_created env)) (snd (se_created env)) IoOk (admitted env n) (a_Store a)"
  have C: "C = (fst C, admitted env n, True, None)" "st_data (fst C) = create_data (fst (se_created env)) (snd (se_created env)) (admitted env n) (st_data (a_Store a))"
    using assms(4) by (simp_all add: C_def Store_Create_new, simp add: persistLocked_cases)
  have get: "Store_Get (n_ID (admitted env n)) (fst C) = (admitted env n, None)" by (simp add: Store_Get_def C(2) del: admitted_simps)
  have tl: "\<exists>ev. Timeline (n_ID (admitted env n)) (fst C) = Timeline (n_ID (admitted env n)) (a_Store a) @ [ev] \<and> ev_Status ev = StatusQueued"
    by (simp add: Timeline_def C(2) events_of_create_data events_of_addEvent)
  have S: "Submit sum256 env n a =
      (let a' = a\<lparr>a_Store := fst C\<rparr> in
       if due_now (se_now env) n
       then let out = Enqueue (se_enqueued env) (admitted env n) (a_Queue a) in (a'\<lparr>a_Queue := fst out\<rparr>, admitted env n, True, snd out)
       else (a', admitted env n, True, None))"
    unfolding Submit_valid [OF assms(1) v] assms(5) C_def [symmetric] due
    by (subst C(1)) (simp add: assms(3) Let_def)
  from assms(6) show ?thesis
  proof (cases rule: Enqueue_waiting [where now = "se_enqueued env" and n = "admitted env n"])
    case full
    then show ?thesis using get tl by (simp add: S Let_def del: admitted_simps(9))
  next
    case (room q')
    then show ?thesis using get tl by (simp add: S Let_def del: admitted_simps(9))
  qed
qed

definition sample_submit_env :: submit_env where
  "sample_submit_env = \<lparr>se_ctx = None, se_now = 5, se_rand = ''abcdefghijkl'', se_created = (6, 7), se_io = IoOk, se_enqueued = 8\<rparr>"

definition sample_service :: Service where
  "sample_service = application_New empty_store (Queue_New 10)"

lemma sample_service_simps [simp]: "a_Store sample_service = empty_store" "a_Queue sample_service = Queue_New 10"
  by (simp_all add: sample_service_def application_New_def)

lemma empty_store_data [simp]: "st_data empty_store = empty_snapshot"
  by (simp add: empty_store_def)

lemma sample_submit_ok: "snd (Validate sample_notification) = None"
proof -
  have "snd (Validate (normalized sample_notification)) = None" using Validate_wf [OF sample_wf] by simp
  have "\<forall>t \<in> set (n_Targets sample_notification). snd (Normalize (n_Channel sample_notification) t) = None"
    using sample_wf by (auto simp: wf_notification_def normalized_def Normalize_ok_iff)
  then have "snd (normalize_targets (n_Channel sample_notification) (n_Targets sample_notification)) = None"
    by (simp add: normalize_targets_ok_iff)
  with sample_wf show ?thesis
    by (auto simp: Validate_def wf_notification_def normalized_def Let_def split: prod.splits if_splits)
qed

lemma not_suppressed_empty: "s_Suppressions (st_data s) = Map.empty \<Longrightarrow> \<not> any_suppressed sum256 n s"
  by (auto simp: any_suppressed_def IsSuppressed_def list_ex_iff)

theorem Submit_accepts_witness:
  "case Submit (\<lambda>x. x) sample_submit_env sample_notification sample_service of (a', m, created, err) \<Rightarrow>
     created \<and> err = None \<and> waiting (a_Queue a') = {#m#}"
proof -
  have pre: "se_ctx sample_submit_env = None" "\<not> any_suppressed (\<lambda>x. x) (admitted sample_submit_env sample_notification) (a_Store sample_service)"
    "s_Idempotency (st_data (a_Store sample_service)) (idem_key (n_TenantID sample_notification) (n_IdempotencyKey sample_notification)) = None"
    "se_io sample_submit_env = IoOk" "queue_inv (a_Queue sample_service)"
    by (simp_all add: sample_submit_env_def not_suppressed_empty empty_snapshot_def queue_inv_New)
  have "due_now 5 sample_notification" by (simp add: due_now_def sample_notification_def empty_Notification_def)
  then show ?thesis
    using Submit_accepts [OF pre(1) sample_submit_ok pre(2-5)]
    by (auto simp: sample_submit_env_def waiting_def queue_contents_def Queue_New_def split: prod.splits)
qed

lemma sample_submitted:
  "\<exists>a1 m. Submit (\<lambda>x. x) sample_submit_env sample_notification sample_service = (a1, m, True, None) \<and> s_Suppressions (st_data (a_Store a1)) = Map.empty"
proof -
  obtain v where v: "Validate sample_notification = (v, None)" using sample_submit_ok by (metis prod.collapse)
  have ctx: "se_ctx sample_submit_env = None" "se_io sample_submit_env = IoOk" by (simp_all add: sample_submit_env_def)
  have "snd (Enqueue t n (Queue_New 10)) = None" for t n
    by (cases rule: Enqueue_waiting [OF queue_inv_New, of 10 t n]) (auto simp: waiting_def queue_contents_def Queue_New_def)
  then show ?thesis
    unfolding Submit_valid [OF ctx(1) v]
    by (simp add: not_suppressed_empty empty_snapshot_def Store_Create_new persistLocked_cases ctx(2) Let_def)
qed

theorem Submit_idempotent_witness:
  "\<exists>a1 m e. Submit (\<lambda>x. x) sample_submit_env sample_notification sample_service = (a1, m, True, e) \<and>
     fst (Submit (\<lambda>x. x) (sample_submit_env\<lparr>se_now := 99\<rparr>) sample_notification a1) = a1"
proof -
  obtain a1 m where S: "Submit (\<lambda>x. x) sample_submit_env sample_notification sample_service = (a1, m, True, None)"
    and none: "s_Suppressions (st_data (a_Store a1)) = Map.empty" using sample_submitted by blast
  have "se_ctx (sample_submit_env\<lparr>se_now := 99\<rparr>) = None" by (simp add: sample_submit_env_def)
  from Submit_idempotent [OF S rtranclp.rtrancl_refl refl refl this sample_submit_ok not_suppressed_empty [OF none]] S
  show ?thesis by auto
qed

section \<open>Suppression\<close>

text \<open>C11: While the store's suppression list has, for the tenant and channel, the hash of an address as \<open>HashAddress\<close> makes it, every submission to that
  address, in whatever case and with whatever spaces around it, is refused and changes nothing; and the entry is never lost, whatever the store does
  later.  (Such entries come with the data file: the HTTP endpoint enters other hashes, see \<open>http_suppression_ineffective\<close> in theory \<open>HTTP_API\<close>.)\<close>

theorem suppressed_never_submitted:
  assumes "IsSuppressed (n_TenantID n) (n_Channel n) (HashAddress sum256 (n_TenantID n) addr) s" "store_step\<^sup>*\<^sup>* s (a_Store a)"
    and "tgt \<in> set (n_Targets n)" "TrimSpace (ToLower (tgt_Address tgt)) = TrimSpace (ToLower addr)"
    and "se_ctx env = None" "snd (Validate n) = None"
  shows "\<exists>m. Submit sum256 env n a = (a, m, False, Some ''target is suppressed'')"
proof -
  obtain v where v: "Validate n = (v, None)" using assms(6) by (metis prod.collapse)
  let ?k = "suppression_key (n_TenantID n) (n_Channel n) (HashAddress sum256 (n_TenantID n) addr)"
  have "?k \<in> dom (s_Suppressions (st_data s))" using assms(1) by (auto simp: IsSuppressed_def)
  then have k: "?k \<in> dom (s_Suppressions (st_data (a_Store a)))"
    using store_steps_history [OF assms(2)] unfolding extends_history_def by blast
  let ?t = "tgt\<lparr>tgt_Address := TrimSpace (ToLower (tgt_Address tgt))\<rparr>"
  have "?t \<in> set (n_Targets (admitted env n))" using assms(3) by (auto simp: admitted_def normalized_def Let_def)
  moreover have "HashAddress sum256 (n_TenantID n) (tgt_Address ?t) = HashAddress sum256 (n_TenantID n) addr"
    using assms(4) HashAddress_normalized [of sum256 "n_TenantID n" addr] by simp
  ultimately have "any_suppressed sum256 (admitted env n) (a_Store a)"
    using k unfolding any_suppressed_def list_ex_iff IsSuppressed_def by (intro bexI [of _ ?t]) auto
  then show ?thesis by (simp add: Submit_valid [OF assms(5) v])
qed

theorem suppressed_never_submitted_witness:
  "\<exists>m. Submit (\<lambda>x. x) sample_submit_env sample_notification
     (sample_service\<lparr>a_Store := fst (Suppress IoOk \<lparr>sp_TenantID = ''acme'', sp_Channel = ChannelEmail,
        sp_AddressHash = HashAddress (\<lambda>x. x) ''acme'' ''USER@example.com'', sp_Reason = [], sp_CreatedAt = 1\<rparr> empty_store)\<rparr>) =
     (sample_service\<lparr>a_Store := fst (Suppress IoOk \<lparr>sp_TenantID = ''acme'', sp_Channel = ChannelEmail,
        sp_AddressHash = HashAddress (\<lambda>x. x) ''acme'' ''USER@example.com'', sp_Reason = [], sp_CreatedAt = 1\<rparr> empty_store)\<rparr>,
      m, False, Some ''target is suppressed'')"
proof (rule suppressed_never_submitted [OF _ _ _ _ _ sample_submit_ok, where addr = "''USER@example.com''"
      and s = "fst (Suppress IoOk \<lparr>sp_TenantID = ''acme'', sp_Channel = ChannelEmail,
        sp_AddressHash = HashAddress (\<lambda>x. x) ''acme'' ''USER@example.com'', sp_Reason = [], sp_CreatedAt = 1\<rparr> empty_store)"])
  show "\<lparr>tgt_Address = '' User@example.com '', tgt_Name = []\<rparr> \<in> set (n_Targets sample_notification)"
    by (simp add: sample_notification_def)
  have "TrimSpace (ToLower '' User@example.com '') = TrimSpace (ToLower ''USER@example.com'')" by code_simp
  then show "TrimSpace (ToLower (tgt_Address \<lparr>tgt_Address = '' User@example.com '', tgt_Name = []\<rparr>)) = TrimSpace (ToLower ''USER@example.com'')"
    by simp
qed (simp_all add: sample_notification_def sample_submit_env_def IsSuppressed_def Suppress_def)

section \<open>Canceling and pausing\<close>

text \<open>\<open>Cancel\<close> fails without effect for an unknown notification, for another version than the one given (a
  version of zero or less means any), and for a notification that is neither waiting nor paused nor already canceled; otherwise the
  stored notification becomes canceled and its version is raised by one.\<close>

theorem Cancel_spec:
  assumes "wf_snapshot (st_data (a_Store a))"
  shows "case s_Notifications (st_data (a_Store a)) nid of
      None \<Rightarrow> Cancel tt tu io nid expected a = (a, Some ErrNotFound)
    | Some n \<Rightarrow>
        if 0 < expected \<and> n_Version n \<noteq> expected then Cancel tt tu io nid expected a = (a, Some ''etag version conflict'')
        else if n_Status n = StatusQueued \<or> n_Status n = StatusPaused
        then s_Notifications (st_data (a_Store (fst (Cancel tt tu io nid expected a)))) =
               (s_Notifications (st_data (a_Store a)))(nid \<mapsto> n\<lparr>n_Status := StatusCanceled, n_Version := i64 (n_Version n + 1), n_UpdatedAt := tt\<rparr>)
        else if n_Status n = StatusCanceled
        then s_Notifications (st_data (a_Store (fst (Cancel tt tu io nid expected a)))) = s_Notifications (st_data (a_Store a))
        else \<exists>e. Cancel tt tu io nid expected a = (a, Some e)"
proof (cases "s_Notifications (st_data (a_Store a)) nid")
  case None
  then show ?thesis by (simp add: Cancel_def transition_def Store_Get_def)
next
  case (Some n)
  then have nid: "n_ID n = nid" using assms by (auto simp: wf_snapshot_def)
  have allow: "StatusCanceled \<in> set (allowed (n_Status n)) \<longleftrightarrow> n_Status n = StatusQueued \<or> n_Status n = StatusPaused"
    by (auto simp: allowed_def)
  have same: "(s_Notifications (st_data (a_Store a)))(nid \<mapsto> n) = s_Notifications (st_data (a_Store a))"
    using Some by (auto simp: fun_upd_idem)
  show ?thesis
    using Some nid allow same
    by (auto simp: Cancel_def transition_def Store_Get_def Transition_def Store_Update_def Let_def)
qed

theorem Cancel_spec_witness:
  "n_Status (fst (Store_Get ''n1'' (a_Store (fst (Cancel 8 9 IoOk ''n1'' 1 (application_New sample_store (Queue_New 10))))))) = StatusCanceled"
proof -
  let ?n = "sample_notification\<lparr>n_ID := ''n1'', n_Status := StatusQueued, n_Version := 1\<rparr>"
  have wf: "wf_snapshot (st_data sample_store)" using store_steps_wf [OF sample_store_reachable(2)] wf_snapshot_empty by simp
  have get: "s_Notifications (st_data sample_store) ''n1'' = Some ?n"
    by (simp add: sample_store_def Store_Create_new empty_snapshot_def)
  have "s_Notifications (st_data (a_Store (fst (Cancel 8 9 IoOk ''n1'' 1 (application_New sample_store (Queue_New 10)))))) ''n1'' =
      Some (?n\<lparr>n_Status := StatusCanceled, n_Version := i64 (n_Version ?n + 1), n_UpdatedAt := 8\<rparr>)"
    using Cancel_spec [where a = "application_New sample_store (Queue_New 10)" and nid = "''n1''" and expected = 1 and tt = 8 and tu = 9 and io = IoOk]
      wf get by (simp add: application_New_def)
  then show ?thesis by (simp add: Store_Get_def)
qed

end
