(* ===== verification/Provider.thy ===== *)
theory Provider
  imports Notification_Domain
begin

text \<open>
  The package \<open>internal/provider\<close>, file \<open>provider.go\<close>: the adapters that hand a notification to the outside.  The
  Go interface \<open>Provider\<close> has two implementations, \<open>Mock\<close> and \<open>HTTP\<close>; the datatype \<open>Provider\<close> is their sum.
  What the world answers is an argument: for the mock, whether the context ends before its delay does; for the HTTP
  adapter, a function from the request to the outcome of \<open>http.NewRequestWithContext\<close> and \<open>Client.Do\<close>.  The locale
  \<open>sender\<close> states what the dispatcher relies on; both adapters satisfy it.
\<close>

section \<open>Data\<close>

record Request =
  rq_Notification :: Notification
  rq_Body :: string
  rq_Subject :: string

record Result =
  res_ExternalID :: string
  res_Status :: Status
  res_Retryable :: bool
  res_ErrorClass :: string
  res_Message :: string

definition empty_Result :: Result where
  "empty_Result = \<lparr>res_ExternalID = [], res_Status = [], res_Retryable = False, res_ErrorClass = [], res_Message = []\<rparr>"

record Mock =
  m_ProviderName :: string
  m_ProviderChannel :: Channel
  m_Calls :: int
  m_Failures :: int
  m_Delay :: duration

record HTTP =
  h_ProviderName :: string
  h_ProviderChannel :: Channel
  h_URL :: string

text \<open>
  The outcome of building and performing an HTTP request: an invalid request, a transport error, or
  a response with its status code, its status line and its \<open>X-Message-ID\<close> header.
\<close>

datatype http_outcome =
    BadRequest go_error
  | TransportError go_error
  | Response int string string

record http_request =
  hr_Method :: string
  hr_URL :: string
  hr_Body :: string
  hr_ContentType :: string

type_synonym http_client = "http_request \<Rightarrow> http_outcome"

text \<open>What the world answers to one call: \<open>ce_Done\<close> is the error of the context if it ends first.\<close>

record call_env =
  ce_Done :: "go_error option"
  ce_Client :: http_client

section \<open>The mock adapter\<close>

definition Mock_Send :: "call_env \<Rightarrow> Request \<Rightarrow> Mock \<Rightarrow> Mock \<times> Result \<times> go_error option" where
  "Mock_Send env r m =
     (let m = m\<lparr>m_Calls := i64 (m_Calls m + 1)\<rparr>; call = m_Calls m in
      case (if m_Delay m > 0 then ce_Done env else None) of
        Some e \<Rightarrow> (m, empty_Result\<lparr>res_Retryable := True, res_ErrorClass := ''timeout''\<rparr>, Some e)
      | None \<Rightarrow>
          if call \<le> m_Failures m
          then (m, empty_Result\<lparr>res_Retryable := True, res_ErrorClass := ''temporary'', res_Message := ''injected failure''\<rparr>,
                Some ''provider temporary failure'')
          else (m, empty_Result\<lparr>res_ExternalID := m_ProviderName m @ ''-'' @ fmt_d call, res_Status := StatusAccepted\<rparr>, None))"

definition Mock_Health :: "call_env \<Rightarrow> Mock \<Rightarrow> go_error option" where
  "Mock_Health env m = None"

section \<open>The HTTP adapter\<close>

definition HTTP_Send :: "call_env \<Rightarrow> Request \<Rightarrow> HTTP \<Rightarrow> HTTP \<times> Result \<times> go_error option" where
  "HTTP_Send env r h =
     (if h_URL h = [] then (h, empty_Result, Some ''provider URL is empty'')
      else case ce_Client env \<lparr>hr_Method = ''POST'', hr_URL = h_URL h, hr_Body = rq_Body r, hr_ContentType = ''application/json''\<rparr> of
        BadRequest e \<Rightarrow> (h, empty_Result, Some e)
      | TransportError e \<Rightarrow> (h, empty_Result\<lparr>res_Retryable := True, res_ErrorClass := ''network''\<rparr>, Some e)
      | Response code line msgid \<Rightarrow>
          if code \<ge> 500
            then (h, empty_Result\<lparr>res_Retryable := True, res_ErrorClass := ''server''\<rparr>, Some (''provider status '' @ fmt_d code))
          else if code \<ge> 400
            then (h, empty_Result\<lparr>res_Retryable := False, res_ErrorClass := ''rejected''\<rparr>, Some (''provider status '' @ fmt_d code))
          else (h, empty_Result\<lparr>res_ExternalID := msgid, res_Status := StatusAccepted\<rparr>, None))"

definition HTTP_Health :: "call_env \<Rightarrow> HTTP \<Rightarrow> go_error option" where
  "HTTP_Health env h =
     (case ce_Client env \<lparr>hr_Method = ''GET'', hr_URL = h_URL h, hr_Body = [], hr_ContentType = []\<rparr> of
        BadRequest e \<Rightarrow> Some e
      | TransportError e \<Rightarrow> Some e
      | Response code line msgid \<Rightarrow> if code \<ge> 500 then Some (''unhealthy: '' @ line) else None)"

section \<open>The interface\<close>

datatype Provider = MockProvider Mock | HTTPProvider HTTP

fun Name :: "Provider \<Rightarrow> string" where
  "Name (MockProvider m) = m_ProviderName m"
| "Name (HTTPProvider h) = h_ProviderName h"

fun Provider_Channel :: "Provider \<Rightarrow> Channel" where
  "Provider_Channel (MockProvider m) = m_ProviderChannel m"
| "Provider_Channel (HTTPProvider h) = h_ProviderChannel h"

fun Send :: "call_env \<Rightarrow> Request \<Rightarrow> Provider \<Rightarrow> Provider \<times> Result \<times> go_error option" where
  "Send env r (MockProvider m) = (let out = Mock_Send env r m in (MockProvider (fst out), snd out))"
| "Send env r (HTTPProvider h) = (let out = HTTP_Send env r h in (HTTPProvider (fst out), snd out))"

fun Health :: "call_env \<Rightarrow> Provider \<Rightarrow> go_error option" where
  "Health env (MockProvider m) = Mock_Health env m"
| "Health env (HTTPProvider h) = HTTP_Health env h"

text \<open>
  What a client of the interface relies on: an adapter keeps its name and channel, reports an
  accepted status exactly when it reports no error, and leaves the external identifier empty when it fails.
\<close>

locale sender =
  fixes name :: "'p \<Rightarrow> string" and channel :: "'p \<Rightarrow> Channel"
    and send :: "call_env \<Rightarrow> Request \<Rightarrow> 'p \<Rightarrow> 'p \<times> Result \<times> go_error option"
  assumes identity_kept: "name (fst (send env r p)) = name p" "channel (fst (send env r p)) = channel p"
    and accepted_iff: "snd (snd (send env r p)) = None \<longleftrightarrow> res_Status (fst (snd (send env r p))) = StatusAccepted"
    and failed_blank: "snd (snd (send env r p)) \<noteq> None \<Longrightarrow>
      res_Status (fst (snd (send env r p))) = [] \<and> res_ExternalID (fst (snd (send env r p))) = []"
begin

text \<open>The status the dispatcher moves the notification to after a send without error.\<close>

lemma next_status:
  "snd (snd (send env r p)) = None \<Longrightarrow>
     (if res_Status (fst (snd (send env r p))) = [] then StatusAccepted else res_Status (fst (snd (send env r p)))) = StatusAccepted"
  using accepted_iff by simp

end

interpretation mock: sender m_ProviderName m_ProviderChannel Mock_Send
  by unfold_locales (auto simp: Mock_Send_def Let_def empty_Result_def split: option.splits if_splits)

interpretation http: sender h_ProviderName h_ProviderChannel HTTP_Send
  by unfold_locales (auto simp: HTTP_Send_def empty_Result_def split: http_outcome.splits if_splits)

interpretation adapter: sender Name Provider_Channel Send
proof
  fix env r p
  show "Name (fst (Send env r p)) = Name p" "Provider_Channel (fst (Send env r p)) = Provider_Channel p"
    by (cases p; simp add: Let_def mock.identity_kept http.identity_kept)+
  show "snd (snd (Send env r p)) = None \<longleftrightarrow> res_Status (fst (snd (Send env r p))) = StatusAccepted"
    by (cases p) (simp_all add: Let_def mock.accepted_iff http.accepted_iff)
  show "snd (snd (Send env r p)) \<noteq> None \<Longrightarrow>
      res_Status (fst (snd (Send env r p))) = [] \<and> res_ExternalID (fst (snd (Send env r p))) = []"
    by (cases p) (simp_all add: Let_def mock.failed_blank http.failed_blank)
qed

section \<open>Properties\<close>

text \<open>An adapter reports the status \<open>accepted\<close> exactly when it reports no error, and a failed call carries
  neither a status nor an external identifier; the HTTP adapter succeeds exactly for a response below 400 to a POST of the body, and marks
  transport and server errors, but not rejections, as retryable; the mock fails its first \<open>Failures\<close>
  calls and then numbers its messages.\<close>

theorem Send_spec:
  "(snd (snd (Send env r p)) = None \<longleftrightarrow> res_Status (fst (snd (Send env r p))) = StatusAccepted) \<and>
   (snd (snd (Send env r p)) \<noteq> None \<longrightarrow> res_Status (fst (snd (Send env r p))) = [] \<and> res_ExternalID (fst (snd (Send env r p))) = []) \<and>
   (\<forall>h. p = HTTPProvider h \<longrightarrow>
      (let out = ce_Client env \<lparr>hr_Method = ''POST'', hr_URL = h_URL h, hr_Body = rq_Body r, hr_ContentType = ''application/json''\<rparr> in
       (snd (snd (Send env r p)) = None \<longleftrightarrow> h_URL h \<noteq> [] \<and> (\<exists>code line mid. out = Response code line mid \<and> code < 400)) \<and>
       (res_Retryable (fst (snd (Send env r p))) \<longleftrightarrow>
          h_URL h \<noteq> [] \<and> ((\<exists>e. out = TransportError e) \<or> (\<exists>code line mid. out = Response code line mid \<and> 500 \<le> code))))) \<and>
   (\<forall>m. p = MockProvider m \<and> m_Delay m \<le> 0 \<longrightarrow>
      (snd (snd (Send env r p)) = None \<longleftrightarrow> m_Failures m < i64 (m_Calls m + 1)) \<and>
      fst (Send env r p) = MockProvider (m\<lparr>m_Calls := i64 (m_Calls m + 1)\<rparr>))"
proof (intro conjI allI impI)
  show "snd (snd (Send env r p)) = None \<longleftrightarrow> res_Status (fst (snd (Send env r p))) = StatusAccepted"
    by (rule adapter.accepted_iff)
  show "snd (snd (Send env r p)) \<noteq> None \<Longrightarrow> res_Status (fst (snd (Send env r p))) = []"
    "snd (snd (Send env r p)) \<noteq> None \<Longrightarrow> res_ExternalID (fst (snd (Send env r p))) = []"
    using adapter.failed_blank by blast+
qed (auto simp: Let_def HTTP_Send_def Mock_Send_def empty_Result_def split: http_outcome.split if_splits)

definition sample_env :: call_env where
  "sample_env = \<lparr>ce_Done = None, ce_Client = (\<lambda>q. if hr_Method q = ''POST'' then Response 503 ''503 busy'' [] else Response 200 ''200 OK'' [])\<rparr>"

definition sample_mock :: Mock where
  "sample_mock = \<lparr>m_ProviderName = ''mock-email'', m_ProviderChannel = ChannelEmail, m_Calls = 0, m_Failures = 0, m_Delay = 0\<rparr>"

definition sample_request :: Request where
  "sample_request = \<lparr>rq_Notification = empty_Notification, rq_Body = ''hi'', rq_Subject = []\<rparr>"

theorem Send_spec_witness:
  "snd (snd (Send sample_env sample_request (MockProvider sample_mock))) = None \<and>
   res_Status (fst (snd (Send sample_env sample_request (MockProvider sample_mock)))) = StatusAccepted \<and>
   res_Retryable (fst (snd (Send sample_env sample_request (HTTPProvider \<lparr>h_ProviderName = ''h'', h_ProviderChannel = ChannelSMS, h_URL = ''u''\<rparr>))))"
proof (intro conjI)
  let ?h = "\<lparr>h_ProviderName = ''h'', h_ProviderChannel = ChannelSMS, h_URL = ''u''\<rparr>"
  have "m_Delay sample_mock \<le> 0" "m_Failures sample_mock < i64 (m_Calls sample_mock + 1)"
    by (simp_all add: sample_mock_def i64_def)
  then show ok: "snd (snd (Send sample_env sample_request (MockProvider sample_mock))) = None"
    using Send_spec [of sample_env sample_request "MockProvider sample_mock"] by blast
  then show "res_Status (fst (snd (Send sample_env sample_request (MockProvider sample_mock)))) = StatusAccepted"
    using Send_spec [of sample_env sample_request "MockProvider sample_mock"] by blast
  have "ce_Client sample_env \<lparr>hr_Method = ''POST'', hr_URL = h_URL ?h, hr_Body = rq_Body sample_request, hr_ContentType = ''application/json''\<rparr> =
      Response 503 ''503 busy'' []" "h_URL ?h \<noteq> []" by (simp_all add: sample_env_def)
  then show "res_Retryable (fst (snd (Send sample_env sample_request (HTTPProvider ?h))))"
    using Send_spec [of sample_env sample_request "HTTPProvider ?h"] by (simp add: Let_def del: Send.simps)
qed

end
