(* ===== verification/Circuit_Router.thy ===== *)
theory Circuit_Router
  imports Provider
begin

text \<open>
  The package \<open>internal/routing\<close>, file \<open>router.go\<close>: the providers of each channel in order of
  preference, each behind a circuit breaker.  A candidate holds a reference to its provider; the
  adapters live in a function \<open>ps\<close> from references to their current state, because sending happens
  outside the router and changes the mock.  Every method runs under the router's mutex.  A loop that
  reads the clock or probes the health of a provider takes the answers by position.  The lemmas show
  which provider \<open>Choose\<close> returns, and the life cycle of a circuit: it opens after three consecutive
  failures, an open circuit is not used before its cooldown is over, and one success closes it.
\<close>

section \<open>Data\<close>

type_synonym CircuitState = string

definition StateClosed :: CircuitState where "StateClosed = ''closed''"

definition StateOpen :: CircuitState where "StateOpen = ''open''"

definition StateHalfOpen :: CircuitState where "StateHalfOpen = ''half_open''"

lemma circuit_state_neq:
  "StateClosed \<noteq> StateOpen" "StateClosed \<noteq> StateHalfOpen" "StateOpen \<noteq> StateHalfOpen"
  by (simp_all add: StateClosed_def StateOpen_def StateHalfOpen_def)

lemmas circuit_state_neq_simps [simp] = circuit_state_neq circuit_state_neq [THEN not_sym]

type_synonym pref = nat
type_synonym adapters = "pref \<Rightarrow> Provider"

record candidate =
  c_p :: pref
  c_failures :: int
  c_opened :: time
  c_state :: CircuitState

record Router =
  r_providers :: "Channel \<rightharpoonup> candidate list"
  r_threshold :: int
  r_cooldown :: duration

definition Router_New :: Router where
  "Router_New = \<lparr>r_providers = Map.empty, r_threshold = 3, r_cooldown = 10 * second\<rparr>"

section \<open>Operations\<close>

definition candidates :: "Router \<Rightarrow> Channel \<Rightarrow> candidate list" where
  "candidates r ch = (case r_providers r ch of None \<Rightarrow> [] | Some cs \<Rightarrow> cs)"

definition Router_Add :: "adapters \<Rightarrow> pref \<Rightarrow> Router \<Rightarrow> Router" where
  "Router_Add ps p r =
     (let ch = Provider_Channel (ps p) in
      r\<lparr>r_providers := (r_providers r)(ch \<mapsto> candidates r ch @
          [\<lparr>c_p = p, c_failures = 0, c_opened = 0, c_state = StateClosed\<rparr>])\<rparr>)"

text \<open>The loop of \<open>Choose\<close>; \<open>i\<close> is the position of the first candidate of the rest.\<close>

fun choose_loop ::
  "(nat \<Rightarrow> time) \<Rightarrow> (nat \<Rightarrow> call_env) \<Rightarrow> adapters \<Rightarrow> duration \<Rightarrow> nat \<Rightarrow> candidate list \<Rightarrow> candidate list \<times> pref option" where
  "choose_loop clock env ps cooldown i [] = ([], None)"
| "choose_loop clock env ps cooldown i (c # cs) =
     (if c_state c = StateOpen \<and> time_sub (clock i) (c_opened c) < cooldown
      then (let rest = choose_loop clock env ps cooldown (Suc i) cs in (c # fst rest, snd rest))
      else
        let c = (if c_state c = StateOpen then c\<lparr>c_state := StateHalfOpen\<rparr> else c) in
        if c_state c = StateHalfOpen \<and> Health (env i) (ps (c_p c)) \<noteq> None
        then (let rest = choose_loop clock env ps cooldown (Suc i) cs in (c # fst rest, snd rest))
        else (c # cs, Some (c_p c)))"

definition Choose ::
  "(nat \<Rightarrow> time) \<Rightarrow> (nat \<Rightarrow> call_env) \<Rightarrow> adapters \<Rightarrow> Channel \<Rightarrow> Router \<Rightarrow> Router \<times> pref option \<times> go_error option" where
  "Choose clock env ps ch r =
     (let out = choose_loop clock env ps (r_cooldown r) 0 (candidates r ch);
          r = (if r_providers r ch = None then r else r\<lparr>r_providers := (r_providers r)(ch \<mapsto> fst out)\<rparr>)
      in (r, snd out, if snd out = None then Some ''no healthy provider'' else None))"

text \<open>
  The loops of \<open>Record\<close>: over the candidates of one channel, with a flag for the early return, and
  over the channels in the order \<open>ks\<close>.
\<close>

fun record_list ::
  "go_error option \<Rightarrow> (nat \<Rightarrow> time) \<Rightarrow> adapters \<Rightarrow> string \<Rightarrow> int \<Rightarrow> nat \<Rightarrow> candidate list \<Rightarrow> candidate list \<times> bool" where
  "record_list err clock ps nm threshold i [] = ([], False)"
| "record_list err clock ps nm threshold i (c # cs) =
     (if Name (ps (c_p c)) \<noteq> nm
      then (let rest = record_list err clock ps nm threshold (Suc i) cs in (c # fst rest, snd rest))
      else if err = None then (c\<lparr>c_failures := 0, c_state := StateClosed\<rparr> # cs, True)
      else
        let c = c\<lparr>c_failures := i64 (c_failures c + 1)\<rparr>;
            c = (if c_failures c \<ge> threshold then c\<lparr>c_state := StateOpen, c_opened := clock i\<rparr> else c);
            rest = record_list err clock ps nm threshold (Suc i) cs
        in (c # fst rest, snd rest))"

fun record_channels ::
  "go_error option \<Rightarrow> (Channel \<Rightarrow> nat \<Rightarrow> time) \<Rightarrow> adapters \<Rightarrow> string \<Rightarrow> Channel list \<Rightarrow> Router \<Rightarrow> Router" where
  "record_channels err clock ps nm [] r = r"
| "record_channels err clock ps nm (ch # ks) r =
     (case r_providers r ch of
        None \<Rightarrow> record_channels err clock ps nm ks r
      | Some cs \<Rightarrow>
          (let out = record_list err (clock ch) ps nm (r_threshold r) 0 cs;
               r = r\<lparr>r_providers := (r_providers r)(ch \<mapsto> fst out)\<rparr>
           in if snd out then r else record_channels err clock ps nm ks r))"

definition Record ::
  "(Channel \<Rightarrow> nat \<Rightarrow> time) \<Rightarrow> Channel list \<Rightarrow> adapters \<Rightarrow> pref \<Rightarrow> go_error option \<Rightarrow> Router \<Rightarrow> Router" where
  "Record clock ks ps p err r = record_channels err clock ps (Name (ps p)) ks r"

fun snapshot_list :: "adapters \<Rightarrow> Channel \<Rightarrow> candidate list \<Rightarrow> (string \<rightharpoonup> string) \<Rightarrow> (string \<rightharpoonup> string)" where
  "snapshot_list ps ch [] out = out"
| "snapshot_list ps ch (c # cs) out = snapshot_list ps ch cs (out(ch @ '':'' @ Name (ps (c_p c)) \<mapsto> c_state c))"

definition Router_Snapshot :: "Channel list \<Rightarrow> adapters \<Rightarrow> Router \<Rightarrow> (string \<rightharpoonup> string)" where
  "Router_Snapshot ks ps r = fold (\<lambda>ch out. snapshot_list ps ch (candidates r ch) out) ks Map.empty"

section \<open>Choosing\<close>

definition cooling :: "duration \<Rightarrow> time \<Rightarrow> candidate \<Rightarrow> bool" where
  "cooling cooldown now c \<longleftrightarrow> c_state c = StateOpen \<and> time_sub now (c_opened c) < cooldown"

definition tried :: "candidate \<Rightarrow> candidate" where
  "tried c = (if c_state c = StateOpen then c\<lparr>c_state := StateHalfOpen\<rparr> else c)"

definition usable :: "duration \<Rightarrow> time \<Rightarrow> call_env \<Rightarrow> adapters \<Rightarrow> candidate \<Rightarrow> bool" where
  "usable cooldown now env ps c \<longleftrightarrow> \<not> cooling cooldown now c \<and>
     (c_state c \<in> {StateOpen, StateHalfOpen} \<longrightarrow> Health env (ps (c_p c)) = None)"

lemma choose_loop_Cons:
  "choose_loop clock env ps cd i (c # cs) =
     (if usable cd (clock i) (env i) ps c then (tried c # cs, Some (c_p c))
      else let rest = choose_loop clock env ps cd (Suc i) cs in
        ((if cooling cd (clock i) c then c else tried c) # fst rest, snd rest))"
  by (auto simp: usable_def cooling_def tried_def Let_def)

declare choose_loop.simps(2) [simp del]

lemma choose_loop_length [simp]: "length (fst (choose_loop clock env ps cd i cs)) = length cs"
  by (induction cs arbitrary: i) (simp_all add: choose_loop_Cons Let_def)

lemma choose_loop_result:
  "case snd (choose_loop clock env ps cd i cs) of
     None \<Rightarrow> (\<forall>j < length cs. \<not> usable cd (clock (i + j)) (env (i + j)) ps (cs ! j))
   | Some p \<Rightarrow> (\<exists>j < length cs. p = c_p (cs ! j) \<and> usable cd (clock (i + j)) (env (i + j)) ps (cs ! j) \<and>
       (\<forall>k < j. \<not> usable cd (clock (i + k)) (env (i + k)) ps (cs ! k)))"
proof (induction cs arbitrary: i)
  case (Cons c cs)
  show ?case
  proof (cases "usable cd (clock i) (env i) ps c")
    case True
    then show ?thesis by (auto simp: choose_loop_Cons intro!: exI [of _ 0])
  next
    case False
    have shift: "(\<forall>k < Suc m. \<not> usable cd (clock (i + k)) (env (i + k)) ps ((c # cs) ! k)) \<longleftrightarrow>
        (\<forall>k < m. \<not> usable cd (clock (Suc i + k)) (env (Suc i + k)) ps (cs ! k))" for m
      using False by (simp add: All_less_Suc2)
    show ?thesis
    proof (cases "snd (choose_loop clock env ps cd (Suc i) cs)")
      case None
      then show ?thesis using Cons [of "Suc i"] False shift [of "length cs"] by (simp add: choose_loop_Cons Let_def)
    next
      case (Some p)
      then obtain j where "j < length cs" "p = c_p (cs ! j)" "usable cd (clock (Suc i + j)) (env (Suc i + j)) ps (cs ! j)"
        "\<forall>k < j. \<not> usable cd (clock (Suc i + k)) (env (Suc i + k)) ps (cs ! k)"
        using Cons [of "Suc i"] by auto
      then show ?thesis
        using Some False shift [of j] by (simp add: choose_loop_Cons Let_def) (intro exI [of _ "Suc j"], simp)
    qed
  qed
qed simp

text \<open>Choosing changes no candidate but from open to half open, when its cooldown is over.\<close>

lemma choose_loop_nth:
  "j < length cs \<Longrightarrow>
   fst (choose_loop clock env ps cd i cs) ! j = cs ! j \<or>
   (\<not> cooling cd (clock (i + j)) (cs ! j) \<and> fst (choose_loop clock env ps cd i cs) ! j = tried (cs ! j))"
proof (induction cs arbitrary: i j)
  case (Cons c cs)
  show ?case
  proof (cases j)
    case 0
    then show ?thesis by (simp add: choose_loop_Cons Let_def usable_def)
  next
    case (Suc k)
    then show ?thesis using Cons.IH [of k "Suc i"] Cons.prems by (simp add: choose_loop_Cons Let_def)
  qed
qed simp

section \<open>Recording\<close>

definition failed_once :: "int \<Rightarrow> time \<Rightarrow> candidate \<Rightarrow> candidate" where
  "failed_once threshold now c =
     (let c = c\<lparr>c_failures := i64 (c_failures c + 1)\<rparr> in
      if c_failures c \<ge> threshold then c\<lparr>c_state := StateOpen, c_opened := now\<rparr> else c)"

lemma failed_once_p [simp]: "c_p (failed_once thr now c) = c_p c"
  by (simp add: failed_once_def Let_def)

lemma record_list_fail:
  "length (fst (record_list (Some e) clock ps nm thr i cs)) = length cs \<and>
   \<not> snd (record_list (Some e) clock ps nm thr i cs) \<and>
   (\<forall>j < length cs. fst (record_list (Some e) clock ps nm thr i cs) ! j =
      (if Name (ps (c_p (cs ! j))) = nm then failed_once thr (clock (i + j)) (cs ! j) else cs ! j))"
  by (induction cs arbitrary: i) (auto simp: Let_def failed_once_def nth_Cons split: nat.split)

text \<open>A success closes the first candidate of that name, if there is one.\<close>

lemma record_list_ok:
  "record_list None clock ps nm thr i cs =
     (case dropWhile (\<lambda>c. Name (ps (c_p c)) \<noteq> nm) cs of
        [] \<Rightarrow> (cs, False)
      | c # rest \<Rightarrow>
          (takeWhile (\<lambda>c. Name (ps (c_p c)) \<noteq> nm) cs @ c\<lparr>c_failures := 0, c_state := StateClosed\<rparr> # rest, True))"
  by (induction cs arbitrary: i) (auto simp: Let_def simp del: dropWhile_eq_Nil_conv split: list.splits)

lemma record_channels_frame [simp]:
  "r_threshold (record_channels err clock ps nm ks r) = r_threshold r"
  "r_cooldown (record_channels err clock ps nm ks r) = r_cooldown r"
  by (induction ks arbitrary: r) (auto simp: Let_def split: option.splits)

lemma record_channels_fail:
  assumes "distinct ks"
  shows "r_providers (record_channels (Some e) clock ps nm ks r) ch =
    (if ch \<in> set ks then map_option (\<lambda>cs. fst (record_list (Some e) (clock ch) ps nm (r_threshold r) 0 cs)) (r_providers r ch)
     else r_providers r ch)"
  using assms
proof (induction ks arbitrary: r)
  case (Cons k ks)
  show ?case
  proof (cases "r_providers r k")
    case None
    then show ?thesis using Cons by auto
  next
    case (Some cs)
    then show ?thesis using Cons record_list_fail [of e "clock k" ps nm "r_threshold r" 0 cs] by (auto simp: Let_def)
  qed
qed simp

lemma Record_fail_nth:
  assumes "iteration_order (r_providers r) ks" "j < length (candidates r ch)"
  shows "length (candidates (Record clock ks ps p (Some e) r) ch) = length (candidates r ch)"
    "candidates (Record clock ks ps p (Some e) r) ch ! j =
      (let c = candidates r ch ! j in
       if Name (ps (c_p c)) = Name (ps p) then failed_once (r_threshold r) (clock ch j) c else c)"
proof -
  obtain cs where cs: "r_providers r ch = Some cs" using assms(2) by (auto simp: candidates_def split: option.splits)
  then have "ch \<in> set ks" "distinct ks" using assms(1) by (auto simp: iteration_order_def)
  then show "length (candidates (Record clock ks ps p (Some e) r) ch) = length (candidates r ch)"
    "candidates (Record clock ks ps p (Some e) r) ch ! j =
      (let c = candidates r ch ! j in
       if Name (ps (c_p c)) = Name (ps p) then failed_once (r_threshold r) (clock ch j) c else c)"
    using record_channels_fail [of ks e clock ps "Name (ps p)" r ch] assms(2) cs
      record_list_fail [of e "clock ch" ps "Name (ps p)" "r_threshold r" 0 cs]
    by (simp_all add: Record_def candidates_def Let_def)
qed

lemma Record_fail_dom:
  assumes "iteration_order (r_providers r) ks"
  shows "dom (r_providers (Record clock ks ps p (Some e) r)) = dom (r_providers r)"
  using assms record_channels_fail [of ks e clock ps "Name (ps p)" r]
  by (auto simp: Record_def iteration_order_def domIff)

section \<open>The life cycle of a circuit\<close>

definition circuit_ok :: "int \<Rightarrow> int \<Rightarrow> candidate \<Rightarrow> bool" where
  "circuit_ok thr n c \<longleftrightarrow> 0 \<le> c_failures c \<and> c_failures c \<le> n \<and>
     c_state c \<in> {StateClosed, StateOpen, StateHalfOpen} \<and> (c_state c = StateClosed \<longleftrightarrow> c_failures c < thr)"

definition router_ok :: "int \<Rightarrow> Router \<Rightarrow> bool" where
  "router_ok n r \<longleftrightarrow> (\<forall>ch. \<forall>c \<in> set (candidates r ch). circuit_ok (r_threshold r) n c)"

text \<open>Runs of the router, counting their steps; the adapters may have any state at each step.\<close>

inductive router_steps :: "nat \<Rightarrow> Router \<Rightarrow> Router \<Rightarrow> bool" where
  start: "router_steps 0 r r"
| add_step: "router_steps n r0 r \<Longrightarrow> router_steps (Suc n) r0 (Router_Add ps p r)"
| choose_step: "router_steps n r0 r \<Longrightarrow> router_steps (Suc n) r0 (fst (Choose clock env ps ch r))"
| record_step: "router_steps n r0 r \<Longrightarrow> iteration_order (r_providers r) ks \<Longrightarrow>
    router_steps (Suc n) r0 (Record clock' ks ps p err r)"

lemma circuit_ok_mono: "circuit_ok thr n c \<Longrightarrow> n \<le> m \<Longrightarrow> circuit_ok thr m c"
  by (auto simp: circuit_ok_def)

lemma circuit_ok_Suc: "circuit_ok thr n c \<Longrightarrow> circuit_ok thr (n + 1) c"
  by (auto simp: circuit_ok_def)

lemma router_ok_mono: "router_ok n r \<Longrightarrow> n \<le> m \<Longrightarrow> router_ok m r"
  unfolding router_ok_def using circuit_ok_mono by blast

lemma candidates_upd: "candidates (r\<lparr>r_providers := (r_providers r)(ch \<mapsto> cs)\<rparr>) k = (if k = ch then cs else candidates r k)"
  by (simp add: candidates_def)

lemma circuit_ok_tried: "circuit_ok thr n c \<Longrightarrow> circuit_ok thr n (tried c)"
  by (auto simp: circuit_ok_def tried_def)

lemma circuit_ok_failed:
  assumes "circuit_ok thr n c" "n < 2 ^ 63 - 1"
  shows "circuit_ok thr (n + 1) (failed_once thr now c)"
proof -
  have "i64 (c_failures c + 1) = c_failures c + 1"
    using assms by (intro i64_id) (simp add: circuit_ok_def in_i64_def)
  then show ?thesis using assms by (auto simp: circuit_ok_def failed_once_def Let_def)
qed

lemma circuit_ok_closed:
  "0 < thr \<Longrightarrow> 0 \<le> n \<Longrightarrow> circuit_ok thr n (c\<lparr>c_failures := 0, c_state := StateClosed\<rparr>)"
  by (simp add: circuit_ok_def)

lemma set_takeWhile_append_dropWhile:
  "dropWhile P xs = y # ys \<Longrightarrow> set (takeWhile P xs) \<union> insert y (set ys) = set xs"
  by (metis set_append list.set(2) takeWhile_dropWhile_id)

lemma record_list_circuits:
  assumes "\<forall>c \<in> set cs. circuit_ok thr n c" "0 < thr" "0 \<le> n" "n < 2 ^ 63 - 1"
  shows "\<forall>c \<in> set (fst (record_list err clock ps nm thr i cs)). circuit_ok thr (n + 1) c"
proof (cases err)
  case None
  show ?thesis
  proof (cases "dropWhile (\<lambda>c. Name (ps (c_p c)) \<noteq> nm) cs")
    case Nil
    show ?thesis unfolding None record_list_ok Nil using assms by (auto intro: circuit_ok_mono)
  next
    case (Cons d ds)
    have "set (takeWhile (\<lambda>c. Name (ps (c_p c)) \<noteq> nm) cs) \<union> set ds \<subseteq> set cs"
      using set_takeWhile_append_dropWhile [OF Cons] by auto
    then have "\<forall>c \<in> set (takeWhile (\<lambda>c. Name (ps (c_p c)) \<noteq> nm) cs) \<union> set ds. circuit_ok thr (n + 1) c"
      using assms(1) circuit_ok_mono [of thr n _ "n + 1"] by auto
    then show ?thesis
      unfolding None record_list_ok Cons using assms by (auto intro!: circuit_ok_closed)
  qed
next
  case (Some e)
  show ?thesis
    unfolding all_set_conv_all_nth
    using record_list_fail [of e clock ps nm thr i cs] assms Some
    by (auto intro: circuit_ok_failed circuit_ok_Suc)
qed

lemma record_channels_ok:
  assumes "\<forall>ch. \<forall>c \<in> set (candidates r ch). circuit_ok (r_threshold r) (if ch \<in> set ks then n else n + 1) c"
    "distinct ks" "0 < r_threshold r" "0 \<le> n" "n < 2 ^ 63 - 1"
  shows "router_ok (n + 1) (record_channels err clock ps nm ks r)"
  using assms
proof (induction ks arbitrary: r)
  case Nil
  then show ?case by (simp add: router_ok_def)
next
  case (Cons k ks)
  show ?case
  proof (cases "r_providers r k")
    case None
    have "circuit_ok (r_threshold r) (if ch \<in> set ks then n else n + 1) c" if "c \<in> set (candidates r ch)" for ch c
    proof -
      have "ch \<noteq> k" using that None by (auto simp: candidates_def)
      then show ?thesis using Cons.prems(1) that by force
    qed
    then show ?thesis using Cons None by simp
  next
    case (Some cs)
    define out where "out = record_list err (clock k) ps nm (r_threshold r) 0 cs"
    define r' where "r' = r\<lparr>r_providers := (r_providers r)(k \<mapsto> fst out)\<rparr>"
    have "\<forall>c \<in> set cs. circuit_ok (r_threshold r) n c"
      using Cons.prems(1) Some by (auto simp: candidates_def dest!: spec [of _ k])
    then have new: "\<forall>c \<in> set (fst out). circuit_ok (r_threshold r) (n + 1) c"
      unfolding out_def using Cons.prems by (intro record_list_circuits) auto
    have next_ok: "\<forall>ch. \<forall>c \<in> set (candidates r' ch). circuit_ok (r_threshold r') (if ch \<in> set ks then n else n + 1) c"
    proof (intro allI ballI)
      fix ch c assume c: "c \<in> set (candidates r' ch)"
      show "circuit_ok (r_threshold r') (if ch \<in> set ks then n else n + 1) c"
      proof (cases "ch = k")
        case True
        then show ?thesis using Cons.prems(2) new c by (simp add: r'_def candidates_upd)
      next
        case False
        then have "c \<in> set (candidates r ch)" using c by (simp add: r'_def candidates_upd)
        then show ?thesis using Cons.prems(1) False by (force simp: r'_def)
      qed
    qed
    then have "router_ok (n + 1) r'"
      unfolding router_ok_def by (auto intro: circuit_ok_Suc split: if_splits)
    moreover have "router_ok (n + 1) (record_channels err clock ps nm ks r')"
      using next_ok Cons.prems by (intro Cons.IH) (auto simp: r'_def)
    ultimately show ?thesis using Some by (simp add: Let_def out_def [symmetric] r'_def [symmetric])
  qed
qed

lemma Choose_frame:
  "candidates (fst (Choose clock env ps ch r)) k =
     (if k = ch then fst (choose_loop clock env ps (r_cooldown r) 0 (candidates r ch)) else candidates r k)"
  "r_threshold (fst (Choose clock env ps ch r)) = r_threshold r" "r_cooldown (fst (Choose clock env ps ch r)) = r_cooldown r"
  by (auto simp: Choose_def Let_def candidates_def)

lemma router_steps_ok:
  assumes "router_steps n r0 r" "r0 = Router_New" "int n < 2 ^ 63"
  shows "router_ok (int n) r \<and> r_threshold r = 3"
  using assms
proof (induction rule: router_steps.induct)
  case (start r)
  then show ?case by (simp add: router_ok_def Router_New_def candidates_def)
next
  case (add_step n r0 r ps p)
  then have "\<forall>ch. \<forall>c \<in> set (candidates r ch). circuit_ok 3 (int (Suc n)) c" "r_threshold r = 3"
    using circuit_ok_mono [of 3 "int n" _ "int (Suc n)"] by (auto simp: router_ok_def)
  moreover have "circuit_ok 3 (int (Suc n)) \<lparr>c_p = p, c_failures = 0, c_opened = 0, c_state = StateClosed\<rparr>"
    by (simp add: circuit_ok_def)
  ultimately show ?case by (auto simp: router_ok_def Router_Add_def Let_def candidates_upd)
next
  case (choose_step n r0 r clock env ps ch)
  then have IH: "router_ok (int n) r" "r_threshold r = 3" by auto
  have "circuit_ok 3 (int n) c" if "c \<in> set (fst (choose_loop clock env ps (r_cooldown r) 0 (candidates r ch)))" for c
    using that choose_loop_nth [of _ "candidates r ch" clock env ps "r_cooldown r" 0] IH circuit_ok_tried [of 3 "int n"]
    by (fastforce simp: in_set_conv_nth router_ok_def)
  then have "router_ok (int n) (fst (Choose clock env ps ch r))"
    using IH by (auto simp: router_ok_def Choose_frame)
  then show ?case using IH router_ok_mono [of "int n" _ "int (Suc n)"] by (simp add: Choose_frame)
next
  case (record_step n r0 r ks clock' ps p err)
  then have "router_ok (int n + 1) (Record clock' ks ps p err r)"
    unfolding Record_def
    by (intro record_channels_ok) (auto simp: router_ok_def iteration_order_def intro: circuit_ok_Suc)
  then show ?case using record_step by (simp add: Record_def add.commute)
qed

section \<open>A run of failures\<close>

text \<open>Consecutive failures of one provider, each with its clock readings.\<close>

fun record_failures ::
  "(Channel \<Rightarrow> nat \<Rightarrow> time) list \<Rightarrow> Channel list \<Rightarrow> adapters \<Rightarrow> pref \<Rightarrow> go_error \<Rightarrow> Router \<Rightarrow> Router" where
  "record_failures [] ks ps p e r = r"
| "record_failures (cl # cls) ks ps p e r = record_failures cls ks ps p e (Record cl ks ps p (Some e) r)"

lemma Record_frame [simp]:
  "r_threshold (Record clock ks ps p err r) = r_threshold r" "r_cooldown (Record clock ks ps p err r) = r_cooldown r"
  by (simp_all add: Record_def)

lemma record_failures_append:
  "record_failures (cls @ [cl]) ks ps p e r = Record cl ks ps p (Some e) (record_failures cls ks ps p e r)"
  by (induction cls arbitrary: r) simp_all

lemma record_failures_frame:
  assumes "iteration_order (r_providers r) ks"
  shows "iteration_order (r_providers (record_failures cls ks ps p e r)) ks \<and>
    r_threshold (record_failures cls ks ps p e r) = r_threshold r \<and> r_cooldown (record_failures cls ks ps p e r) = r_cooldown r \<and>
    map c_p (candidates (record_failures cls ks ps p e r) ch) = map c_p (candidates r ch)"
proof (induction cls rule: rev_induct)
  case Nil
  then show ?case using assms by simp
next
  case (snoc cl cls)
  define r' where "r' = record_failures cls ks ps p e r"
  have IH: "iteration_order (r_providers r') ks" "r_threshold r' = r_threshold r" "r_cooldown r' = r_cooldown r"
    "map c_p (candidates r' ch) = map c_p (candidates r ch)"
    using snoc by (simp_all add: r'_def)
  have len: "length (candidates (Record cl ks ps p (Some e) r') ch) = length (candidates r' ch)"
  proof (cases "candidates r' ch = []")
    case True
    then show ?thesis
      using record_channels_fail [of ks e cl ps "Name (ps p)" r' ch] IH(1)
        record_list_fail [of e "cl ch" ps "Name (ps p)" "r_threshold r'" 0]
      by (auto simp: Record_def candidates_def iteration_order_def split: option.splits)
  qed (use Record_fail_nth(1) [OF IH(1)] in blast)
  have "map c_p (candidates (Record cl ks ps p (Some e) r') ch) = map c_p (candidates r' ch)"
    by (rule nth_equalityI) (use len Record_fail_nth(2) [OF IH(1)] in \<open>auto simp: Let_def\<close>)
  moreover have "iteration_order (r_providers (Record cl ks ps p (Some e) r')) ks"
    using IH(1) Record_fail_dom [OF IH(1)] by (simp add: iteration_order_def)
  ultimately show ?case using IH by (simp add: record_failures_append r'_def [symmetric])
qed

lemma record_failures_nth:
  assumes "iteration_order (r_providers r) ks" "j < length (candidates r ch)"
    and nm: "Name (ps (c_p (candidates r ch ! j))) = Name (ps p)"
    and range: "0 \<le> c_failures (candidates r ch ! j)" "c_failures (candidates r ch ! j) + int (length cls) < 2 ^ 63"
  shows "iteration_order (r_providers (record_failures cls ks ps p e r)) ks \<and>
    r_threshold (record_failures cls ks ps p e r) = r_threshold r \<and> r_cooldown (record_failures cls ks ps p e r) = r_cooldown r \<and>
    length (candidates (record_failures cls ks ps p e r) ch) = length (candidates r ch) \<and>
    (let c = candidates (record_failures cls ks ps p e r) ch ! j in
     c_p c = c_p (candidates r ch ! j) \<and> c_failures c = c_failures (candidates r ch ! j) + int (length cls))"
  using range(2)
proof (induction cls rule: rev_induct)
  case Nil
  then show ?case using assms by simp
next
  case (snoc cl cls)
  define r' where "r' = record_failures cls ks ps p e r"
  define c where "c = candidates r' ch ! j"
  have IH: "iteration_order (r_providers r') ks" "r_threshold r' = r_threshold r" "r_cooldown r' = r_cooldown r"
    "length (candidates r' ch) = length (candidates r ch)" "c_p c = c_p (candidates r ch ! j)"
    "c_failures c = c_failures (candidates r ch ! j) + int (length cls)"
    using snoc by (simp_all add: r'_def c_def Let_def)
  have j: "j < length (candidates r' ch)" using IH(4) assms(2) by simp
  have "i64 (c_failures c + 1) = c_failures c + 1"
    using snoc.prems range(1) IH(6) by (intro i64_id) (simp add: in_i64_def)
  moreover have "iteration_order (r_providers (Record cl ks ps p (Some e) r')) ks"
    using IH(1) Record_fail_dom [OF IH(1)] by (simp add: iteration_order_def)
  ultimately show ?case
    using Record_fail_nth [OF IH(1) j, where clock = cl and ps = ps and p = p and e = e] IH nm
    by (simp add: record_failures_append r'_def [symmetric] c_def [symmetric] Let_def failed_once_def)
qed

lemma record_failures_opens:
  assumes "iteration_order (r_providers r) ks" "j < length (candidates r ch)"
    and nm: "Name (ps (c_p (candidates r ch ! j))) = Name (ps p)"
    and range: "0 \<le> c_failures (candidates r ch ! j)" "c_failures (candidates r ch ! j) + int (length cls) + 1 < 2 ^ 63"
    and enough: "r_threshold r \<le> int (length cls) + 1"
  shows "let c = candidates (record_failures (cls @ [cl]) ks ps p e r) ch ! j in c_state c = StateOpen \<and> c_opened c = cl ch j"
proof -
  define r' where "r' = record_failures cls ks ps p e r"
  define c where "c = candidates r' ch ! j"
  have R: "iteration_order (r_providers r') ks" "r_threshold r' = r_threshold r" "j < length (candidates r' ch)"
    "c_p c = c_p (candidates r ch ! j)" "c_failures c = c_failures (candidates r ch ! j) + int (length cls)"
    using record_failures_nth [OF assms(1-4), of cls e] range assms(2) by (simp_all add: r'_def c_def Let_def)
  have "i64 (c_failures c + 1) = c_failures c + 1"
    using range R(5) by (intro i64_id) (simp add: in_i64_def)
  then show ?thesis
    using Record_fail_nth [OF R(1,3), where clock = cl and ps = ps and p = p and e = e] R nm range(1) enough
    by (simp add: record_failures_append r'_def [symmetric] c_def [symmetric] Let_def failed_once_def)
qed

section \<open>Properties\<close>

text \<open>\<open>Choose\<close> returns the first provider of the channel, in the order they were added, that is usable:
  its circuit is not open within its cooldown, and if its circuit is not closed its health check
  succeeds; without one it returns an error.  Choosing only ever turns open circuits whose cooldown is
  over into half-open ones.\<close>

theorem Choose_first_usable:
  "let out = Choose clock env ps ch r; cs = candidates r ch; cs' = candidates (fst out) ch;
       ok = (\<lambda>j. usable (r_cooldown r) (clock j) (env j) ps (cs ! j)) in
     (case fst (snd out) of
        None \<Rightarrow> snd (snd out) = Some ''no healthy provider'' \<and> (\<forall>j < length cs. \<not> ok j)
      | Some q \<Rightarrow> snd (snd out) = None \<and> (\<exists>j < length cs. q = c_p (cs ! j) \<and> ok j \<and> (\<forall>k < j. \<not> ok k))) \<and>
     (\<forall>k. k \<noteq> ch \<longrightarrow> candidates (fst out) k = candidates r k) \<and> length cs' = length cs \<and>
     (\<forall>j < length cs. cs' ! j = cs ! j \<or> (\<not> cooling (r_cooldown r) (clock j) (cs ! j) \<and> cs' ! j = tried (cs ! j)))"
proof -
  note res = choose_loop_result [where clock = clock and env = env and ps = ps and cd = "r_cooldown r" and i = 0 and cs = "candidates r ch"]
  have "\<forall>j < length (candidates r ch). candidates (fst (Choose clock env ps ch r)) ch ! j = candidates r ch ! j \<or>
        (\<not> cooling (r_cooldown r) (clock j) (candidates r ch ! j) \<and> candidates (fst (Choose clock env ps ch r)) ch ! j = tried (candidates r ch ! j))"
    using choose_loop_nth [of _ "candidates r ch" clock env ps "r_cooldown r" 0] by (simp add: Choose_frame)
  moreover have "snd (Choose clock env ps ch r) = (snd (choose_loop clock env ps (r_cooldown r) 0 (candidates r ch)),
      if snd (choose_loop clock env ps (r_cooldown r) 0 (candidates r ch)) = None then Some ''no healthy provider'' else None)"
    by (simp add: Choose_def Let_def)
  ultimately show ?thesis
    using res unfolding Let_def by (cases "snd (choose_loop clock env ps (r_cooldown r) 0 (candidates r ch))") (simp_all add: Choose_frame)
qed

definition sample_adapters :: adapters where
  "sample_adapters p = MockProvider (sample_mock\<lparr>m_ProviderName := (if p = 0 then ''a'' else ''b'')\<rparr>)"

definition sample_router :: Router where
  "sample_router = Router_Add sample_adapters 1 (Router_Add sample_adapters 0 Router_New)"

lemma sample_router_providers:
  "r_providers sample_router =
     [ChannelEmail \<mapsto> [\<lparr>c_p = 0, c_failures = 0, c_opened = 0, c_state = StateClosed\<rparr>,
                       \<lparr>c_p = 1, c_failures = 0, c_opened = 0, c_state = StateClosed\<rparr>]]"
  "r_threshold sample_router = 3" "r_cooldown sample_router = 10 * second"
  by (simp_all add: sample_router_def Router_Add_def Router_New_def sample_adapters_def sample_mock_def candidates_def Let_def)

theorem Choose_first_usable_witness:
  "candidates (fst (Choose (\<lambda>_. 5) (\<lambda>_. sample_env) sample_adapters ChannelEmail sample_router)) ChannelSMS =
   candidates sample_router ChannelSMS"
  using Choose_first_usable [where clock = "\<lambda>_. 5" and env = "\<lambda>_. sample_env" and ps = sample_adapters and ch = ChannelEmail and r = sample_router]
  unfolding Let_def by simp

text \<open>In a router that was built by its operations, every circuit is closed, open or half open, its
  failure count is never negative, and it is closed exactly while the count is below the threshold of three.\<close>

theorem router_circuits:
  assumes "router_steps n Router_New r" "int n < 2 ^ 63" "c \<in> set (candidates r ch)"
  shows "r_threshold r = 3 \<and> 0 \<le> c_failures c \<and> c_state c \<in> {StateClosed, StateOpen, StateHalfOpen} \<and>
     (c_state c = StateClosed \<longleftrightarrow> c_failures c < 3)"
proof -
  have "circuit_ok 3 (int n) c" "r_threshold r = 3"
    using router_steps_ok [OF assms(1) refl assms(2)] assms(3) by (auto simp: router_ok_def)
  then show ?thesis by (auto simp: circuit_ok_def)
qed

lemma sample_router_steps: "router_steps 2 Router_New sample_router"
proof -
  have "router_steps (Suc (Suc 0)) Router_New sample_router"
    unfolding sample_router_def by (intro add_step start)
  then show ?thesis by (simp add: numeral_2_eq_2)
qed

theorem router_circuits_witness:
  "r_threshold sample_router = 3 \<and> c_failures (candidates sample_router ChannelEmail ! 0) < 3"
  using router_circuits [OF sample_router_steps, of "candidates sample_router ChannelEmail ! 0" ChannelEmail]
  by (simp add: candidates_def sample_router_providers)

text \<open>C23: A provider that fails as often in a row as the threshold says is taken out of service: until the
  cooldown has passed since its last failure, \<open>Choose\<close> returns no provider of its name, on any channel.\<close>

theorem failing_provider_not_chosen:
  assumes "iteration_order (r_providers r) ks" "r_threshold r \<le> int (length cls) + 1"
    and range: "\<forall>c \<in> set (candidates r ch). 0 \<le> c_failures c \<and> c_failures c + int (length cls) + 1 < 2 ^ 63"
    and soon: "\<forall>j < length (candidates r ch). time_sub (now j) (cl ch j) < r_cooldown r"
    and chosen: "fst (snd (Choose now env ps ch (record_failures (cls @ [cl]) ks ps p e r))) = Some q"
  shows "Name (ps q) \<noteq> Name (ps p)"
proof
  assume same: "Name (ps q) = Name (ps p)"
  define r' where "r' = record_failures (cls @ [cl]) ks ps p e r"
  have "snd (choose_loop now env ps (r_cooldown r') 0 (candidates r' ch)) = Some q"
    using chosen by (simp add: Choose_def Let_def r'_def)
  then obtain j where j: "j < length (candidates r' ch)" "q = c_p (candidates r' ch ! j)"
    "usable (r_cooldown r') (now j) (env j) ps (candidates r' ch ! j)"
    using choose_loop_result [where clock = now and env = env and ps = ps and cd = "r_cooldown r'" and i = 0 and cs = "candidates r' ch"]
    by auto
  have frame: "r_cooldown r' = r_cooldown r" "map c_p (candidates r' ch) = map c_p (candidates r ch)"
    using record_failures_frame [OF assms(1), of "cls @ [cl]"] by (auto simp: r'_def)
  then have len: "length (candidates r' ch) = length (candidates r ch)" by (metis length_map)
  have jr: "j < length (candidates r ch)" "c_p (candidates r' ch ! j) = c_p (candidates r ch ! j)"
    using j(1) len frame(2) by (auto dest: arg_cong [where f = "\<lambda>xs. xs ! j"])
  have "c_state (candidates r' ch ! j) = StateOpen" "c_opened (candidates r' ch ! j) = cl ch j"
    using record_failures_opens [OF assms(1) jr(1), where ps = ps and p = p and cls = cls and cl = cl and e = e] range jr same j(2) assms(2)
    by (simp_all add: r'_def Let_def)
  then have "cooling (r_cooldown r') (now j) (candidates r' ch ! j)"
    using soon jr(1) frame(1) by (simp add: cooling_def)
  then show False using j(3) by (simp add: usable_def)
qed

theorem failing_provider_not_chosen_witness:
  "fst (snd (Choose (\<lambda>_. 20) (\<lambda>_. sample_env) sample_adapters ChannelEmail
     (record_failures [\<lambda>_ _. 1, \<lambda>_ _. 2, \<lambda>_ _. 3] [ChannelEmail] sample_adapters 0 ''boom'' sample_router))) \<noteq> Some 0"
proof
  assume "fst (snd (Choose (\<lambda>_. 20) (\<lambda>_. sample_env) sample_adapters ChannelEmail
     (record_failures [\<lambda>_ _. 1, \<lambda>_ _. 2, \<lambda>_ _. 3] [ChannelEmail] sample_adapters 0 ''boom'' sample_router))) = Some 0"
  then have *: "fst (snd (Choose (\<lambda>_. 20) (\<lambda>_. sample_env) sample_adapters ChannelEmail
     (record_failures ([\<lambda>_ _. 1, \<lambda>_ _. 2] @ [\<lambda>_ _. 3]) [ChannelEmail] sample_adapters 0 ''boom'' sample_router))) = Some 0"
    by simp
  have "time_sub 20 3 < 10 * second" by (simp add: time_sub_def max_i64_def min_i64_def second_def)
  then have "Name (sample_adapters 0) \<noteq> Name (sample_adapters 0)"
    by (intro failing_provider_not_chosen [OF _ _ _ _ *])
      (auto simp: iteration_order_def sample_router_providers candidates_def)
  then show False by simp
qed

text \<open>One success closes the circuit again: the first candidate of that name has no failures left.\<close>

lemma record_success_closes:
  assumes "c \<in> set cs" "Name (ps (c_p c)) = nm"
  shows "\<exists>c' \<in> set (fst (record_list None clock ps nm thr i cs)). Name (ps (c_p c')) = nm \<and> c_failures c' = 0 \<and> c_state c' = StateClosed"
proof (cases "dropWhile (\<lambda>c. Name (ps (c_p c)) \<noteq> nm) cs")
  case Nil
  then show ?thesis using assms by (simp add: dropWhile_eq_Nil_conv)
next
  case (Cons d ds)
  then have "Name (ps (c_p d)) = nm" by (metis (mono_tags, lifting) dropWhile_eq_Cons_conv)
  then show ?thesis unfolding record_list_ok Cons by auto
qed

text \<open>A channel whose first candidate has a closed circuit: it is the one chosen, and successes keep it so.\<close>

definition closed_first :: "Router \<Rightarrow> Channel \<Rightarrow> pref \<Rightarrow> bool" where
  "closed_first r ch p \<longleftrightarrow> (\<exists>c cs. r_providers r ch = Some (c # cs) \<and> c_p c = p \<and> c_state c = StateClosed)"

lemma Choose_closed_first: "closed_first r ch p \<Longrightarrow> Choose clock env ps ch r = (r, Some p, None)"
  by (cases r) (auto simp: closed_first_def Choose_def candidates_def choose_loop_Cons usable_def cooling_def tried_def Let_def fun_upd_idem)

lemma Record_closed_first: "closed_first r ch p \<Longrightarrow> closed_first (Record clock ks ps q None r) ch p"
proof -
  have "closed_first r ch p \<Longrightarrow> closed_first (record_channels None clock ps nm ks r) ch p" for nm
  proof (induction ks arbitrary: r)
    case (Cons k ks)
    have keep: "closed_first (r\<lparr>r_providers := (r_providers r)(k \<mapsto> fst (record_list None (clock k) ps nm (r_threshold r) 0 cs))\<rparr>) ch p"
      if "r_providers r k = Some cs" for cs
      using Cons.prems that by (auto simp: closed_first_def Let_def)
    then show ?case using Cons by (auto simp: Let_def split: option.split)
  qed simp
  then show "closed_first r ch p \<Longrightarrow> closed_first (Record clock ks ps q None r) ch p" by (simp add: Record_def)
qed

end
