(* ===== verification/Go_Float.thy ===== *)
theory Go_Float
  imports Go_Prelude "HOL-Library.Log_Nat"
begin

text \<open>
  Go's \<open>float64\<close> arithmetic as the token bucket uses it: each operation is the exact rational result
  rounded to the nearest number with a 53-bit significand, ties to even, with gradual underflow.
  Infinities and NaN are left out: they need magnitudes of \<open>2 ^ 1024\<close> or a division by zero.  The lemmas show
  that rounding is monotone, exact on integers up to \<open>2 ^ 53\<close>, and off by at most half a unit in the
  last place.
\<close>

section \<open>Rounding\<close>

definition exponent2 :: "rat \<Rightarrow> int" where
  "exponent2 x =
     (case quotient_of x of (p, q) \<Rightarrow>
        let e = int (floorlog 2 (nat p)) - int (floorlog 2 (nat q)) in if 2 powi e \<le> x then e else e - 1)"

definition round_half_even :: "rat \<Rightarrow> int" where
  "round_half_even m =
     (let n = \<lfloor>m\<rfloor>; f = m - of_int n in
      if f < 1 / 2 then n else if f > 1 / 2 then n + 1 else if even n then n else n + 1)"

definition fl64_pos :: "rat \<Rightarrow> rat" where
  "fl64_pos x =
     (let u = 2 powi (max (exponent2 x) (- 1022) - 52) in of_int (round_half_even (x / u)) * u)"

definition fl64 :: "rat \<Rightarrow> rat" where
  "fl64 x = (if x = 0 then 0 else if x > 0 then fl64_pos x else - fl64_pos (- x))"

lemma powi2_pos [simp]: "(0::rat) < 2 powi e"
  by (simp add: zero_less_power_int)

lemma powi2_mono: "a \<le> b \<Longrightarrow> (2::rat) powi a \<le> 2 powi b"
  by (simp add: power_int_increasing)

lemma powi2_split: "a + b = c \<Longrightarrow> (2::rat) powi a * 2 powi b = 2 powi c"
  by (auto simp: power_int_add)

lemma powi2_less_D: "(2::rat) powi a < 2 powi b \<Longrightarrow> a < b"
  by (metis linorder_not_le powi2_mono)

text \<open>A significand of \<open>2 ^ 52\<close> or \<open>2 ^ 53\<close> units in the last place.\<close>

lemma ulp_scale: "of_int (2 ^ 52) * (2::rat) powi (e - 52) = 2 powi e" "of_int (2 ^ 53) * (2::rat) powi (e - 52) = 2 powi (e + 1)"
proof -
  have "of_int (2 ^ 52) = (2::rat) powi 52" by simp
  then show "of_int (2 ^ 52) * (2::rat) powi (e - 52) = 2 powi e"
    by (simp only: powi2_split [of 52 "e - 52" e])
  have "of_int (2 ^ 53) = (2::rat) powi 53" by simp
  then show "of_int (2 ^ 53) * (2::rat) powi (e - 52) = 2 powi (e + 1)"
    by (simp only: powi2_split [of 53 "e - 52" "e + 1"])
qed

lemma exponent2_bounds:
  assumes "0 < x"
  shows "2 powi exponent2 x \<le> x" "x < 2 powi (exponent2 x + 1)"
proof -
  obtain p q where pq: "quotient_of x = (p, q)" by (cases "quotient_of x")
  have x: "x = of_int p / of_int q" and q: "0 < q" using quotient_of_div [OF pq] quotient_of_denom_pos [OF pq] by auto
  have p: "0 < p" using assms x q by (simp add: zero_less_divide_iff)
  define a b where "a = floorlog 2 (nat p)" and "b = floorlog 2 (nat q)"
  have fl: "2 ^ (floorlog 2 (nat z) - 1) \<le> nat z" "nat z < 2 ^ floorlog 2 (nat z)" "1 \<le> floorlog 2 (nat z)" if "0 < z" for z
    using floorlog_bounds [where b = 2 and x = "nat z"] that by (simp_all add: floorlog_def)
  have cast: "2 powi (int (floorlog 2 (nat z)) - 1) \<le> (of_int z :: rat) \<and> (of_int z :: rat) < 2 powi int (floorlog 2 (nat z))"
    if "0 < z" for z
  proof -
    define k where "k = floorlog 2 (nat z)"
    have "int (2 ^ (k - 1)) \<le> z" "z < int (2 ^ k)" using fl [OF that] that by (simp_all add: k_def le_nat_iff nat_less_iff)
    then have "(of_int (int (2 ^ (k - 1))) :: rat) \<le> of_int z" "(of_int z :: rat) < of_int (int (2 ^ k))"
      by (simp_all only: of_int_le_iff of_int_less_iff)
    moreover have "(2::rat) powi (int k - 1) = 2 ^ (k - 1)"
      using fl(3) [OF that] unfolding k_def [symmetric] by (metis int_ops(2) of_nat_diff power_int_of_nat)
    ultimately show ?thesis unfolding k_def [symmetric] by (simp add: power_int_of_nat)
  qed
  note P = cast [OF p, folded a_def] and Q = cast [OF q, folded b_def]
  have q0: "(0::rat) < of_int q" using q by simp
  have "2 powi (int a - int b - 1) * of_int q \<le> 2 powi (int a - int b - 1) * (2 powi int b :: rat)"
    using Q by (intro mult_left_mono) (auto simp: less_imp_le)
  also have "\<dots> = 2 powi (int a - 1)" by (rule powi2_split) simp
  also have "\<dots> \<le> of_int p" using P by simp
  finally have lo: "2 powi (int a - int b - 1) \<le> x" using q0 by (simp add: x pos_le_divide_eq)
  have "(of_int p :: rat) < 2 powi int a" using P by simp
  also have "(2 powi int a :: rat) = 2 powi (int a - int b + 1) * 2 powi (int b - 1)" by (rule powi2_split [symmetric]) simp
  also have "\<dots> \<le> 2 powi (int a - int b + 1) * of_int q" using Q by (intro mult_left_mono) auto
  finally have hi: "x < 2 powi (int a - int b + 1)" using q0 by (simp add: x pos_divide_less_eq)
  have e: "exponent2 x = (let e = int a - int b in if 2 powi e \<le> x then e else e - 1)"
    by (simp add: exponent2_def pq a_def b_def)
  show "2 powi exponent2 x \<le> x" "x < 2 powi (exponent2 x + 1)"
    using lo hi by (auto simp: e Let_def)
qed

lemma round_half_even_near: "\<bar>of_int (round_half_even m) - m\<bar> \<le> 1 / 2"
proof -
  have "of_int \<lfloor>m\<rfloor> \<le> m" "m < of_int \<lfloor>m\<rfloor> + 1" by linarith+
  then show ?thesis by (auto simp: round_half_even_def Let_def abs_le_iff)
qed

lemma round_half_even_int [simp]: "round_half_even (of_int k) = k"
  by (simp add: round_half_even_def)

lemma round_half_even_mono: "x \<le> y \<Longrightarrow> round_half_even x \<le> round_half_even y"
proof -
  assume xy: "x \<le> y"
  have f: "\<lfloor>m\<rfloor> \<le> round_half_even m" "round_half_even m \<le> \<lfloor>m\<rfloor> + 1" for m
    by (simp_all add: round_half_even_def Let_def)
  have "\<lfloor>x\<rfloor> \<le> \<lfloor>y\<rfloor>" using xy by (rule floor_mono)
  then consider "\<lfloor>x\<rfloor> = \<lfloor>y\<rfloor>" | "\<lfloor>x\<rfloor> + 1 \<le> \<lfloor>y\<rfloor>" by linarith
  then show ?thesis
  proof cases
    case 1
    with xy show ?thesis by (auto simp: round_half_even_def Let_def)
  next
    case 2
    with f [of x] f [of y] show ?thesis by linarith
  qed
qed

text \<open>The effective exponent, and the significand in units of the last place.\<close>

definition eff_exp :: "rat \<Rightarrow> int" where
  "eff_exp x = max (exponent2 x) (- 1022)"

lemma fl64_pos_eq: "fl64_pos x = of_int (round_half_even (x / 2 powi (eff_exp x - 52))) * 2 powi (eff_exp x - 52)"
  by (simp add: fl64_pos_def eff_exp_def Let_def)

lemma fl64_pos_le:
  assumes "0 < x" shows "fl64_pos x \<le> 2 powi (eff_exp x + 1)"
proof -
  let ?u = "2 powi (eff_exp x - 52) :: rat"
  have "x < 2 powi (exponent2 x + 1)" using exponent2_bounds [OF assms] by simp
  also have "\<dots> \<le> 2 powi (eff_exp x + 1)" by (intro powi2_mono) (simp add: eff_exp_def)
  also have "\<dots> = of_int (2 ^ 53) * ?u" by (rule ulp_scale [symmetric])
  finally have "x / ?u \<le> of_int (2 ^ 53)" by (simp only: pos_divide_le_eq powi2_pos less_imp_le)
  then have "round_half_even (x / ?u) \<le> 2 ^ 53" by (metis round_half_even_int round_half_even_mono)
  then have "(of_int (round_half_even (x / ?u)) :: rat) \<le> of_int (2 ^ 53)" by (simp only: of_int_le_iff)
  then have "fl64_pos x \<le> of_int (2 ^ 53) * ?u" unfolding fl64_pos_eq by (intro mult_right_mono) (auto simp: less_imp_le)
  also have "\<dots> = 2 powi (eff_exp x + 1)" by (rule ulp_scale)
  finally show ?thesis .
qed

lemma fl64_pos_ge:
  assumes "0 < x" "- 1022 \<le> exponent2 x" shows "2 powi (eff_exp x) \<le> fl64_pos x"
proof -
  let ?u = "2 powi (eff_exp x - 52) :: rat"
  have "of_int (2 ^ 52) * ?u = 2 powi (eff_exp x)" by (rule ulp_scale)
  also have "\<dots> \<le> x" using exponent2_bounds [OF assms(1)] assms(2) by (simp add: eff_exp_def)
  finally have "of_int (2 ^ 52) \<le> x / ?u" by (simp only: pos_le_divide_eq powi2_pos)
  then have "2 ^ 52 \<le> round_half_even (x / ?u)" by (metis round_half_even_int round_half_even_mono)
  then have "(of_int (2 ^ 52) :: rat) \<le> of_int (round_half_even (x / ?u))" by (simp only: of_int_le_iff)
  then have "of_int (2 ^ 52) * ?u \<le> fl64_pos x" unfolding fl64_pos_eq by (intro mult_right_mono) (auto simp: less_imp_le)
  then show ?thesis by (simp only: ulp_scale)
qed

lemma fl64_pos_nonneg: "0 < x \<Longrightarrow> 0 \<le> fl64_pos x"
proof -
  assume "0 < x"
  then have "of_int 0 \<le> x / 2 powi (eff_exp x - 52)" by (simp add: less_imp_le)
  then have "0 \<le> round_half_even (x / 2 powi (eff_exp x - 52))" by (metis round_half_even_int round_half_even_mono)
  then show ?thesis unfolding fl64_pos_eq by (simp add: less_imp_le)
qed

lemma fl64_pos_mono:
  assumes "0 < x" "x \<le> y" shows "fl64_pos x \<le> fl64_pos y"
proof -
  have y: "0 < y" using assms by simp
  have "2 powi exponent2 x < (2::rat) powi (exponent2 y + 1)"
    using exponent2_bounds [OF assms(1)] exponent2_bounds [OF y] assms(2) by linarith
  then have "exponent2 x < exponent2 y + 1" by (metis linorder_not_le powi2_mono)
  then consider "eff_exp x = eff_exp y" | "eff_exp x + 1 \<le> eff_exp y" "- 1022 \<le> exponent2 y"
    unfolding eff_exp_def by linarith
  then show ?thesis
  proof cases
    case 1
    then have "x / 2 powi (eff_exp x - 52) \<le> y / 2 powi (eff_exp y - 52)"
      using assms(2) by (simp add: divide_right_mono less_imp_le)
    then have "round_half_even (x / 2 powi (eff_exp x - 52)) \<le> round_half_even (y / 2 powi (eff_exp y - 52))"
      by (rule round_half_even_mono)
    then show ?thesis unfolding fl64_pos_eq using 1 by (simp add: less_imp_le mult_right_mono)
  next
    case 2
    then show ?thesis using fl64_pos_le [OF assms(1)] fl64_pos_ge [OF y] powi2_mono [of "eff_exp x + 1" "eff_exp y"]
      by linarith
  qed
qed

section \<open>The laws the components use\<close>

lemma fl64_0 [simp]: "fl64 0 = 0"
  by (simp add: fl64_def)

lemma fl64_mono: "x \<le> y \<Longrightarrow> fl64 x \<le> fl64 y"
  using fl64_pos_mono [of x y] fl64_pos_mono [of "- y" "- x"] fl64_pos_nonneg [of y] fl64_pos_nonneg [of "- x"]
  by (auto simp: fl64_def not_less)

lemma fl64_nonneg: "0 \<le> x \<Longrightarrow> 0 \<le> fl64 x"
  using fl64_mono [of 0 x] by simp

lemma fl64_pos_error:
  assumes "0 < x" shows "\<bar>fl64_pos x - x\<bar> \<le> x / 2 ^ 53 + 2 powi (- 1075)"
proof -
  let ?u = "2 powi (eff_exp x - 52) :: rat"
  have "\<bar>fl64_pos x - x\<bar> = \<bar>of_int (round_half_even (x / ?u)) - x / ?u\<bar> * ?u"
    unfolding fl64_pos_eq by (simp add: abs_mult_pos left_diff_distrib less_imp_le)
  also have "\<dots> \<le> 1 / 2 * ?u" by (intro mult_right_mono round_half_even_near) (simp add: less_imp_le)
  also have "\<dots> = 2 powi (eff_exp x - 53)" by (simp add: power_int_diff)
  also have "\<dots> \<le> x / 2 ^ 53 + 2 powi (- 1075)"
  proof (cases "exponent2 x \<ge> - 1022")
    case True
    then have "2 powi (eff_exp x - 53) = 2 powi exponent2 x / (2 ^ 53 :: rat)"
      by (simp add: eff_exp_def power_int_diff)
    also have "\<dots> \<le> x / 2 ^ 53" using exponent2_bounds [OF assms] by (simp add: divide_right_mono)
    finally show ?thesis by (simp add: add_increasing2 less_imp_le)
  next
    case False
    then show ?thesis using assms by (simp add: eff_exp_def max_def)
  qed
  finally show ?thesis .
qed

lemma fl64_error: "\<bar>fl64 x - x\<bar> \<le> \<bar>x\<bar> / 2 ^ 53 + 2 powi (- 1075)"
proof -
  consider "x = 0" | "0 < x" | "0 < - x" by linarith
  then show ?thesis
  proof cases
    case 3
    then have "\<bar>fl64 x - x\<bar> = \<bar>fl64_pos (- x) - (- x)\<bar>" by (simp add: fl64_def)
    with fl64_pos_error [OF 3] 3 show ?thesis by simp
  qed (use fl64_pos_error [of x] in \<open>simp_all add: fl64_def less_imp_le\<close>)
qed

text \<open>Integers up to \<open>2 ^ 53\<close> are represented exactly.\<close>

lemma fl64_of_int:
  assumes "0 \<le> k" "k \<le> 2 ^ 53" shows "fl64 (of_int k) = of_int k"
proof (cases "k = 0")
  case False
  then have k: "0 < (of_int k :: rat)" using assms by simp
  let ?e = "exponent2 (of_int k)"
  note b = exponent2_bounds [OF k]
  have "1 \<le> k" using False assms(1) by simp
  then have "(1::rat) \<le> of_int k" by (simp only: of_int_1_le_iff)
  then have "(2::rat) powi 0 < 2 powi (?e + 1)" using b(2) by simp
  then have e0: "0 \<le> ?e" using powi2_less_D [of 0 "?e + 1"] by linarith
  have "(of_int k :: rat) \<le> of_int (2 ^ 53)" using assms(2) by (simp only: of_int_le_iff)
  then have "2 powi ?e < (2::rat) powi 54" using b(1) by simp
  then have e1: "?e \<le> 53" using powi2_less_D [of ?e 54] by linarith
  have eff: "eff_exp (of_int k) = ?e" using e0 by (simp add: eff_exp_def)
  have "\<exists>m. of_int k = (of_int m :: rat) * 2 powi (?e - 52)"
  proof (cases "?e = 53")
    case True
    with b(1) \<open>(of_int k :: rat) \<le> of_int (2 ^ 53)\<close> have "(of_int k :: rat) = of_int (2 ^ 53)" by simp
    then show ?thesis using True by (intro exI [of _ "2 ^ 52"]) simp
  next
    case False
    then have "(2::rat) powi (52 - ?e) = of_int (2 ^ nat (52 - ?e))" using e1 by (simp add: power_int_def)
    moreover have "(2::rat) powi (52 - ?e) * 2 powi (?e - 52) = 2 powi 0" by (rule powi2_split) simp
    ultimately show ?thesis
      by (intro exI [of _ "k * 2 ^ nat (52 - ?e)"]) (simp only: of_int_mult mult.assoc power_int_0_right mult_1_right)
  qed
  then obtain m where m: "of_int k = (of_int m :: rat) * 2 powi (?e - 52)" by blast
  then have "of_int k / 2 powi (?e - 52) = (of_int m :: rat)" by (simp add: divide_eq_eq)
  then have "fl64_pos (of_int k) = of_int m * 2 powi (?e - 52)" unfolding fl64_pos_eq eff by (simp only: round_half_even_int)
  with m k show ?thesis by (simp add: fl64_def)
qed simp

end
