(* ===== verification/Token_Bucket.thy ===== *)
theory Token_Bucket
  imports Go_Float
begin

text \<open>
  The package \<open>internal/rate\<close>, file \<open>limiter.go\<close>: the token bucket that limits the dispatch rate.  Its
  fields are \<open>float64\<close>; every operation is rounded by \<open>fl64\<close>, without fused operations.  The lemmas show that the
  number of tokens stays between zero and the capacity, and that the units granted over a period are
  bounded by the capacity plus what the period refills, up to a rounding error of one part in
  \<open>2 ^ 50\<close>.
\<close>

section \<open>Operations\<close>

record Bucket =
  b_tokens :: rat
  b_capacity :: rat
  b_refill :: rat
  b_last :: time

definition rate_New :: "time \<Rightarrow> rat \<Rightarrow> rat \<Rightarrow> Bucket" where
  "rate_New now capacity perSecond =
     \<lparr>b_tokens = capacity, b_capacity = capacity, b_refill = perSecond, b_last = now\<rparr>"

text \<open>\<open>Duration.Seconds\<close>: the whole seconds and the remaining nanoseconds, both with the sign of the duration.\<close>

definition Seconds :: "duration \<Rightarrow> rat" where
  "Seconds d =
     (let sec = (if d < 0 then - ((- d) div second) else d div second); nsec = d - sec * second in
      fl64 (fl64 (of_int sec) + fl64 (fl64 (of_int nsec) / 1000000000)))"

definition Allow :: "time \<Rightarrow> rat \<Rightarrow> Bucket \<Rightarrow> Bucket \<times> bool" where
  "Allow now n b =
     (let tokens = fl64 (b_tokens b + fl64 (Seconds (time_sub now (b_last b)) * b_refill b));
          tokens = (if tokens > b_capacity b then b_capacity b else tokens);
          b = b\<lparr>b_tokens := tokens, b_last := now\<rparr>
      in if tokens < n then (b, False) else (b\<lparr>b_tokens := fl64 (tokens - n)\<rparr>, True))"

text \<open>The conversion to \<open>time.Duration\<close> drops the fraction.\<close>

definition Wait :: "rat \<Rightarrow> Bucket \<Rightarrow> duration" where
  "Wait n b =
     (if b_tokens b \<ge> n then 0
      else
        let f = fl64 (fl64 (fl64 (n - b_tokens b) / b_refill b) * of_int second)
        in if f < 0 then - \<lfloor>- f\<rfloor> else \<lfloor>f\<rfloor>)"

section \<open>Bounds\<close>

definition bucket_ok :: "Bucket \<Rightarrow> bool" where
  "bucket_ok b \<longleftrightarrow> 0 \<le> b_tokens b \<and> b_tokens b \<le> b_capacity b \<and> 0 \<le> b_refill b \<and> fl64 (b_capacity b) = b_capacity b"

lemma time_sub_nonneg: "b \<le> a \<Longrightarrow> 0 \<le> time_sub a b \<and> time_sub a b \<le> a - b \<and> time_sub a b \<le> max_i64"
  by (auto simp: time_sub_def max_i64_def min_i64_def)

lemma fl64_le: "0 \<le> x \<Longrightarrow> fl64 x \<le> x + x / 2 ^ 53 + 1 / 2 ^ 200"
proof -
  assume x: "0 \<le> x"
  have "(2::rat) powi (- 1075) \<le> 2 powi (- 200)" by (rule powi2_mono) simp
  also have "\<dots> = 1 / 2 ^ 200" by (simp add: power_int_minus inverse_eq_divide)
  finally show ?thesis using fl64_error [of x] x by linarith
qed

lemma Seconds_bounds:
  assumes "0 \<le> d" "d \<le> max_i64"
  shows "0 \<le> Seconds d" "Seconds d \<le> of_int d / 1000000000 * (1 + 3 / 2 ^ 53) + 3 / 2 ^ 200"
proof -
  define sec nsec where "sec = d div second" and "nsec = d - sec * second"
  have sec: "0 \<le> sec" "sec \<le> 2 ^ 53" using assms by (auto simp: sec_def second_def max_i64_def)
  have nsec: "0 \<le> nsec" "nsec \<le> 2 ^ 53"
    using pos_mod_bound [of second d] by (simp_all add: nsec_def sec_def second_def minus_div_mult_eq_mod)
  have S: "Seconds d = fl64 (of_int sec + fl64 (of_int nsec / 1000000000))"
    using assms by (simp only: Seconds_def Let_def sec_def [symmetric] nsec_def [symmetric] not_less [symmetric] if_False
        fl64_of_int [OF sec] fl64_of_int [OF nsec])
  define b where "b = fl64 (of_int nsec / 1000000000)"
  have n0: "(0::rat) \<le> of_int nsec" and s0: "(0::rat) \<le> of_int sec" using nsec sec by simp_all
  have b0: "0 \<le> b" unfolding b_def using n0 by (intro fl64_nonneg) simp
  show "0 \<le> Seconds d" unfolding S b_def [symmetric] using b0 s0 by (intro fl64_nonneg) simp
  have b1: "b \<le> of_int nsec / 1000000000 + (of_int nsec / 1000000000) / 2 ^ 53 + 1 / 2 ^ 200"
    unfolding b_def using n0 by (intro fl64_le) simp
  have "Seconds d \<le> (of_int sec + b) + (of_int sec + b) / 2 ^ 53 + 1 / 2 ^ 200"
    unfolding S b_def [symmetric] using b0 s0 by (intro fl64_le) simp
  moreover have "(of_int d :: rat) = of_int sec * 1000000000 + of_int nsec"
    by (simp add: nsec_def second_def)
  ultimately show "Seconds d \<le> of_int d / 1000000000 * (1 + 3 / 2 ^ 53) + 3 / 2 ^ 200"
    using b1 n0 s0 by (simp add: field_simps)
qed

text \<open>The level after the refill and before the test.\<close>

definition refilled :: "time \<Rightarrow> Bucket \<Rightarrow> rat" where
  "refilled now b = min (b_capacity b) (fl64 (b_tokens b + fl64 (Seconds (time_sub now (b_last b)) * b_refill b)))"

lemma Allow_eq:
  "Allow now n b =
     (if refilled now b < n then (b\<lparr>b_tokens := refilled now b, b_last := now\<rparr>, False)
      else (b\<lparr>b_tokens := fl64 (refilled now b - n), b_last := now\<rparr>, True))"
  by (simp add: Allow_def refilled_def Let_def min_def)

lemma refilled_range:
  assumes "bucket_ok b" "b_last b \<le> now"
  shows "0 \<le> refilled now b" "refilled now b \<le> b_capacity b"
proof -
  have "0 \<le> Seconds (time_sub now (b_last b))" using time_sub_nonneg [OF assms(2)] by (intro Seconds_bounds) auto
  then have "0 \<le> fl64 (Seconds (time_sub now (b_last b)) * b_refill b)"
    using assms(1) by (intro fl64_nonneg) (simp add: bucket_ok_def)
  then have "0 \<le> fl64 (b_tokens b + fl64 (Seconds (time_sub now (b_last b)) * b_refill b))"
    using assms(1) by (intro fl64_nonneg) (simp add: bucket_ok_def)
  then show "0 \<le> refilled now b" "refilled now b \<le> b_capacity b"
    using assms(1) by (auto simp: refilled_def bucket_ok_def)
qed

lemma Allow_ok:
  assumes "bucket_ok b" "b_last b \<le> now" "0 \<le> n"
  shows "bucket_ok (fst (Allow now n b))" "b_last (fst (Allow now n b)) = now"
    "b_capacity (fst (Allow now n b)) = b_capacity b" "b_refill (fst (Allow now n b)) = b_refill b"
proof -
  note r = refilled_range [OF assms(1,2)]
  have "fl64 (refilled now b - n) \<le> fl64 (b_capacity b)" using r assms(3) by (intro fl64_mono) simp
  moreover have "\<not> refilled now b < n \<Longrightarrow> 0 \<le> fl64 (refilled now b - n)" by (intro fl64_nonneg) simp
  ultimately show "bucket_ok (fst (Allow now n b))" using assms(1) r by (auto simp: Allow_eq bucket_ok_def)
qed (simp_all add: Allow_eq)

text \<open>What one call can add to the level and to the granted units together.\<close>

lemma Allow_gain:
  assumes ok: "bucket_ok b" and now: "b_last b \<le> now" and n: "0 \<le> n"
    and size: "1 \<le> b_capacity b" "b_refill b \<le> 2 ^ 64"
  shows "(if snd (Allow now n b) then n else 0) + b_tokens (fst (Allow now n b)) \<le>
     b_tokens b + b_refill b * of_int (now - b_last b) / 1000000000 * (1 + 1 / 2 ^ 50) + b_capacity b / 2 ^ 50"
proof -
  define d where "d = time_sub now (b_last b)"
  have d: "0 \<le> d" "d \<le> max_i64" "d \<le> now - b_last b" using time_sub_nonneg [OF now] by (auto simp: d_def)
  note S = Seconds_bounds [OF d(1,2)]
  define w where "w = of_int (now - b_last b) / 1000000000 * b_refill b"
  have r0: "0 \<le> b_refill b" and t: "0 \<le> b_tokens b" "b_tokens b \<le> b_capacity b" using ok by (auto simp: bucket_ok_def)
  have "(of_int d :: rat) / 1000000000 \<le> of_int (now - b_last b) / 1000000000"
    using d(3) by (intro divide_right_mono) (auto simp only: of_int_le_iff)
  then have "(of_int d :: rat) / 1000000000 * (1 + 3 / 2 ^ 53) \<le> of_int (now - b_last b) / 1000000000 * (1 + 3 / 2 ^ 53)"
    by (rule mult_right_mono) simp
  then have "Seconds d \<le> of_int (now - b_last b) / 1000000000 * (1 + 3 / 2 ^ 53) + 3 / 2 ^ 200"
    using S(2) by (meson add_right_mono order_trans)
  then have "Seconds d * b_refill b \<le> (of_int (now - b_last b) / 1000000000 * (1 + 3 / 2 ^ 53) + 3 / 2 ^ 200) * b_refill b"
    using r0 by (rule mult_right_mono)
  also have "\<dots> = w * (1 + 3 / 2 ^ 53) + 3 / 2 ^ 200 * b_refill b" by (simp add: w_def algebra_simps)
  finally have sr: "Seconds d * b_refill b \<le> w * (1 + 3 / 2 ^ 53) + 3 / 2 ^ 200 * b_refill b" .
  have w0: "0 \<le> w" using r0 now by (simp add: w_def)
  have sr0: "0 \<le> Seconds d * b_refill b" using S(1) r0 by simp
  define a where "a = fl64 (Seconds d * b_refill b)"
  have a0: "0 \<le> a" unfolding a_def using sr0 by (rule fl64_nonneg)
  have a: "a \<le> w * (1 + 5 / 2 ^ 53) + 1 / 2 ^ 100" using fl64_le [OF sr0, folded a_def] sr w0 size(2) r0 by (simp add: field_simps)
  have lvl: "refilled now b \<le> b_tokens b + a + (b_tokens b + a) / 2 ^ 53 + 1 / 2 ^ 200"
    using fl64_le [of "b_tokens b + a"] t a0 by (simp add: refilled_def d_def [symmetric] a_def [symmetric])
  have gain: "n + fl64 (refilled now b - n) \<le> refilled now b + b_capacity b / 2 ^ 53 + 1 / 2 ^ 200"
    if "\<not> refilled now b < n"
  proof -
    have "(refilled now b - n) / 2 ^ 53 \<le> b_capacity b / 2 ^ 53"
      using n refilled_range [OF ok now] by (intro divide_right_mono) auto
    then show ?thesis using fl64_le [of "refilled now b - n"] that by linarith
  qed
  have "(if snd (Allow now n b) then n else 0) + b_tokens (fst (Allow now n b)) \<le>
      refilled now b + b_capacity b / 2 ^ 53 + 1 / 2 ^ 200"
    using gain size(1) by (auto simp: Allow_eq)
  also have "\<dots> \<le> b_tokens b + w * (1 + 1 / 2 ^ 50) + b_capacity b / 2 ^ 50"
    using lvl a t size(1) w0 a0 by (simp add: field_simps)
  finally show ?thesis by (simp add: w_def mult.commute)
qed

text \<open>A sequence of calls, with the clock reading and the amount of each, and the units granted.\<close>

fun allow_all :: "(time \<times> rat) list \<Rightarrow> Bucket \<Rightarrow> Bucket \<times> rat" where
  "allow_all [] b = (b, 0)"
| "allow_all ((now, n) # cs) b =
     (case Allow now n b of (b1, ok) \<Rightarrow> case allow_all cs b1 of (b2, g) \<Rightarrow> (b2, (if ok then n else 0) + g))"

definition calls_from :: "time \<Rightarrow> (time \<times> rat) list \<Rightarrow> bool" where
  "calls_from t cs \<longleftrightarrow> sorted (t # map fst cs) \<and> (\<forall>c \<in> set cs. 0 \<le> snd c)"

lemma allow_all_gain:
  assumes "bucket_ok b" "calls_from (b_last b) cs" "1 \<le> b_capacity b" "b_refill b \<le> 2 ^ 64"
  shows "bucket_ok (fst (allow_all cs b)) \<and>
    snd (allow_all cs b) + b_tokens (fst (allow_all cs b)) \<le>
      b_tokens b + b_refill b * of_int (last (b_last b # map fst cs) - b_last b) / 1000000000 * (1 + 1 / 2 ^ 50)
        + of_nat (length cs) * (b_capacity b / 2 ^ 50)"
  using assms
proof (induction cs arbitrary: b)
  case (Cons c cs)
  obtain now n where c: "c = (now, n)" by (cases c)
  obtain b1 ok where A: "Allow now n b = (b1, ok)" by (cases "Allow now n b")
  have now: "b_last b \<le> now" and n: "0 \<le> n" and later: "calls_from now cs" using Cons.prems(2) c by (auto simp: calls_from_def)
  note step = Allow_ok [OF Cons.prems(1) now n, unfolded A fst_conv]
  have IH: "bucket_ok (fst (allow_all cs b1))"
    "snd (allow_all cs b1) + b_tokens (fst (allow_all cs b1)) \<le>
      b_tokens b1 + b_refill b * of_int (last (now # map fst cs) - now) / 1000000000 * (1 + 1 / 2 ^ 50)
        + of_nat (length cs) * (b_capacity b / 2 ^ 50)"
    using Cons.IH [of b1] step later Cons.prems(3,4) by auto
  have last: "last (b_last b # map fst (c # cs)) = last (now # map fst cs)" by (simp add: c)
  define c0 :: rat where "c0 = 1 + 1 / 2 ^ 50"
  have split: "b_refill b * of_int (last (now # map fst cs) - b_last b) / 1000000000 * c0 =
      b_refill b * of_int (last (now # map fst cs) - now) / 1000000000 * c0 + b_refill b * of_int (now - b_last b) / 1000000000 * c0"
    by (simp add: field_simps)
  have len: "of_nat (length (c # cs)) * (b_capacity b / 2 ^ 50) = b_capacity b / 2 ^ 50 + of_nat (length cs) * (b_capacity b / 2 ^ 50)"
    by (simp add: field_simps)
  obtain b2 g where R: "allow_all cs b1 = (b2, g)" by (cases "allow_all cs b1")
  have total: "allow_all (c # cs) b = (b2, (if ok then n else 0) + g)" by (simp add: c A R)
  show ?case
    using IH Allow_gain [OF Cons.prems(1) now n Cons.prems(3,4)]
    unfolding last len total A R fst_conv snd_conv c0_def [symmetric] split by linarith
qed (simp add: calls_from_def)

section \<open>Properties\<close>

text \<open>C24: The token bucket limits the rate: starting from a bucket within its bounds, any sequence of calls in
  clock order leaves it within its bounds, and the units granted exceed the initial tokens and the
  refill of the elapsed time at most by one part in \<open>2 ^ 50\<close> of the refill, and of the capacity for each call.\<close>

theorem bucket_grant_bound:
  assumes "bucket_ok b" "calls_from (b_last b) cs" "1 \<le> b_capacity b" "b_refill b \<le> 2 ^ 64"
  shows "case allow_all cs b of (b', granted) \<Rightarrow>
    0 \<le> b_tokens b' \<and> b_tokens b' \<le> b_capacity b' \<and>
    granted \<le> b_tokens b + b_refill b * of_int (last (b_last b # map fst cs) - b_last b) / 1000000000 * (1 + 1 / 2 ^ 50)
        + of_nat (length cs) * (b_capacity b / 2 ^ 50)"
  using allow_all_gain [OF assms] by (auto simp: bucket_ok_def split: prod.splits)

lemma main_bucket_ok: "bucket_ok (rate_New t 100 100)"
  using fl64_of_int [of 100] by (simp add: bucket_ok_def rate_New_def)

text \<open>A full bucket grants whatever fits its capacity.\<close>

lemma full_bucket_admits:
  assumes "bucket_ok b" "b_tokens b = b_capacity b" "b_last b \<le> now" "n \<le> b_capacity b"
  shows "snd (Allow now n b)"
proof -
  have "0 \<le> Seconds (time_sub now (b_last b))" using time_sub_nonneg [OF assms(3)] by (intro Seconds_bounds) auto
  then have "0 \<le> fl64 (Seconds (time_sub now (b_last b)) * b_refill b)"
    using assms(1) by (intro fl64_nonneg) (simp add: bucket_ok_def)
  then have "fl64 (b_capacity b) \<le> fl64 (b_tokens b + fl64 (Seconds (time_sub now (b_last b)) * b_refill b))"
    using assms(2) by (intro fl64_mono) simp
  then have "refilled now b = b_capacity b" using assms(1) by (simp add: refilled_def bucket_ok_def)
  then show ?thesis using assms(4) by (simp add: Allow_eq)
qed

text \<open>A bucket with \<open>k + 1\<close> tokens grants one and keeps \<open>k\<close>: the rounding is monotone and exact on integers.\<close>

lemma tokens_admit:
  assumes "bucket_ok b" "b_last b \<le> now" "of_nat (Suc k) \<le> b_tokens b" "int (Suc k) \<le> 2 ^ 53"
  shows "snd (Allow now 1 b)" "of_nat k \<le> b_tokens (fst (Allow now 1 b))"
proof -
  have exact: "fl64 (of_int (int (Suc k))) = of_int (int (Suc k))" "fl64 (of_int (int k)) = of_int (int k)"
    using assms(4) by (intro fl64_of_int; simp)+
  have "0 \<le> Seconds (time_sub now (b_last b))" using time_sub_nonneg [OF assms(2)] by (intro Seconds_bounds) auto
  then have "0 \<le> fl64 (Seconds (time_sub now (b_last b)) * b_refill b)"
    using assms(1) by (intro fl64_nonneg) (simp add: bucket_ok_def)
  then have "fl64 (of_int (int (Suc k))) \<le> fl64 (b_tokens b + fl64 (Seconds (time_sub now (b_last b)) * b_refill b))"
    using assms(3) by (intro fl64_mono) simp
  moreover have "of_nat (Suc k) \<le> b_capacity b" using assms(1,3) by (auto simp: bucket_ok_def)
  ultimately have lvl: "of_nat (Suc k) \<le> refilled now b" using exact(1) by (simp add: refilled_def)
  moreover have "fl64 (of_int (int k)) \<le> fl64 (refilled now b - 1)" using lvl by (intro fl64_mono) simp
  ultimately show "snd (Allow now 1 b)" "of_nat k \<le> b_tokens (fst (Allow now 1 b))"
    using exact(2) by (simp_all add: Allow_eq)
qed

theorem bucket_grant_bound_witness:
  "snd (allow_all [(0, 60), (1000000000, 90), (2000000000, 100)] (rate_New 0 100 100)) \<le>
     100 + 200 * (1 + 1 / 2 ^ 50) + 3 * (100 / 2 ^ 50)"
  using bucket_grant_bound [OF main_bucket_ok [of 0], of "[(0, 60), (1000000000, 90), (2000000000, 100)]"]
  by (simp add: calls_from_def rate_New_def split: prod.splits)

end
