(* ===== verification/Dispatcher.thy ===== *)
theory Dispatcher
  imports Application_Service Circuit_Router Token_Bucket
begin

text \<open>
  The package \<open>internal/worker\<close>: the workers that take notifications from the queue, claim them in the
  store, send them through a provider and record the outcome.  The dispatcher's record has, beside the
  fields of the Go struct, the adapters its router refers to, the pending timers of \<open>time.AfterFunc\<close>
  (delay and notification, which the timer will enqueue) and a log of the calls of \<open>Send\<close>, which no operation reads.

  A delivery is the composition of its segments between two accesses to shared state: \<open>loop_schedule\<close>,
  \<open>deliver_admit\<close>, \<open>deliver_claim\<close>, \<open>deliver_choose\<close>, \<open>deliver_send\<close>, \<open>deliver_record\<close>, \<open>deliver_finish\<close>; \<open>deliver\<close> runs them
  one after the other, and the transition system of the next theory interleaves them between workers.
  The answers of the world to one delivery are a record, with the clock readings and file-system outcomes numbered in the order of the source.
\<close>

section \<open>Data\<close>

record Dispatcher =
  d_Store :: Store
  d_Queue :: Queue
  d_Router :: Router
  d_Limiter :: Bucket
  d_Concurrency :: int
  d_Timeout :: duration
  d_MaxAttempts :: int
  d_Adapters :: adapters
  d_Timers :: "(duration \<times> Notification) list"
  d_Sends :: "(pref \<times> Request) list"

record deliver_env =
  v_clock :: "nat \<Rightarrow> time"
  v_io :: "nat \<Rightarrow> persist_io"
  v_choose :: "nat \<Rightarrow> time"
  v_health :: "nat \<Rightarrow> call_env"
  v_send :: call_env
  v_record :: "Channel \<Rightarrow> nat \<Rightarrow> time"
  v_order :: "Channel list"

definition AfterFunc :: "duration \<Rightarrow> Notification \<Rightarrow> Dispatcher \<Rightarrow> Dispatcher" where
  "AfterFunc delay n d = d\<lparr>d_Timers := d_Timers d @ [(delay, n)]\<rparr>"

text \<open>A timer fires: \<open>func() { _ = d.Queue.Enqueue(n) }\<close>.\<close>

definition timer_fires :: "time \<Rightarrow> nat \<Rightarrow> Dispatcher \<Rightarrow> Dispatcher" where
  "timer_fires now i d =
     (if i < length (d_Timers d)
      then d\<lparr>d_Queue := fst (Enqueue now (snd (d_Timers d ! i)) (d_Queue d)),
             d_Timers := take i (d_Timers d) @ drop (Suc i) (d_Timers d)\<rparr>
      else d)"

definition update_store :: "time \<Rightarrow> persist_io \<Rightarrow> Notification \<Rightarrow> int \<Rightarrow> Dispatcher \<Rightarrow> Dispatcher \<times> go_error option" where
  "update_store now io n version d =
     (let out = Store_Update now io n version (d_Store d) in (d\<lparr>d_Store := fst out\<rparr>, snd out))"

section \<open>Retrying\<close>

text \<open>
  \<^verbatim>\<open>time.Duration(math.Pow(2, float64(n.Attempts))) * 100 * time.Millisecond\<close>: the power is exact, its
  conversion drops the fraction of a negative power, and from \<open>2 ^ 63\<close> on gives the smallest integer, as on
  the amd64 architecture; the products wrap around.
\<close>

definition pow_duration :: "int \<Rightarrow> duration" where
  "pow_duration a = (if a < 0 then 0 else if a < 63 then 2 ^ nat a else min_i64)"

definition backoff :: "int \<Rightarrow> duration" where
  "backoff a = i64 (i64 (pow_duration a * 100) * millisecond)"

definition retry :: "time \<Rightarrow> time \<Rightarrow> persist_io \<Rightarrow> Notification \<Rightarrow> go_error \<Rightarrow> Dispatcher \<Rightarrow> Dispatcher" where
  "retry tt tu io n err d =
     (let n = n\<lparr>n_LastError := err\<rparr>; version = n_Version n in
      if n_Attempts n \<ge> d_MaxAttempts d
      then (case Transition tt StatusFailed n of
              (n, None) \<Rightarrow> fst (update_store tu io n version d)
            | (_, Some _) \<Rightarrow> d)
      else (case Transition tt StatusQueued n of
              (_, Some _) \<Rightarrow> d
            | (n, None) \<Rightarrow> AfterFunc (backoff (n_Attempts n)) n (fst (update_store tu io n version d))))"

section \<open>Delivering\<close>

text \<open>Readings 0 and 1 of the clock: the comparison with the schedule and \<open>time.Until\<close>.\<close>

definition loop_schedule :: "deliver_env \<Rightarrow> Notification \<Rightarrow> Dispatcher \<Rightarrow> Dispatcher \<times> Notification option" where
  "loop_schedule v n d =
     (case n_ScheduleAt n of
        Some t \<Rightarrow>
          if v_clock v 0 < t then (AfterFunc (time_sub t (v_clock v 1)) n d, None) else (d, Some n)
      | None \<Rightarrow> (d, Some n))"

text \<open>The expiry and the limiter.\<close>

definition deliver_admit :: "deliver_env \<Rightarrow> Notification \<Rightarrow> Dispatcher \<Rightarrow> Dispatcher \<times> Notification option" where
  "deliver_admit v n d =
     (if (case n_ExpiresAt n of None \<Rightarrow> False | Some t \<Rightarrow> v_clock v 2 > t)
      then
        let version = n_Version n; n = fst (Transition (v_clock v 3) StatusExpired n)
        in (fst (update_store (v_clock v 4) (v_io v 0) n version d), None)
      else
        let out = Allow (v_clock v 5) 1 (d_Limiter d); d = d\<lparr>d_Limiter := fst out\<rparr>
        in if \<not> snd out then (AfterFunc (Wait 1 (d_Limiter d)) n d, None) else (d, Some n))"

text \<open>The claim: the status becomes processing in the store, or the copy is dropped.\<close>

definition deliver_claim :: "deliver_env \<Rightarrow> Notification \<Rightarrow> Dispatcher \<Rightarrow> Dispatcher \<times> Notification option" where
  "deliver_claim v n d =
     (let version = n_Version n in
      case Transition (v_clock v 6) StatusProcessing n of
        (_, Some _) \<Rightarrow> (d, None)
      | (n, None) \<Rightarrow>
          let out = update_store (v_clock v 7) (v_io v 1) n version d
          in if snd out \<noteq> None then (fst out, None) else (fst out, Some n))"

definition deliver_choose :: "deliver_env \<Rightarrow> Notification \<Rightarrow> Dispatcher \<Rightarrow> Dispatcher \<times> (Notification \<times> pref) option" where
  "deliver_choose v n d =
     (case Choose (v_choose v) (v_health v) (d_Adapters d) (n_Channel n) (d_Router d) of
        (r, Some p, _) \<Rightarrow> (d\<lparr>d_Router := r\<rparr>, Some (n, p))
      | (r, None, err) \<Rightarrow>
          (retry (v_clock v 8) (v_clock v 9) (v_io v 2) n (case err of None \<Rightarrow> [] | Some e \<Rightarrow> e) (d\<lparr>d_Router := r\<rparr>), None))"

definition deliver_send ::
  "deliver_env \<Rightarrow> Notification \<Rightarrow> pref \<Rightarrow> Dispatcher \<Rightarrow> Dispatcher \<times> Notification \<times> Result \<times> go_error option" where
  "deliver_send v n p d =
     (let n = n\<lparr>n_Provider := Name (d_Adapters d p), n_Attempts := i64 (n_Attempts n + 1)\<rparr>;
          rq = \<lparr>rq_Notification = n, rq_Body = n_Body n, rq_Subject = n_Subject n\<rparr>;
          out = Send (v_send v) rq (d_Adapters d p)
      in (d\<lparr>d_Adapters := (d_Adapters d)(p := fst out), d_Sends := d_Sends d @ [(p, rq)]\<rparr>, n, snd out))"

definition deliver_record :: "deliver_env \<Rightarrow> pref \<Rightarrow> go_error option \<Rightarrow> Dispatcher \<Rightarrow> Dispatcher" where
  "deliver_record v p err d = d\<lparr>d_Router := Record (v_record v) (v_order v) (d_Adapters d) p err (d_Router d)\<rparr>"

definition deliver_finish :: "deliver_env \<Rightarrow> Notification \<Rightarrow> Result \<Rightarrow> go_error option \<Rightarrow> Dispatcher \<Rightarrow> Dispatcher" where
  "deliver_finish v n result sendErr d =
     (case sendErr of
        Some e \<Rightarrow> retry (v_clock v 10) (v_clock v 11) (v_io v 3) (n\<lparr>n_LastError := res_ErrorClass result\<rparr>) e d
      | None \<Rightarrow>
          let version = n_Version n; nxt = (if res_Status result = [] then StatusAccepted else res_Status result)
          in (case Transition (v_clock v 10) nxt n of
                (n, None) \<Rightarrow> fst (update_store (v_clock v 11) (v_io v 3) n version d)
              | (_, Some _) \<Rightarrow> d))"

definition deliver :: "deliver_env \<Rightarrow> Notification \<Rightarrow> Dispatcher \<Rightarrow> Dispatcher" where
  "deliver v n d =
     (case deliver_admit v n d of
        (d, None) \<Rightarrow> d
      | (d, Some n) \<Rightarrow>
          (case deliver_claim v n d of
             (d, None) \<Rightarrow> d
           | (d, Some n) \<Rightarrow>
               (case deliver_choose v n d of
                  (d, None) \<Rightarrow> d
                | (d, Some (n, p)) \<Rightarrow>
                    (case deliver_send v n p d of
                       (d, n, result, err) \<Rightarrow> deliver_finish v n result err (deliver_record v p err d)))))"

text \<open>
  One round of the loop of a worker; on an empty queue the worker waits for the context, the wake
  channel or half a second and tries again, so the round changes nothing.
\<close>

definition loop_round :: "deliver_env \<Rightarrow> Dispatcher \<Rightarrow> Dispatcher" where
  "loop_round v d =
     (case Dequeue (d_Queue d) of
        (q, None) \<Rightarrow> d\<lparr>d_Queue := q\<rparr>
      | (q, Some n) \<Rightarrow>
          (case loop_schedule v n (d\<lparr>d_Queue := q\<rparr>) of
             (d, None) \<Rightarrow> d
           | (d, Some n) \<Rightarrow> deliver v n d))"

section \<open>The delay of a retry\<close>

lemma backoff_exact:
  assumes "0 \<le> a" "a \<le> 36"
  shows "backoff a = 2 ^ nat a * (100 * millisecond)"
proof -
  define x :: int where "x = 2 ^ nat a"
  have "x \<le> 2 ^ 36" unfolding x_def using assms by (intro power_increasing) auto
  moreover have "0 < x" by (simp add: x_def)
  ultimately have "in_i64 (x * 100)" "in_i64 (x * 100 * millisecond)"
    by (auto simp: in_i64_def millisecond_def)
  then show ?thesis using assms by (simp add: backoff_def pow_duration_def x_def [symmetric] mult.assoc)
qed

text \<open>From the 37th attempt on the product leaves the range and the delay is negative, so the timer fires at once.\<close>

lemma backoff_overflow: "backoff 37 < 0"
  by (simp add: backoff_def pow_duration_def i64_def millisecond_def)

section \<open>A delivery that succeeds\<close>

lemma update_store_ok:
  assumes "s_Notifications (st_data (d_Store d)) (n_ID n) = Some old" "n_Version old = e"
  shows "update_store now IoOk n e d = (d\<lparr>d_Store := fst (Store_Update now IoOk n e (d_Store d))\<rparr>, None)"
    "st_data (d_Store (fst (update_store now IoOk n e d))) = update_data now n (st_data (d_Store d))"
  using assms by (simp_all add: update_store_def Let_def Store_Update_def) (simp add: persistLocked_cases)

lemma Timeline_update: "map ev_Status (events_of (update_data now n d) (n_ID n)) = map ev_Status (events_of d (n_ID n)) @ [n_Status n]"
  by (simp add: events_of_update_data events_of_addEvent)

lemma deliver_claim_ok:
  assumes "s_Notifications (st_data (d_Store d)) (n_ID n) = Some old" "n_Version old = n_Version n" "n_Status n = StatusQueued" "v_io v 1 = IoOk"
  shows "\<exists>d' n'. deliver_claim v n d = (d', Some n') \<and>
     n' = n\<lparr>n_Status := StatusProcessing, n_Version := i64 (n_Version n + 1), n_UpdatedAt := v_clock v 6\<rparr> \<and>
     d' = d\<lparr>d_Store := d_Store d'\<rparr> \<and> st_data (d_Store d') = update_data (v_clock v 7) n' (st_data (d_Store d))"
proof -
  let ?n = "n\<lparr>n_Status := StatusProcessing, n_Version := i64 (n_Version n + 1), n_UpdatedAt := v_clock v 6\<rparr>"
  have T: "Transition (v_clock v 6) StatusProcessing n = (?n, None)" using assms(3) by (simp add: Transition_def allowed_def)
  have "s_Notifications (st_data (d_Store d)) (n_ID ?n) = Some old" using assms(1) by simp
  note U = update_store_ok [OF this assms(2), of "v_clock v 7"]
  have "deliver_claim v n d = (fst (update_store (v_clock v 7) IoOk ?n (n_Version n) d), Some ?n)"
    using U(1) assms(4) by (simp add: deliver_claim_def T Let_def)
  then show ?thesis using U(2) by (intro exI [of _ "fst (update_store (v_clock v 7) IoOk ?n (n_Version n) d)"] exI [of _ ?n]) (simp add: U(1))
qed

lemma deliver_finish_ok:
  assumes "s_Notifications (st_data (d_Store d)) (n_ID n) = Some old" "n_Version old = n_Version n" "n_Status n = StatusProcessing" "v_io v 3 = IoOk"
    and "res_Status result = StatusAccepted"
  shows "\<exists>n'. n' = n\<lparr>n_Status := StatusAccepted, n_Version := i64 (n_Version n + 1), n_UpdatedAt := v_clock v 10\<rparr> \<and>
     deliver_finish v n result None d = d\<lparr>d_Store := d_Store (deliver_finish v n result None d)\<rparr> \<and>
     st_data (d_Store (deliver_finish v n result None d)) = update_data (v_clock v 11) n' (st_data (d_Store d))"
proof -
  let ?n = "n\<lparr>n_Status := StatusAccepted, n_Version := i64 (n_Version n + 1), n_UpdatedAt := v_clock v 10\<rparr>"
  have T: "Transition (v_clock v 10) StatusAccepted n = (?n, None)" using assms(3) by (simp add: Transition_def allowed_def)
  have "s_Notifications (st_data (d_Store d)) (n_ID ?n) = Some old" using assms(1) by simp
  note U = update_store_ok [OF this assms(2), of "v_clock v 11"]
  show ?thesis using U by (simp add: deliver_finish_def T Let_def assms(4,5))
qed

definition expired_at :: "time \<Rightarrow> Notification \<Rightarrow> bool" where
  "expired_at now n = (case n_ExpiresAt n of None \<Rightarrow> False | Some t \<Rightarrow> now > t)"

text \<open>The way of a delivery to the call of the provider.\<close>

lemma deliver_reaches_send:
  assumes stored: "s_Notifications (st_data (d_Store d)) (n_ID n) = Some n" "n_Status n = StatusQueued"
    and go: "\<not> expired_at (v_clock v 2) n" "snd (Allow (v_clock v 5) 1 (d_Limiter d))" "v_io v 1 = IoOk"
    and chosen: "fst (snd (Choose (v_choose v) (v_health v) (d_Adapters d) (n_Channel n) (d_Router d))) = Some p"
  obtains n2 d4 n4 result err where
    "deliver v n d = deliver_finish v n4 result err d4"
    "n2 = n\<lparr>n_Status := StatusProcessing, n_Version := i64 (n_Version n + 1), n_UpdatedAt := v_clock v 6\<rparr>"
    "n4 = n2\<lparr>n_Provider := Name (d_Adapters d p), n_Attempts := i64 (n_Attempts n2 + 1)\<rparr>"
    "(result, err) = snd (Send (v_send v) \<lparr>rq_Notification = n4, rq_Body = n_Body n4, rq_Subject = n_Subject n4\<rparr> (d_Adapters d p))"
    "st_data (d_Store d4) = update_data (v_clock v 7) n2 (st_data (d_Store d))"
    "d_Queue d4 = d_Queue d" "d_Timers d4 = d_Timers d" "d_MaxAttempts d4 = d_MaxAttempts d"
    "d_Sends d4 = d_Sends d @ [(p, \<lparr>rq_Notification = n4, rq_Body = n_Body n4, rq_Subject = n_Subject n4\<rparr>)]"
    "d_Limiter d4 = fst (Allow (v_clock v 5) 1 (d_Limiter d))"
    "d_Adapters d4 = (d_Adapters d)(p := fst (Send (v_send v) \<lparr>rq_Notification = n4, rq_Body = n_Body n4, rq_Subject = n_Subject n4\<rparr> (d_Adapters d p)))"
    "d_Router d4 = Record (v_record v) (v_order v) (d_Adapters d4) p err (fst (Choose (v_choose v) (v_health v) (d_Adapters d) (n_Channel n) (d_Router d)))"
proof -
  define d1 where "d1 = d\<lparr>d_Limiter := fst (Allow (v_clock v 5) 1 (d_Limiter d))\<rparr>"
  have A: "deliver_admit v n d = (d1, Some n)" using go(1,2) by (simp add: deliver_admit_def expired_at_def Let_def d1_def)
  have "s_Notifications (st_data (d_Store d1)) (n_ID n) = Some n" using stored(1) by (simp add: d1_def)
  then obtain d2 n2 where C: "deliver_claim v n d1 = (d2, Some n2)"
    "n2 = n\<lparr>n_Status := StatusProcessing, n_Version := i64 (n_Version n + 1), n_UpdatedAt := v_clock v 6\<rparr>"
    "d2 = d1\<lparr>d_Store := d_Store d2\<rparr>" "st_data (d_Store d2) = update_data (v_clock v 7) n2 (st_data (d_Store d1))"
    using deliver_claim_ok [OF _ refl stored(2) go(3)] by blast
  have parts: "d_Adapters d2 = d_Adapters d" "d_Router d2 = d_Router d" "d_Sends d2 = d_Sends d" "d_Queue d2 = d_Queue d" "d_Timers d2 = d_Timers d"
    "d_MaxAttempts d2 = d_MaxAttempts d" "d_Limiter d2 = d_Limiter d1"
    by (subst C(3), simp add: d1_def)+
  define d3 where "d3 = d2\<lparr>d_Router := fst (Choose (v_choose v) (v_health v) (d_Adapters d) (n_Channel n) (d_Router d))\<rparr>"
  have "n_Channel n2 = n_Channel n" by (simp add: C(2))
  then have H: "deliver_choose v n2 d2 = (d3, Some (n2, p))"
    using chosen by (auto simp: deliver_choose_def parts d3_def split: prod.splits option.splits)
  obtain d4 n4 result err where S: "deliver_send v n2 p d3 = (d4, n4, result, err)" by (metis prod_cases4)
  have "deliver v n d = deliver_finish v n4 result err (deliver_record v p err d4)" by (simp add: deliver_def A C(1) H S)
  from this C(2) show thesis
    by (rule that) (use S C(4) in \<open>auto simp: deliver_send_def deliver_record_def Let_def d3_def d1_def parts prod_eq_iff\<close>)
qed

text \<open>A delivery whose provider accepts, and everything it leaves behind.\<close>

lemma deliver_accepted:
  assumes stored: "s_Notifications (st_data (d_Store d)) (n_ID n) = Some n" "n_Status n = StatusQueued"
    and go: "\<not> expired_at (v_clock v 2) n" "snd (Allow (v_clock v 5) 1 (d_Limiter d))" "v_io v 1 = IoOk" "v_io v 3 = IoOk"
    and chosen: "fst (snd (Choose (v_choose v) (v_health v) (d_Adapters d) (n_Channel n) (d_Router d))) = Some p"
    and sends: "\<And>rq. snd (snd (Send (v_send v) rq (d_Adapters d p))) = None"
  obtains m rq where
    "s_Notifications (st_data (d_Store (deliver v n d))) = (s_Notifications (st_data (d_Store d)))(n_ID n \<mapsto> m)"
    "n_Status m = StatusAccepted" "n_Provider m = Name (d_Adapters d p)" "n_Attempts m = i64 (n_Attempts n + 1)"
    "map ev_Status (Timeline (n_ID n) (d_Store (deliver v n d))) = map ev_Status (Timeline (n_ID n) (d_Store d)) @ [StatusProcessing, StatusAccepted]"
    "d_Sends (deliver v n d) = d_Sends d @ [(p, rq)]" "n_ID (rq_Notification rq) = n_ID n" "rq_Body rq = n_Body n" "rq_Subject rq = n_Subject n"
    "d_Queue (deliver v n d) = d_Queue d" "d_Timers (deliver v n d) = d_Timers d"
    "d_Limiter (deliver v n d) = fst (Allow (v_clock v 5) 1 (d_Limiter d))"
    "d_Adapters (deliver v n d) = (d_Adapters d)(p := fst (Send (v_send v) rq (d_Adapters d p)))"
    "d_Router (deliver v n d) = Record (v_record v) (v_order v) (d_Adapters (deliver v n d)) p None
       (fst (Choose (v_choose v) (v_health v) (d_Adapters d) (n_Channel n) (d_Router d)))"
proof -
  obtain n2 d4 n4 result err where R: "deliver v n d = deliver_finish v n4 result err d4"
    "n2 = n\<lparr>n_Status := StatusProcessing, n_Version := i64 (n_Version n + 1), n_UpdatedAt := v_clock v 6\<rparr>"
    "n4 = n2\<lparr>n_Provider := Name (d_Adapters d p), n_Attempts := i64 (n_Attempts n2 + 1)\<rparr>"
    "(result, err) = snd (Send (v_send v) \<lparr>rq_Notification = n4, rq_Body = n_Body n4, rq_Subject = n_Subject n4\<rparr> (d_Adapters d p))"
    "st_data (d_Store d4) = update_data (v_clock v 7) n2 (st_data (d_Store d))"
    "d_Queue d4 = d_Queue d" "d_Timers d4 = d_Timers d" "d_MaxAttempts d4 = d_MaxAttempts d"
    "d_Sends d4 = d_Sends d @ [(p, \<lparr>rq_Notification = n4, rq_Body = n_Body n4, rq_Subject = n_Subject n4\<rparr>)]"
    "d_Limiter d4 = fst (Allow (v_clock v 5) 1 (d_Limiter d))"
    "d_Adapters d4 = (d_Adapters d)(p := fst (Send (v_send v) \<lparr>rq_Notification = n4, rq_Body = n_Body n4, rq_Subject = n_Subject n4\<rparr> (d_Adapters d p)))"
    "d_Router d4 = Record (v_record v) (v_order v) (d_Adapters d4) p err (fst (Choose (v_choose v) (v_health v) (d_Adapters d) (n_Channel n) (d_Router d)))"
    by (rule deliver_reaches_send [OF stored go(1-3) chosen])
  have s4: "err = None" "res_Status result = StatusAccepted"
    using R(4) sends adapter.accepted_iff by (auto simp: prod_eq_iff)
  have "s_Notifications (st_data (d_Store d4)) (n_ID n4) = Some n2" "n_Version n2 = n_Version n4" "n_Status n4 = StatusProcessing"
    by (simp_all add: R(2,3,5))
  then obtain n6 where F: "n6 = n4\<lparr>n_Status := StatusAccepted, n_Version := i64 (n_Version n4 + 1), n_UpdatedAt := v_clock v 10\<rparr>"
     "deliver_finish v n4 result None d4 = d4\<lparr>d_Store := d_Store (deliver_finish v n4 result None d4)\<rparr>"
     "st_data (d_Store (deliver_finish v n4 result None d4)) = update_data (v_clock v 11) n6 (st_data (d_Store d4))"
    using deliver_finish_ok [OF _ _ _ go(4) s4(2)] by blast
  have D: "deliver v n d = deliver_finish v n4 result None d4" by (simp add: R(1) s4(1))
  have data: "st_data (d_Store (deliver v n d)) = update_data (v_clock v 11) n6 (update_data (v_clock v 7) n2 (st_data (d_Store d)))"
    using F(3) R(5) by (simp add: D)
  have ids: "n_ID n6 = n_ID n" "n_ID n2 = n_ID n" by (simp_all add: F(1) R(2,3))
  have tl: "map ev_Status (Timeline (n_ID n) (d_Store (deliver v n d))) = map ev_Status (Timeline (n_ID n) (d_Store d)) @ [StatusProcessing, StatusAccepted]"
    using Timeline_update [of "v_clock v 11" n6] Timeline_update [of "v_clock v 7" n2] ids
    by (simp add: Timeline_def data) (simp add: F(1) R(2,3))
  have rest: "d_Queue (deliver v n d) = d_Queue d" "d_Timers (deliver v n d) = d_Timers d" "d_Sends (deliver v n d) = d_Sends d4"
    "d_Limiter (deliver v n d) = d_Limiter d4" "d_Adapters (deliver v n d) = d_Adapters d4" "d_Router (deliver v n d) = d_Router d4"
    unfolding D by (subst F(2), simp add: R(6,7))+
  show thesis
    by (rule that [of n6 "\<lparr>rq_Notification = n4, rq_Body = n_Body n4, rq_Subject = n_Subject n4\<rparr>"])
      (use data ids tl rest R(9-12) s4(1) in \<open>simp_all add: F(1) R(2,3)\<close>)
qed

lemma deliver_success:
  assumes stored: "s_Notifications (st_data (d_Store d)) (n_ID n) = Some n" "n_Status n = StatusQueued"
    and go: "\<not> expired_at (v_clock v 2) n" "snd (Allow (v_clock v 5) 1 (d_Limiter d))" "v_io v 1 = IoOk" "v_io v 3 = IoOk"
    and chosen: "fst (snd (Choose (v_choose v) (v_health v) (d_Adapters d) (n_Channel n) (d_Router d))) = Some p"
    and sends: "\<And>rq. snd (snd (Send (v_send v) rq (d_Adapters d p))) = None"
  shows "let d' = deliver v n d in
     (\<exists>m. Store_Get (n_ID n) (d_Store d') = (m, None) \<and> n_Status m = StatusAccepted \<and> n_Provider m = Name (d_Adapters d p) \<and>
        n_Attempts m = i64 (n_Attempts n + 1)) \<and>
     map ev_Status (Timeline (n_ID n) (d_Store d')) = map ev_Status (Timeline (n_ID n) (d_Store d)) @ [StatusProcessing, StatusAccepted] \<and>
     (\<exists>rq. d_Sends d' = d_Sends d @ [(p, rq)] \<and> n_ID (rq_Notification rq) = n_ID n \<and> rq_Body rq = n_Body n \<and> rq_Subject rq = n_Subject n) \<and>
     d_Queue d' = d_Queue d \<and> d_Timers d' = d_Timers d"
  by (rule deliver_accepted [OF assms]) (auto simp: Let_def Store_Get_def)

section \<open>A delivery that fails\<close>

text \<open>What no operation of a delivery changes of a notification.\<close>

definition same_route :: "Notification \<Rightarrow> Notification \<Rightarrow> bool" where
  "same_route m n \<longleftrightarrow> n_ID m = n_ID n \<and> n_Channel m = n_Channel n \<and> n_ScheduleAt m = n_ScheduleAt n \<and> n_ExpiresAt m = n_ExpiresAt n"

lemma same_route_refl [simp]: "same_route n n"
  by (simp add: same_route_def)

lemma same_route_trans: "same_route a b \<Longrightarrow> same_route b c \<Longrightarrow> same_route a c"
  by (simp add: same_route_def)

text \<open>\<open>retry\<close> of a claimed copy that is still the stored one.\<close>

lemma retry_current:
  assumes "s_Notifications (st_data (d_Store d)) (n_ID n) = Some old" "n_Version old = n_Version n" "n_Status n = StatusProcessing"
  shows "let d' = retry tt tu io n err d in
     \<exists>m. s_Notifications (st_data (d_Store d')) = (s_Notifications (st_data (d_Store d)))(n_ID n \<mapsto> m) \<and>
       n_LastError m = err \<and> n_Attempts m = n_Attempts n \<and> n_Provider m = n_Provider n \<and> same_route m n \<and>
       d_Queue d' = d_Queue d \<and> d_Sends d' = d_Sends d \<and> d_MaxAttempts d' = d_MaxAttempts d \<and>
       (if d_MaxAttempts d \<le> n_Attempts n then n_Status m = StatusFailed \<and> d_Timers d' = d_Timers d
        else n_Status m = StatusQueued \<and> d_Timers d' = d_Timers d @ [(backoff (n_Attempts n), m)])"
proof -
  define st where "st = (if d_MaxAttempts d \<le> n_Attempts n then StatusFailed else StatusQueued)"
  let ?m = "n\<lparr>n_LastError := err, n_Status := st, n_Version := i64 (n_Version n + 1), n_UpdatedAt := tt\<rparr>"
  have T: "Transition tt st (n\<lparr>n_LastError := err\<rparr>) = (?m, None)"
    using assms(3) by (simp add: Transition_def allowed_def st_def)
  have U: "s_Notifications (st_data (d_Store (fst (update_store tu io ?m (n_Version n) d)))) = (s_Notifications (st_data (d_Store d)))(n_ID n \<mapsto> ?m)"
    using assms(1,2) by (simp add: update_store_def Store_Update_def Let_def)
  have fr: "d_Queue (fst (update_store tu io ?m (n_Version n) d)) = d_Queue d" "d_Sends (fst (update_store tu io ?m (n_Version n) d)) = d_Sends d"
    "d_Timers (fst (update_store tu io ?m (n_Version n) d)) = d_Timers d" "d_MaxAttempts (fst (update_store tu io ?m (n_Version n) d)) = d_MaxAttempts d"
    by (simp_all add: update_store_def Let_def)
  show ?thesis using T U fr unfolding st_def retry_def by (auto simp: Let_def AfterFunc_def same_route_def)
qed

lemma deliver_failed:
  assumes stored: "s_Notifications (st_data (d_Store d)) (n_ID n) = Some n" "n_Status n = StatusQueued"
    and go: "\<not> expired_at (v_clock v 2) n" "snd (Allow (v_clock v 5) 1 (d_Limiter d))" "v_io v 1 = IoOk"
    and chosen: "fst (snd (Choose (v_choose v) (v_health v) (d_Adapters d) (n_Channel n) (d_Router d))) = Some p"
    and fails: "\<And>rq. snd (snd (Send (v_send v) rq (d_Adapters d p))) \<noteq> None"
  obtains m rq where
    "s_Notifications (st_data (d_Store (deliver v n d))) = (s_Notifications (st_data (d_Store d)))(n_ID n \<mapsto> m)"
    "snd (snd (Send (v_send v) rq (d_Adapters d p))) = Some (n_LastError m)"
    "n_Attempts m = i64 (n_Attempts n + 1)" "n_Provider m = Name (d_Adapters d p)" "same_route m n"
    "d_Queue (deliver v n d) = d_Queue d" "d_Sends (deliver v n d) = d_Sends d @ [(p, rq)]" "n_ID (rq_Notification rq) = n_ID n"
    "d_MaxAttempts (deliver v n d) = d_MaxAttempts d"
    "if d_MaxAttempts d \<le> n_Attempts m then n_Status m = StatusFailed \<and> d_Timers (deliver v n d) = d_Timers d
     else n_Status m = StatusQueued \<and> d_Timers (deliver v n d) = d_Timers d @ [(backoff (n_Attempts m), m)]"
proof -
  obtain n2 d4 n4 result err where R: "deliver v n d = deliver_finish v n4 result err d4"
    "n2 = n\<lparr>n_Status := StatusProcessing, n_Version := i64 (n_Version n + 1), n_UpdatedAt := v_clock v 6\<rparr>"
    "n4 = n2\<lparr>n_Provider := Name (d_Adapters d p), n_Attempts := i64 (n_Attempts n2 + 1)\<rparr>"
    "(result, err) = snd (Send (v_send v) \<lparr>rq_Notification = n4, rq_Body = n_Body n4, rq_Subject = n_Subject n4\<rparr> (d_Adapters d p))"
    "st_data (d_Store d4) = update_data (v_clock v 7) n2 (st_data (d_Store d))"
    "d_Queue d4 = d_Queue d" "d_Timers d4 = d_Timers d" "d_MaxAttempts d4 = d_MaxAttempts d"
    "d_Sends d4 = d_Sends d @ [(p, \<lparr>rq_Notification = n4, rq_Body = n_Body n4, rq_Subject = n_Subject n4\<rparr>)]"
    by (rule deliver_reaches_send [OF stored go chosen]) blast
  let ?n = "n4\<lparr>n_LastError := res_ErrorClass result\<rparr>" and ?rq = "\<lparr>rq_Notification = n4, rq_Body = n_Body n4, rq_Subject = n_Subject n4\<rparr>"
  have err: "snd (snd (Send (v_send v) ?rq (d_Adapters d p))) = err" using R(4) by (auto simp: prod_eq_iff)
  then obtain e where e: "err = Some e" using fails [of ?rq] by auto
  then have D: "deliver v n d = retry (v_clock v 10) (v_clock v 11) (v_io v 3) ?n e d4" by (simp add: R(1) deliver_finish_def)
  have n4: "n_ID ?n = n_ID n" "n_Attempts ?n = i64 (n_Attempts n + 1)" "n_Provider ?n = Name (d_Adapters d p)" "same_route ?n n"
    by (simp_all add: R(2,3) same_route_def)
  have st4: "s_Notifications (st_data (d_Store d4)) (n_ID ?n) = Some n2" "n_Version n2 = n_Version ?n" "n_Status ?n = StatusProcessing"
    "s_Notifications (st_data (d_Store d4)) = (s_Notifications (st_data (d_Store d)))(n_ID n \<mapsto> n2)"
    by (simp_all add: R(2,3,5))
  from retry_current [OF st4(1-3), of "v_clock v 10" "v_clock v 11" "v_io v 3" e] obtain m where
    "s_Notifications (st_data (d_Store (deliver v n d))) = (s_Notifications (st_data (d_Store d4)))(n_ID n \<mapsto> m)"
    "n_LastError m = e" "n_Attempts m = n_Attempts ?n" "n_Provider m = n_Provider ?n" "same_route m ?n"
    "d_Queue (deliver v n d) = d_Queue d4" "d_Sends (deliver v n d) = d_Sends d4" "d_MaxAttempts (deliver v n d) = d_MaxAttempts d4"
    "if d_MaxAttempts d4 \<le> n_Attempts ?n then n_Status m = StatusFailed \<and> d_Timers (deliver v n d) = d_Timers d4
     else n_Status m = StatusQueued \<and> d_Timers (deliver v n d) = d_Timers d4 @ [(backoff (n_Attempts ?n), m)]"
    unfolding D Let_def n4(1) by blast
  then show thesis
    using n4 st4(4) err e same_route_trans [OF _ n4(4)] by (intro that [of m ?rq]) (simp_all add: R(2,3,6-9))
qed

text \<open>A delivery that finds no provider: the claimed copy goes back and no attempt is counted.\<close>

lemma deliver_unroutable:
  assumes stored: "s_Notifications (st_data (d_Store d)) (n_ID n) = Some n" "n_Status n = StatusQueued" "n_Attempts n < d_MaxAttempts d"
    and go: "\<not> expired_at (v_clock v 2) n" "snd (Allow (v_clock v 5) 1 (d_Limiter d))" "v_io v 1 = IoOk"
    and none: "fst (snd (Choose (v_choose v) (v_health v) (d_Adapters d) (n_Channel n) (d_Router d))) = None"
  obtains m where
    "s_Notifications (st_data (d_Store (deliver v n d))) = (s_Notifications (st_data (d_Store d)))(n_ID n \<mapsto> m)"
    "n_Status m = StatusQueued" "n_Attempts m = n_Attempts n" "same_route m n" "d_Queue (deliver v n d) = d_Queue d"
    "d_Sends (deliver v n d) = d_Sends d" "d_MaxAttempts (deliver v n d) = d_MaxAttempts d"
    "d_Timers (deliver v n d) = d_Timers d @ [(backoff (n_Attempts n), m)]"
proof -
  define d1 where "d1 = d\<lparr>d_Limiter := fst (Allow (v_clock v 5) 1 (d_Limiter d))\<rparr>"
  have A: "deliver_admit v n d = (d1, Some n)" using go(1,2) by (simp add: deliver_admit_def expired_at_def Let_def d1_def)
  have "s_Notifications (st_data (d_Store d1)) (n_ID n) = Some n" using stored(1) by (simp add: d1_def)
  then obtain d2 n2 where C: "deliver_claim v n d1 = (d2, Some n2)"
    "n2 = n\<lparr>n_Status := StatusProcessing, n_Version := i64 (n_Version n + 1), n_UpdatedAt := v_clock v 6\<rparr>"
    "d2 = d1\<lparr>d_Store := d_Store d2\<rparr>" "st_data (d_Store d2) = update_data (v_clock v 7) n2 (st_data (d_Store d1))"
    using deliver_claim_ok [OF _ refl stored(2) go(3)] by blast
  have parts: "d_Adapters d2 = d_Adapters d" "d_Router d2 = d_Router d" "d_Sends d2 = d_Sends d" "d_Queue d2 = d_Queue d" "d_Timers d2 = d_Timers d"
    "d_MaxAttempts d2 = d_MaxAttempts d"
    by (subst C(3), simp add: d1_def)+
  obtain r err where H: "Choose (v_choose v) (v_health v) (d_Adapters d2) (n_Channel n2) (d_Router d2) = (r, None, err)"
    using none by (auto simp: parts C(2) prod_eq_iff)
  let ?d = "d2\<lparr>d_Router := r\<rparr>" and ?e = "case err of None \<Rightarrow> [] | Some e \<Rightarrow> e"
  have D: "deliver v n d = retry (v_clock v 8) (v_clock v 9) (v_io v 2) n2 ?e ?d"
    by (simp add: deliver_def A C(1) deliver_choose_def H)
  have "s_Notifications (st_data (d_Store ?d)) (n_ID n2) = Some n2" "n_Status n2 = StatusProcessing" by (simp_all add: C(4)) (simp add: C(2))
  from retry_current [OF this(1) refl this(2), of "v_clock v 8" "v_clock v 9" "v_io v 2" ?e] stored(3) obtain m where
    "s_Notifications (st_data (d_Store (deliver v n d))) = (s_Notifications (st_data (d_Store ?d)))(n_ID n2 \<mapsto> m)"
    "n_Attempts m = n_Attempts n2" "same_route m n2" "d_Queue (deliver v n d) = d_Queue ?d" "d_Sends (deliver v n d) = d_Sends ?d"
    "d_MaxAttempts (deliver v n d) = d_MaxAttempts ?d" "n_Status m = StatusQueued" "d_Timers (deliver v n d) = d_Timers ?d @ [(backoff (n_Attempts n2), m)]"
    unfolding D Let_def by (auto simp: C(2) parts split: if_splits)
  then show thesis by (intro that [of m]) (simp_all add: C(4) parts, simp_all add: C(2) d1_def same_route_def)
qed

text \<open>C8: When the chosen provider reports an error, the notification is sent once and its attempt counted, and the stored notification has
  the error.  If the attempts have reached the maximum it is failed and nothing is left to do; otherwise
  it is waiting again, and a timer holds the stored copy for the exponential delay of this attempt.\<close>

theorem deliver_failure:
  assumes stored: "s_Notifications (st_data (d_Store d)) (n_ID n) = Some n" "n_Status n = StatusQueued"
    and go: "\<not> expired_at (v_clock v 2) n" "snd (Allow (v_clock v 5) 1 (d_Limiter d))" "v_io v 1 = IoOk"
    and chosen: "fst (snd (Choose (v_choose v) (v_health v) (d_Adapters d) (n_Channel n) (d_Router d))) = Some p"
    and fails: "\<And>rq. snd (snd (Send (v_send v) rq (d_Adapters d p))) = Some e"
  shows "let d' = deliver v n d; attempts = i64 (n_Attempts n + 1) in
     \<exists>m. Store_Get (n_ID n) (d_Store d') = (m, None) \<and> n_LastError m = e \<and> n_Attempts m = attempts \<and> n_Provider m = Name (d_Adapters d p) \<and>
       d_Queue d' = d_Queue d \<and> length (d_Sends d') = length (d_Sends d) + 1 \<and>
       (if d_MaxAttempts d \<le> attempts then n_Status m = StatusFailed \<and> d_Timers d' = d_Timers d
        else n_Status m = StatusQueued \<and> d_Timers d' = d_Timers d @ [(backoff attempts, m)])"
  by (rule deliver_failed [OF stored go chosen]) (auto simp: fails Let_def Store_Get_def)

section \<open>Samples\<close>

text \<open>The dispatcher of \<open>main.go\<close> with one mock provider for email, holding the sample notification.\<close>

definition queued_sample :: Notification where
  "queued_sample = sample_notification\<lparr>n_ID := ''n1'', n_Status := StatusQueued, n_Version := 1\<rparr>"

definition sample_dispatcher :: Dispatcher where
  "sample_dispatcher = \<lparr>d_Store = sample_store, d_Queue = Queue_New 10, d_Router = sample_router, d_Limiter = rate_New 0 100 100,
     d_Concurrency = 1, d_Timeout = 3 * second, d_MaxAttempts = 5, d_Adapters = sample_adapters, d_Timers = [], d_Sends = []\<rparr>"

definition sample_deliver_env :: deliver_env where
  "sample_deliver_env = \<lparr>v_clock = (\<lambda>i. 20 + int i), v_io = (\<lambda>_. IoOk), v_choose = (\<lambda>_. 30), v_health = (\<lambda>_. sample_env),
     v_send = sample_env, v_record = (\<lambda>_ _. 31), v_order = [ChannelEmail]\<rparr>"

lemma sample_store_n1: "s_Notifications (st_data sample_store) = [''n1'' \<mapsto> queued_sample]"
  by (simp add: sample_store_def Store_Create_new empty_snapshot_def queued_sample_def)

lemma sample_choose:
  "fst (snd (Choose clock env ps ChannelEmail sample_router)) = Some 0"
  by (simp add: Choose_def candidates_def sample_router_providers choose_loop_Cons usable_def cooling_def Let_def)

lemma sample_sends: "snd (snd (Send sample_env rq (sample_adapters p))) = None"
  by (simp add: sample_adapters_def Mock_Send_def sample_mock_def sample_env_def i64_def Let_def)

definition failing_adapters :: adapters where
  "failing_adapters _ = MockProvider (sample_mock\<lparr>m_Failures := 3\<rparr>)"

lemma failing_sends: "snd (snd (Send sample_env rq (failing_adapters p))) = Some ''provider temporary failure''"
  by (simp add: failing_adapters_def Mock_Send_def sample_mock_def sample_env_def i64_def Let_def)

lemma sample_ready:
  "s_Notifications (st_data (d_Store sample_dispatcher)) (n_ID queued_sample) = Some queued_sample" "n_Status queued_sample = StatusQueued"
  "\<not> expired_at (v_clock sample_deliver_env 2) queued_sample" "snd (Allow (v_clock sample_deliver_env 5) 1 (d_Limiter sample_dispatcher))"
  "n_ID queued_sample = ''n1''" "n_Channel queued_sample = ChannelEmail" "n_Attempts queued_sample = 0"
proof -
  have "snd (Allow 25 1 (rate_New 0 100 100))"
    by (rule full_bucket_admits [OF main_bucket_ok]) (simp_all add: rate_New_def)
  then show "snd (Allow (v_clock sample_deliver_env 5) 1 (d_Limiter sample_dispatcher))"
    by (simp add: sample_deliver_env_def sample_dispatcher_def)
qed (simp_all add: queued_sample_def sample_notification_def empty_Notification_def expired_at_def sample_dispatcher_def
    sample_store_n1 [unfolded queued_sample_def sample_notification_def empty_Notification_def])

theorem deliver_failure_witness:
  "let d' = deliver sample_deliver_env queued_sample (sample_dispatcher\<lparr>d_Adapters := failing_adapters\<rparr>) in
     n_Status (fst (Store_Get ''n1'' (d_Store d'))) = StatusQueued \<and> map fst (d_Timers d') = [200 * millisecond]"
proof -
  let ?d = "sample_dispatcher\<lparr>d_Adapters := failing_adapters\<rparr>"
  have "fst (snd (Choose (v_choose sample_deliver_env) (v_health sample_deliver_env) (d_Adapters ?d) (n_Channel queued_sample) (d_Router ?d))) = Some 0"
    using sample_choose sample_ready(6) by (simp add: sample_dispatcher_def)
  moreover have "snd (snd (Send (v_send sample_deliver_env) rq (d_Adapters ?d 0))) = Some ''provider temporary failure''" for rq
    by (simp add: sample_deliver_env_def failing_sends)
  moreover have "v_io sample_deliver_env 1 = IoOk" by (simp add: sample_deliver_env_def)
  ultimately show ?thesis
    using deliver_failure [of ?d queued_sample sample_deliver_env 0 "''provider temporary failure''"] sample_ready
    by (auto simp: Let_def backoff_exact i64_def sample_dispatcher_def)
qed

end
