(* ===== verification/Receipt_Service.thy ===== *)
theory Receipt_Service
  imports Store_Repository
begin

text \<open>
  The package \<open>internal/receipt\<close>: checking a provider's delivery receipt, building its key and
  recording it in the store.
\<close>

record ReceiptEvent =
  re_Provider :: string
  re_NotificationID :: string
  re_ExternalID :: string
  re_Sequence :: int
  re_Status :: Status
  re_OccurredAt :: time

definition formatSeq :: "int \<Rightarrow> string" where
  "formatSeq n = prepend_digits n []"

definition receipt_key :: "ReceiptEvent \<Rightarrow> string" where
  "receipt_key e = re_Provider e @ '':'' @ re_ExternalID e @ '':'' @ formatSeq (re_Sequence e)"

definition receipt_statuses :: "Status list" where
  "receipt_statuses = [StatusAccepted, StatusSent, StatusDelivered, StatusBounced, StatusComplained, StatusFailed]"

definition Ingest :: "time \<Rightarrow> persist_io \<Rightarrow> ReceiptEvent \<Rightarrow> Store \<Rightarrow> Store \<times> bool \<times> go_error option" where
  "Ingest now io e s =
     (if re_Provider e = [] \<or> re_NotificationID e = [] \<or> re_Sequence e \<le> 0
      then (s, False, Some ''provider, notification_id and positive sequence required'')
      else if re_Status e \<notin> set receipt_statuses then (s, False, Some ''unsupported receipt status'')
      else case Store_Get (re_NotificationID e) s of
        (_, Some err) \<Rightarrow> (s, False, Some err)
      | (_, None) \<Rightarrow>
          (let key = receipt_key e;
               r = RecordReceipt now io key
                 \<lparr>ev_ID = key, ev_NotificationID = re_NotificationID e, ev_Status = re_Status e,
                  ev_Provider = re_Provider e, ev_Sequence = re_Sequence e, ev_OccurredAt = re_OccurredAt e,
                  ev_Metadata = []\<rparr> s
           in (fst r, snd r, None)))"

section \<open>Keys\<close>

lemma formatSeq_no_colon: "CHR '':'' \<notin> set (formatSeq n)"
  using prepend_digits_digits [of "[]" n] by (auto simp: formatSeq_def list_all_iff is_digit_def)

lemma append_colon_inj:
  assumes "a @ '':'' @ x = b @ '':'' @ y" "CHR '':'' \<notin> set a" "CHR '':'' \<notin> set b"
  shows "a = b \<and> x = y"
proof -
  have "takeWhile (\<lambda>c. c \<noteq> CHR '':'') (a @ '':'' @ x) = a" if "CHR '':'' \<notin> set a" for a x :: string
    using that by (subst takeWhile_append2) auto
  then have "a = b" using assms by metis
  then show ?thesis using assms(1) by simp
qed

lemma receipt_key_inj:
  assumes "receipt_key e = receipt_key e'" "CHR '':'' \<notin> set (re_Provider e)" "CHR '':'' \<notin> set (re_Provider e')"
    "0 < re_Sequence e" "0 < re_Sequence e'"
  shows "re_Provider e = re_Provider e'" "re_ExternalID e = re_ExternalID e'" "re_Sequence e = re_Sequence e'"
proof -
  have 1: "re_Provider e = re_Provider e'"
    "re_ExternalID e @ '':'' @ formatSeq (re_Sequence e) = re_ExternalID e' @ '':'' @ formatSeq (re_Sequence e')"
    using append_colon_inj [OF assms(1) [unfolded receipt_key_def] assms(2,3)] by simp_all
  then have "rev (formatSeq (re_Sequence e)) @ '':'' @ rev (re_ExternalID e) =
      rev (formatSeq (re_Sequence e')) @ '':'' @ rev (re_ExternalID e')"
    by (metis append.assoc rev_append rev_singleton_conv)
  then have 2: "formatSeq (re_Sequence e) = formatSeq (re_Sequence e')" "re_ExternalID e = re_ExternalID e'"
    using append_colon_inj formatSeq_no_colon by (metis set_rev rev_is_rev_conv)+
  show "re_Provider e = re_Provider e'" by (rule 1(1))
  show "re_ExternalID e = re_ExternalID e'" by (rule 2(2))
  show "re_Sequence e = re_Sequence e'"
    using 2(1) prepend_digits_inj [of "re_Sequence e" "re_Sequence e'"] assms(4,5) by (simp add: formatSeq_def)
qed

section \<open>Ingestion\<close>

definition receipt_ok :: "ReceiptEvent \<Rightarrow> bool" where
  "receipt_ok e \<longleftrightarrow> re_Provider e \<noteq> [] \<and> re_NotificationID e \<noteq> [] \<and> 0 < re_Sequence e \<and>
     re_Status e \<in> set receipt_statuses"

lemma Ingest_step: "store_step\<^sup>*\<^sup>* s (fst (Ingest now io e s))"
  by (auto simp: Ingest_def Let_def split: prod.splits option.splits intro: r_into_rtranclp store_step.receipt)

lemma Ingest_ok:
  assumes "receipt_ok e" "Store_Get (re_NotificationID e) s = (n, None)"
  shows "Ingest now io e s =
    (let r = RecordReceipt now io (receipt_key e)
       \<lparr>ev_ID = receipt_key e, ev_NotificationID = re_NotificationID e, ev_Status = re_Status e,
        ev_Provider = re_Provider e, ev_Sequence = re_Sequence e, ev_OccurredAt = re_OccurredAt e, ev_Metadata = []\<rparr> s
     in (fst r, snd r, None))"
  using assms by (auto simp: Ingest_def receipt_ok_def Let_def)

lemma Ingest_cases:
  "\<not> receipt_ok e \<or> snd (Store_Get (re_NotificationID e) s) \<noteq> None \<Longrightarrow>
   \<exists>err. Ingest now io e s = (s, False, Some err)"
  by (cases "Store_Get (re_NotificationID e) s") (auto simp: Ingest_def receipt_ok_def not_less split: option.splits)

text \<open>C37: A receipt is accepted exactly when it names a provider, a stored notification, a positive
  sequence number and one of the six receipt statuses, and its key is new; then it becomes the last
  event of the notification's timeline and its status the notification's status.  A refused receipt,
  and one whose key is known, changes nothing.\<close>

theorem Ingest_spec:
  assumes wf: "wf_snapshot (st_data s)"
  shows "case Ingest now io e s of (s', accepted, err) \<Rightarrow>
    (err = None) = (receipt_ok e \<and> snd (Store_Get (re_NotificationID e) s) = None) \<and>
    accepted = (err = None \<and> s_Receipts (st_data s) (receipt_key e) \<noteq> Some True) \<and>
    (if accepted
     then n_Status (fst (Store_Get (re_NotificationID e) s')) = re_Status e \<and>
       n_Version (fst (Store_Get (re_NotificationID e) s')) = i64 (n_Version (fst (Store_Get (re_NotificationID e) s)) + 1) \<and>
       (\<exists>ev. Timeline (re_NotificationID e) s' = Timeline (re_NotificationID e) s @ [ev] \<and>
          ev_Status ev = re_Status e \<and> ev_Provider ev = re_Provider e \<and> ev_Sequence ev = re_Sequence e)
     else s' = s)"
proof (cases "receipt_ok e \<and> snd (Store_Get (re_NotificationID e) s) = None")
  case False
  then obtain err where "Ingest now io e s = (s, False, Some err)" using Ingest_cases by blast
  with False show ?thesis by auto
next
  case True
  then obtain n where n: "s_Notifications (st_data s) (re_NotificationID e) = Some n"
    and get: "Store_Get (re_NotificationID e) s = (n, None)"
    by (auto simp: Store_Get_def split: option.splits)
  have nid: "n_ID n = re_NotificationID e" using wf n by (simp add: wf_snapshot_def)
  show ?thesis
    using True get n nid Ingest_ok [of e s n now io]
    by (auto simp: Let_def RecordReceipt_def Store_Get_def Timeline_def)
qed

definition sample_receipt :: ReceiptEvent where
  "sample_receipt = \<lparr>re_Provider = ''p'', re_NotificationID = ''n1'', re_ExternalID = ''x'', re_Sequence = 1,
     re_Status = StatusDelivered, re_OccurredAt = 4\<rparr>"

lemma sample_store_wf: "wf_snapshot (st_data sample_store)"
  using store_steps_wf [OF sample_store_reachable(2)] by (simp add: empty_store_def wf_snapshot_empty)

lemma sample_store_get:
  "Store_Get ''n1'' sample_store = (sample_notification\<lparr>n_ID := ''n1'', n_Status := StatusQueued, n_Version := 1\<rparr>, None)"
  by (simp add: sample_store_def Store_Create_def Let_def empty_store_def empty_snapshot_def Store_Get_def)

theorem Ingest_spec_witness:
  "n_Status (fst (Store_Get ''n1'' (fst (Ingest 5 IoOk sample_receipt sample_store)))) = StatusDelivered"
proof -
  have "snd (snd (Ingest 5 IoOk sample_receipt sample_store)) = None \<and> fst (snd (Ingest 5 IoOk sample_receipt sample_store))"
    by (simp add: Ingest_def sample_receipt_def sample_store_get receipt_statuses_def Let_def RecordReceipt_def)
      (simp add: sample_store_def Store_Create_def Let_def empty_store_def empty_snapshot_def)
  with Ingest_spec [OF sample_store_wf, where now = 5 and io = IoOk and e = sample_receipt] show ?thesis
    by (auto simp: sample_receipt_def split: prod.splits)
qed

text \<open>Receipts are deduplicated: a receipt with the provider, external identifier and sequence
  number of an accepted one is accepted never again, whatever the store did in between.\<close>

theorem Ingest_deduplicates:
  assumes "Ingest now io e s = (s1, True, None)" "store_step\<^sup>*\<^sup>* s1 s2"
    "re_Provider e' = re_Provider e" "re_ExternalID e' = re_ExternalID e" "re_Sequence e' = re_Sequence e"
  shows "fst (Ingest now' io' e' s2) = s2 \<and> \<not> fst (snd (Ingest now' io' e' s2))"
proof -
  have key: "receipt_key e' = receipt_key e" using assms(3-5) by (simp add: receipt_key_def)
  obtain n where ok: "receipt_ok e" "Store_Get (re_NotificationID e) s = (n, None)"
    using Ingest_cases [of e s now io] assms(1) by (cases "Store_Get (re_NotificationID e) s") fastforce
  have "s_Receipts (st_data s1) (receipt_key e) = Some True"
    using assms(1) Ingest_ok [OF ok, of now io] RecordReceipt_recorded by (auto simp: Let_def)
  then have rec: "s_Receipts (st_data s2) (receipt_key e') = Some True"
    using store_steps_history [OF assms(2)] key by (simp add: extends_history_def)
  show ?thesis
  proof (cases "receipt_ok e' \<and> snd (Store_Get (re_NotificationID e') s2) = None")
    case True
    then show ?thesis
      using Ingest_ok [of e' s2 "fst (Store_Get (re_NotificationID e') s2)" now' io'] rec
      by (simp add: prod_eq_iff RecordReceipt_def Let_def)
  next
    case False
    then show ?thesis using Ingest_cases [of e' s2 now' io'] by auto
  qed
qed

theorem Ingest_deduplicates_witness:
  "fst (snd (Ingest 5 IoOk sample_receipt sample_store)) \<and>
   \<not> fst (snd (Ingest 6 IoOk sample_receipt (fst (Ingest 5 IoOk sample_receipt sample_store))))"
proof -
  have "Ingest 5 IoOk sample_receipt sample_store = (fst (Ingest 5 IoOk sample_receipt sample_store), True, None)"
    by (simp add: Ingest_def sample_receipt_def sample_store_get receipt_statuses_def Let_def RecordReceipt_def)
      (simp add: sample_store_def Store_Create_def Let_def empty_store_def empty_snapshot_def)
  from Ingest_deduplicates [OF this rtranclp.rtrancl_refl refl refl refl] this show ?thesis by (metis fst_conv snd_conv)
qed

text \<open>Receipts bypass the status machine: the first receipt for a stored notification sets its
  status to the receipt's whatever the status was, so a canceled or delivered notification can become
  accepted again.\<close>

theorem Ingest_bypasses_transitions:
  assumes "wf_snapshot (st_data s)" "Store_Get (re_NotificationID e) s = (n, None)" "terminal (n_Status n)"
    "receipt_ok e" "re_Status e \<noteq> n_Status n" "s_Receipts (st_data s) (receipt_key e) \<noteq> Some True"
  shows "snd (Transition now (re_Status e) n) \<noteq> None \<and>
    n_Status (fst (Store_Get (re_NotificationID e) (fst (Ingest now io e s)))) = re_Status e"
proof -
  have "n_ID n = re_NotificationID e" using assms(1,2) by (auto simp: wf_snapshot_def Store_Get_def split: option.splits)
  then have "n_Status (fst (Store_Get (re_NotificationID e) (fst (Ingest now io e s)))) = re_Status e"
    using Ingest_ok [OF assms(4,2), of now io] assms(2,6)
    by (auto simp: Let_def RecordReceipt_def Store_Get_def split: option.splits)
  then show ?thesis
    using assms(3,5) allowed_not_terminal by (auto simp: Transition_def)
qed

definition canceled_store :: Store where
  "canceled_store = fst (Store_Update 3 IoOk
     (sample_notification\<lparr>n_ID := ''n1'', n_Status := StatusCanceled, n_Version := 2\<rparr>) 1 sample_store)"

theorem Ingest_bypasses_transitions_witness:
  "n_Status (fst (Store_Get ''n1'' canceled_store)) = StatusCanceled \<and>
   n_Status (fst (Store_Get ''n1'' (fst (Ingest 5 IoOk sample_receipt canceled_store)))) = StatusDelivered"
proof -
  let ?n = "sample_notification\<lparr>n_ID := ''n1'', n_Status := StatusCanceled, n_Version := 2\<rparr>"
  have wf: "wf_snapshot (st_data canceled_store)"
    unfolding canceled_store_def by (rule store_step_wf [OF store_step.update sample_store_wf])
  have d: "s_Notifications (st_data canceled_store) ''n1'' = Some ?n" "s_Receipts (st_data canceled_store) = Map.empty"
    by (simp_all add: canceled_store_def Store_Update_def sample_store_def Store_Create_def Let_def empty_store_def empty_snapshot_def)
  then have get: "Store_Get (re_NotificationID sample_receipt) canceled_store = (?n, None)"
    by (simp add: Store_Get_def sample_receipt_def)
  have "terminal (n_Status ?n)" "receipt_ok sample_receipt" "re_Status sample_receipt \<noteq> n_Status ?n"
    "s_Receipts (st_data canceled_store) (receipt_key sample_receipt) \<noteq> Some True"
    using d by (simp_all add: terminal_def receipt_ok_def sample_receipt_def receipt_statuses_def)
  from Ingest_bypasses_transitions [OF wf get this, where now = 5 and io = IoOk] get show ?thesis
    by (simp add: sample_receipt_def)
qed

end
