(* ===== verification/Platform.thy ===== *)
theory Platform
  imports Dispatcher Receipt_Service
begin

text \<open>
  The running platform: the API operations, the receipts, the timers and any number of workers,
  interleaved between their accesses to shared state.  A step is one operation under a mutex, or one
  segment of a delivery.  The invariant follows the copies of notifications that are in flight: in the
  queue, in timers and in the hands of workers.  It gives that a notification is never worked on
  twice at the same time, that it is sent at most as often as the dispatcher allows, and that a
  canceled notification that no worker has claimed is not sent any more.
\<close>

section \<open>The state and its steps\<close>

datatype worker =
    Idle
  | Holding Notification
  | Due Notification
  | Admitted Notification
  | Claimed Notification
  | Chosen Notification pref
  | Answered Notification pref Result "go_error option"
  | Recorded Notification Result "go_error option"

record platform =
  pl_d :: Dispatcher
  pl_created :: "Notification list"
  pl_workers :: "worker list"

definition app_of :: "Dispatcher \<Rightarrow> Service" where
  "app_of d = \<lparr>a_Store = d_Store d, a_Queue = d_Queue d\<rparr>"

definition with_app :: "Service \<Rightarrow> Dispatcher \<Rightarrow> Dispatcher" where
  "with_app a d = d\<lparr>d_Store := a_Store a, d_Queue := a_Queue a\<rparr>"

fun after :: "('n \<Rightarrow> worker) \<Rightarrow> 'n option \<Rightarrow> worker" where
  "after f None = Idle"
| "after f (Some n) = f n"

definition stored :: "Dispatcher \<Rightarrow> string \<rightharpoonup> Notification" where
  "stored d = s_Notifications (st_data (d_Store d))"

text \<open>
  Two assumptions on the callers of \<open>Submit\<close>: a notification that is created has a fresh identifier and
  comes with a number of attempts from zero to the maximum (exclusive).  Both are left to the client by
  the code, since the request may carry an identifier and a number of attempts.
\<close>

definition submission_ok :: "Notification \<Rightarrow> bool \<Rightarrow> Dispatcher \<Rightarrow> bool" where
  "submission_ok m created d \<longleftrightarrow> (created \<longrightarrow> stored d (n_ID m) = None \<and> 0 \<le> n_Attempts m \<and> n_Attempts m < d_MaxAttempts d)"

inductive worker_step :: "worker \<times> Dispatcher \<Rightarrow> worker \<times> Dispatcher \<Rightarrow> bool" where
  take_step: "Dequeue (d_Queue d) = (q, Some n) \<Longrightarrow> worker_step (Idle, d) (Holding n, d\<lparr>d_Queue := q\<rparr>)"
| schedule_step: "loop_schedule v n d = (d', out) \<Longrightarrow> worker_step (Holding n, d) (after Due out, d')"
| admit_step: "deliver_admit v n d = (d', out) \<Longrightarrow> worker_step (Due n, d) (after Admitted out, d')"
| claim_step: "deliver_claim v n d = (d', out) \<Longrightarrow> worker_step (Admitted n, d) (after Claimed out, d')"
| choose_step: "deliver_choose v n d = (d', out) \<Longrightarrow> worker_step (Claimed n, d) (after (\<lambda>(m, p). Chosen m p) out, d')"
| send_step: "deliver_send v n p d = (d', m, result, err) \<Longrightarrow> worker_step (Chosen n p, d) (Answered m p result err, d')"
| record_step: "worker_step (Answered n p result err, d) (Recorded n result err, deliver_record v p err d)"
| finish_step: "worker_step (Recorded n result err, d) (Idle, deliver_finish v n result err d)"

text \<open>
  \<open>Cancel\<close> and \<open>Pause\<close> read the store and write it under two locks.  The step \<open>late\<close> is their second half for whatever the first half has read, at
  whatever time; the steps \<open>cancel\<close> and \<open>pause\<close> are the two halves with nothing in between.  \<open>Submit\<close> looks the
  suppressions up before it creates: an entry that arrives in between could as well have come after the creation.
\<close>

inductive platform_step :: "platform \<Rightarrow> platform \<Rightarrow> bool" where
  submit: "Submit_create sum256 env n (app_of (pl_d s)) = (a, m, created, err, enq) \<Longrightarrow> submission_ok m created (pl_d s) \<Longrightarrow>
    platform_step s (s\<lparr>pl_d := with_app a (pl_d s), pl_created := (if enq then m # pl_created s else pl_created s)\<rparr>)"
| enqueue: "i < length (pl_created s) \<Longrightarrow>
    platform_step s (s\<lparr>pl_d := (pl_d s)\<lparr>d_Queue := fst (Enqueue now (pl_created s ! i) (d_Queue (pl_d s)))\<rparr>,
                       pl_created := take i (pl_created s) @ drop (Suc i) (pl_created s)\<rparr>)"
| cancel: "platform_step s (s\<lparr>pl_d := with_app (fst (Cancel tt tu io nid expected (app_of (pl_d s)))) (pl_d s)\<rparr>)"
| pause: "platform_step s (s\<lparr>pl_d := with_app (fst (Pause tt tu io nid expected (app_of (pl_d s)))) (pl_d s)\<rparr>)"
| late: "Transition tt nxt m = (m', None) \<Longrightarrow> platform_step s (s\<lparr>pl_d := fst (update_store tu io m' (n_Version m) (pl_d s))\<rparr>)"
| receipt: "platform_step s (s\<lparr>pl_d := (pl_d s)\<lparr>d_Store := fst (Ingest now io e (d_Store (pl_d s)))\<rparr>\<rparr>)"
| suppress: "platform_step s (s\<lparr>pl_d := (pl_d s)\<lparr>d_Store := fst (Suppress io x (d_Store (pl_d s)))\<rparr>\<rparr>)"
| timer: "platform_step s (s\<lparr>pl_d := timer_fires now i (pl_d s)\<rparr>)"
| work: "i < length (pl_workers s) \<Longrightarrow> worker_step (pl_workers s ! i, pl_d s) (w, d) \<Longrightarrow>
    platform_step s (s\<lparr>pl_d := d, pl_workers := (pl_workers s)[i := w]\<rparr>)"

text \<open>Runs, counting their steps.\<close>

inductive platform_steps :: "nat \<Rightarrow> platform \<Rightarrow> platform \<Rightarrow> bool" where
  none: "platform_steps 0 s s"
| more: "platform_steps n s s' \<Longrightarrow> platform_step s' s'' \<Longrightarrow> platform_steps (Suc n) s s''"

section \<open>Copies in flight\<close>

text \<open>The notification a worker holds, before and after it has called the provider.\<close>

fun unsent :: "worker \<Rightarrow> Notification list" where
  "unsent (Holding n) = [n]"
| "unsent (Due n) = [n]"
| "unsent (Admitted n) = [n]"
| "unsent (Claimed n) = [n]"
| "unsent (Chosen n p) = [n]"
| "unsent w = []"

fun answered :: "worker \<Rightarrow> Notification list" where
  "answered (Answered n p result err) = [n]"
| "answered (Recorded n result err) = [n]"
| "answered w = []"

definition pending :: "Dispatcher \<Rightarrow> Notification multiset" where
  "pending d = waiting (d_Queue d) + mset (map snd (d_Timers d))"

definition in_hands :: "(worker \<Rightarrow> Notification list) \<Rightarrow> worker list \<Rightarrow> Notification multiset" where
  "in_hands f ws = mset (concat (map f ws))"

definition sends_of :: "Dispatcher \<Rightarrow> string \<Rightarrow> nat" where
  "sends_of d i = length (filter (\<lambda>x. n_ID (rq_Notification (snd x)) = i) (d_Sends d))"

lemma in_hands_upd:
  "i < length ws \<Longrightarrow> in_hands f (ws[i := w]) + mset (f (ws ! i)) = in_hands f ws + mset (f w)"
proof (induction ws arbitrary: i)
  case (Cons v ws)
  then show ?case by (cases i) (auto simp: in_hands_def ac_simps)
qed simp

text \<open>
  The invariant, over what the steps change: the stored notifications \<open>N\<close>, the copies that have not
  been sent \<open>P\<close> and those that have \<open>Q\<close>, the number of calls per identifier \<open>S\<close>; \<open>M\<close> is the maximal number of attempts and
  \<open>k\<close> bounds the stored versions.
\<close>

definition copy_ok :: "(string \<rightharpoonup> Notification) \<Rightarrow> (string \<Rightarrow> nat) \<Rightarrow> Notification \<Rightarrow> bool" where
  "copy_ok N S n \<longleftrightarrow> (\<exists>m. N (n_ID n) = Some m \<and> 1 \<le> n_Version n \<and> n_Version n \<le> n_Version m) \<and> int (S (n_ID n)) \<le> n_Attempts n"

definition store_ok :: "int \<Rightarrow> (string \<rightharpoonup> Notification) \<Rightarrow> bool" where
  "store_ok k N \<longleftrightarrow> (\<forall>i m. N i = Some m \<longrightarrow> n_ID m = i \<and> 1 \<le> n_Version m \<and> n_Version m \<le> k)"

definition single :: "Notification multiset \<Rightarrow> bool" where
  "single C \<longleftrightarrow> (\<forall>i. size (filter_mset (\<lambda>n. n_ID n = i) C) \<le> 1)"

definition core_inv ::
  "int \<Rightarrow> int \<Rightarrow> (string \<rightharpoonup> Notification) \<Rightarrow> Notification multiset \<Rightarrow> Notification multiset \<Rightarrow> (string \<Rightarrow> nat) \<Rightarrow> bool" where
  "core_inv M k N P Q S \<longleftrightarrow> store_ok k N \<and> single (P + Q) \<and> (\<forall>n \<in># P + Q. copy_ok N S n \<and> n_Attempts n \<le> M) \<and>
     (\<forall>n \<in># P. n_Attempts n < M) \<and> (\<forall>i. int (S i) \<le> M) \<and> (\<forall>i. N i = None \<longrightarrow> S i = 0)"

text \<open>How the store may change: nothing is lost and versions do not go back.\<close>

definition advances :: "(string \<rightharpoonup> Notification) \<Rightarrow> (string \<rightharpoonup> Notification) \<Rightarrow> bool" where
  "advances N N' \<longleftrightarrow> dom N' = dom N \<and> (\<forall>i m m'. N i = Some m \<longrightarrow> N' i = Some m' \<longrightarrow> n_Version m \<le> n_Version m')"

lemma copy_ok_advances: "copy_ok N S n \<Longrightarrow> advances N N' \<Longrightarrow> copy_ok N' S n"
  unfolding copy_ok_def advances_def by (metis (no_types, lifting) domIff option.collapse order_trans)

lemma single_subset: "single C \<Longrightarrow> C' \<subseteq># C \<Longrightarrow> single C'"
  unfolding single_def by (meson multiset_filter_mono order_trans size_mset_mono)

lemma single_swap:
  assumes "single (add_mset n C)" "n_ID n' = n_ID n"
  shows "single (add_mset n' C)"
  using assms unfolding single_def by (auto split: if_splits)

lemma core_advance:
  assumes "core_inv M k N P Q S" "advances N N'" "store_ok k' N'" "P' + Q' \<subseteq># P + Q" "set_mset P' \<subseteq> set_mset P"
  shows "core_inv M k' N' P' Q' S"
proof -
  have "set_mset (P' + Q') \<subseteq> set_mset (P + Q)" using assms(4) by (rule set_mset_mono)
  then have "\<forall>n \<in># P' + Q'. copy_ok N' S n \<and> n_Attempts n \<le> M"
    using assms(1,2) copy_ok_advances unfolding core_inv_def by blast
  moreover have "N' i = None \<longleftrightarrow> N i = None" for i using assms(2) by (auto simp: advances_def domIff)
  ultimately show ?thesis
    using assms single_subset [OF _ assms(4)] unfolding core_inv_def by blast
qed

text \<open>A copy is replaced by another one of the same notification.\<close>

lemma core_swap:
  assumes "core_inv M k N P Q S" "advances N N'" "store_ok k' N'"
    and "P + Q = add_mset n C" "P' + Q' = add_mset n' C" "n_ID n' = n_ID n" "copy_ok N' S n'" "n_Attempts n' \<le> M"
    and "\<forall>x \<in># P'. n_Attempts x < M"
  shows "core_inv M k' N' P' Q' S"
proof -
  have "\<forall>x \<in># C. copy_ok N' S x \<and> n_Attempts x \<le> M"
    using assms(1,2,4) copy_ok_advances unfolding core_inv_def by (metis union_single_eq_member insert_noteq_member add_mset_remove_trivial in_diffD)
  then have "\<forall>x \<in># P' + Q'. copy_ok N' S x \<and> n_Attempts x \<le> M" using assms(5,7,8) by simp
  moreover have "single (P' + Q')" using assms(1,4,5,6) single_swap unfolding core_inv_def by metis
  moreover have "N' i = None \<longleftrightarrow> N i = None" for i using assms(2) by (auto simp: advances_def domIff)
  ultimately show ?thesis using assms(1,3,9) unfolding core_inv_def by blast
qed

section \<open>What the operations do to the stored notifications\<close>

definition cas :: "(string \<rightharpoonup> Notification) \<Rightarrow> Notification \<Rightarrow> int \<Rightarrow> string \<rightharpoonup> Notification" where
  "cas N n e = (case N (n_ID n) of None \<Rightarrow> N | Some old \<Rightarrow> if n_Version old = e then N(n_ID n \<mapsto> n) else N)"

lemma update_store_effect:
  "stored (fst (update_store now io n e d)) = cas (stored d) n e"
  "pending (fst (update_store now io n e d)) = pending d" "sends_of (fst (update_store now io n e d)) = sends_of d"
  "d_Queue (fst (update_store now io n e d)) = d_Queue d" "d_MaxAttempts (fst (update_store now io n e d)) = d_MaxAttempts d"
  by (auto simp: update_store_def stored_def cas_def Store_Update_def pending_def sends_of_def fun_eq_iff Let_def split: option.splits)

text \<open>The copy a worker writes after a transition of its copy \<open>n\<close>.\<close>

definition moved :: "Notification \<Rightarrow> Notification \<Rightarrow> bool" where
  "moved n n' \<longleftrightarrow> n_ID n' = n_ID n \<and> n_Attempts n' = n_Attempts n \<and> (n_Version n' = n_Version n \<or> n_Version n' = i64 (n_Version n + 1))"

lemma Transition_moved: "Transition t nxt n = (n', e) \<Longrightarrow> moved n n'"
  by (auto simp: Transition_def moved_def split: if_splits)

lemma moved_fst: "moved n (fst (Transition t nxt n))"
  by (rule Transition_moved [of t nxt n _ "snd (Transition t nxt n)"]) simp

lemma store_ok_mono: "store_ok k N \<Longrightarrow> k \<le> k' \<Longrightarrow> store_ok k' N"
  by (fastforce simp: store_ok_def)

lemma cas_advance:
  assumes ok: "store_ok k N" "k < 2 ^ 63 - 1" "copy_ok N S n" and mv: "moved n n'"
  shows "advances N (cas N n' (n_Version n))" "store_ok (k + 1) (cas N n' (n_Version n))" "copy_ok (cas N n' (n_Version n)) S n'"
proof -
  obtain m where m: "N (n_ID n) = Some m" "1 \<le> n_Version n" "n_Version n \<le> n_Version m" and S: "int (S (n_ID n)) \<le> n_Attempts n"
    using ok(3) by (auto simp: copy_ok_def)
  have mk: "n_Version m \<le> k" using ok(1) m(1) by (auto simp: store_ok_def)
  have v: "n_ID n' = n_ID n" "n_Version n' = n_Version n \<or> n_Version n' = n_Version n + 1" "n_Attempts n' = n_Attempts n"
    using mv m mk ok(2) i64_id [of "n_Version n + 1"] by (auto simp: moved_def in_i64_def)
  show "advances N (cas N n' (n_Version n))" using m v by (auto simp: advances_def cas_def)
  have "store_ok (k + 1) N" using ok(1) by (rule store_ok_mono) simp
  moreover have "1 \<le> n_Version n'" "n_Version n' \<le> k + 1" using v(2) m mk by auto
  ultimately show "store_ok (k + 1) (cas N n' (n_Version n))"
    using v(1) by (auto simp: cas_def store_ok_def split: option.splits)
  show "copy_ok (cas N n' (n_Version n)) S n'"
  proof (cases "n_Version m = n_Version n")
    case True
    then show ?thesis using m v S by (auto simp: copy_ok_def cas_def)
  next
    case False
    then show ?thesis using m v S by (auto simp: copy_ok_def cas_def)
  qed
qed

lemma advances_refl [simp]: "advances N N"
  by (auto simp: advances_def)

lemma core_mono: "core_inv M k N P Q S \<Longrightarrow> k \<le> k' \<Longrightarrow> core_inv M k' N P Q S"
  using store_ok_mono by (auto simp: core_inv_def)

lemma core_store: "core_inv M k N P Q S \<Longrightarrow> store_ok k N"
  by (simp add: core_inv_def)

lemma core_drop:
  assumes "core_inv M k N P Q S" "k \<le> k'" "P' + Q' \<subseteq># P + Q" "set_mset P' \<subseteq> set_mset P"
  shows "core_inv M k' N P' Q' S"
  using core_advance [OF assms(1) advances_refl _ assms(3,4)] store_ok_mono [OF core_store [OF assms(1)] assms(2)] by blast

lemma core_copy: "core_inv M k N P Q S \<Longrightarrow> n \<in># P + Q \<Longrightarrow> copy_ok N S n \<and> n_Attempts n \<le> M"
  by (simp add: core_inv_def)

text \<open>A worker updates the store and drops its copy, or keeps the new copy to be sent.\<close>

lemma core_cas_drop:
  assumes "core_inv M k N P Q S" "k < 2 ^ 63 - 1" "n \<in># P + Q" "moved n n'" "P' + Q' \<subseteq># P + Q" "set_mset P' \<subseteq> set_mset P"
  shows "core_inv M (k + 1) (cas N n' (n_Version n)) P' Q' S"
  using cas_advance [OF core_store [OF assms(1)] assms(2) _ assms(4)] core_copy [OF assms(1,3)]
  by (intro core_advance [OF assms(1) _ _ assms(5,6)]) auto

lemma core_cas_swap:
  assumes "core_inv M k N P Q S" "k < 2 ^ 63 - 1" "moved n n'" "P + Q = add_mset n C" "P' + Q' = add_mset n' C"
    and "\<forall>x \<in># P'. n_Attempts x < M"
  shows "core_inv M (k + 1) (cas N n' (n_Version n)) P' Q' S"
proof -
  have n: "copy_ok N S n" "n_Attempts n \<le> M" using core_copy [OF assms(1), of n] assms(4) by auto
  note A = cas_advance [OF core_store [OF assms(1)] assms(2) n(1) assms(3)]
  show ?thesis
    by (rule core_swap [OF assms(1) A(1,2) assms(4,5) _ A(3) _ assms(6)]) (use assms(3) n(2) in \<open>auto simp: moved_def\<close>)
qed

text \<open>\<open>retry\<close>: the copy goes back to a timer, or is dropped.\<close>

lemma AfterFunc_effect [simp]:
  "stored (AfterFunc t n d) = stored d" "pending (AfterFunc t n d) = add_mset n (pending d)" "sends_of (AfterFunc t n d) = sends_of d"
  "d_Queue (AfterFunc t n d) = d_Queue d" "d_MaxAttempts (AfterFunc t n d) = d_MaxAttempts d"
  by (simp_all add: AfterFunc_def stored_def pending_def sends_of_def fun_eq_iff)

lemma retry_frame:
  "d_Queue (retry tt tu io n err d) = d_Queue d" "d_MaxAttempts (retry tt tu io n err d) = d_MaxAttempts d"
  "sends_of (retry tt tu io n err d) = sends_of d"
  by (simp_all add: retry_def Let_def update_store_effect split: prod.split option.split)

lemma retry_core:
  assumes core: "core_inv (d_MaxAttempts d) k (stored d) P Q (sends_of d)" "k < 2 ^ 63 - 1"
    and C: "P + Q = add_mset nc (pending d + RP + RQ)" "set_mset (pending d + RP) \<subseteq> set_mset P"
    and n: "n_ID n = n_ID nc" "n_Version n = n_Version nc" "n_Attempts n = n_Attempts nc"
  shows "core_inv (d_MaxAttempts d) (k + 1) (stored (retry tt tu io n err d)) (pending (retry tt tu io n err d) + RP) RQ (sends_of d)"
proof -
  let ?m = "n\<lparr>n_LastError := err\<rparr>"
  have sub: "pending d + RP + RQ \<subseteq># P + Q" using C(1) by simp
  have mem: "nc \<in># P + Q" using C(1) by simp
  have mv: "moved nc m'" if "Transition tt st ?m = (m', e)" for st m' e
    using Transition_moved [OF that] n by (simp add: moved_def)
  have stay: "core_inv (d_MaxAttempts d) (k + 1) (stored d) (pending d + RP) RQ (sends_of d)"
    using core_drop [OF core(1) _ sub C(2)] by simp
  show ?thesis
  proof (cases "d_MaxAttempts d \<le> n_Attempts n")
    case True
    obtain m' e where T: "Transition tt StatusFailed ?m = (m', e)" by (cases "Transition tt StatusFailed ?m")
    show ?thesis
    proof (cases e)
      case None
      have "core_inv (d_MaxAttempts d) (k + 1) (cas (stored d) m' (n_Version nc)) (pending d + RP) RQ (sends_of d)"
        using core_cas_drop [OF core mem mv [OF T] sub C(2)] .
      then show ?thesis using True T None n(2) by (simp add: retry_def Let_def update_store_effect)
    qed (use True T stay in \<open>simp add: retry_def Let_def\<close>)
  next
    case False
    obtain m' e where T: "Transition tt StatusQueued ?m = (m', e)" by (cases "Transition tt StatusQueued ?m")
    show ?thesis
    proof (cases e)
      case None
      have "\<forall>x \<in># add_mset m' (pending d + RP). n_Attempts x < d_MaxAttempts d"
        using False mv [OF T] n(3) core(1) C(2) by (auto simp: core_inv_def moved_def)
      then have "core_inv (d_MaxAttempts d) (k + 1) (cas (stored d) m' (n_Version nc)) (add_mset m' (pending d + RP)) RQ (sends_of d)"
        by (intro core_cas_swap [OF core mv [OF T] C(1)]) simp_all
      then show ?thesis using False T None n(2) by (simp add: retry_def Let_def update_store_effect)
    qed (use False T stay in \<open>simp add: retry_def Let_def\<close>)
  qed
qed

lemma core_send:
  assumes core: "core_inv M k N (add_mset n P) Q S"
    and n': "n_ID n' = n_ID n" "n_Version n' = n_Version n" "n_Attempts n' = n_Attempts n + 1"
  shows "core_inv M k N P (add_mset n' Q) (S(n_ID n := Suc (S (n_ID n))))"
proof -
  have n: "copy_ok N S n" "n_Attempts n < M" using core by (auto simp: core_inv_def)
  have uniq: "size (filter_mset (\<lambda>x. n_ID x = n_ID n) (P + Q)) = 0"
    using core unfolding core_inv_def single_def by (auto dest!: spec [of _ "n_ID n"])
  then have other: "n_ID x \<noteq> n_ID n" if "x \<in># P + Q" for x
    using that by (auto simp: filter_mset_eq_conv)
  have "single (add_mset n' (P + Q))" using core n'(1) single_swap [of n "P + Q" n'] by (auto simp: core_inv_def)
  moreover have "\<forall>x \<in># P + Q. copy_ok N (S(n_ID n := Suc (S (n_ID n)))) x \<and> n_Attempts x \<le> M"
    using core other by (auto simp: core_inv_def copy_ok_def)
  moreover have "copy_ok N (S(n_ID n := Suc (S (n_ID n)))) n'" using n(1) n' by (auto simp: copy_ok_def)
  moreover have "int (S (n_ID n)) < M" using n by (simp add: copy_ok_def)
  moreover have "N (n_ID n) \<noteq> None" using n(1) by (auto simp: copy_ok_def)
  ultimately show ?thesis using core n'(3) n(2) unfolding core_inv_def by auto
qed

section \<open>Every step keeps the invariant\<close>

definition worker_inv :: "int \<Rightarrow> Notification multiset \<Rightarrow> Notification multiset \<Rightarrow> worker \<times> Dispatcher \<Rightarrow> bool" where
  "worker_inv k RP RQ x = (case x of (w, d) \<Rightarrow>
     queue_inv (d_Queue d) \<and> d_MaxAttempts d < 2 ^ 63 \<and>
     core_inv (d_MaxAttempts d) k (stored d) (pending d + (mset (unsent w) + RP)) (mset (answered w) + RQ) (sends_of d))"

lemma worker_inv_D:
  assumes "worker_inv k RP RQ (w, d)"
  shows "queue_inv (d_Queue d)" "d_MaxAttempts d < 2 ^ 63"
    "core_inv (d_MaxAttempts d) k (stored d) (pending d + (mset (unsent w) + RP)) (mset (answered w) + RQ) (sends_of d)"
  using assms by (simp_all add: worker_inv_def)

lemma loop_schedule_effect:
  "loop_schedule v n d = (d', out) \<Longrightarrow>
   d_Queue d' = d_Queue d \<and> d_MaxAttempts d' = d_MaxAttempts d \<and> stored d' = stored d \<and> sends_of d' = sends_of d \<and>
   (out = None \<and> pending d' = add_mset n (pending d) \<or> out = Some n \<and> pending d' = pending d)"
  by (auto simp: loop_schedule_def split: option.splits if_splits)

lemma deliver_admit_effect:
  assumes "deliver_admit v n d = (d', out)"
  shows "d_Queue d' = d_Queue d \<and> d_MaxAttempts d' = d_MaxAttempts d \<and> sends_of d' = sends_of d \<and>
    ((\<exists>n'. moved n n' \<and> out = None \<and> pending d' = pending d \<and> stored d' = cas (stored d) n' (n_Version n)) \<or>
     (stored d' = stored d \<and> (out = None \<and> pending d' = add_mset n (pending d) \<or> out = Some n \<and> pending d' = pending d)))"
proof (cases "case n_ExpiresAt n of None \<Rightarrow> False | Some t \<Rightarrow> v_clock v 2 > t")
  case True
  then have "d' = fst (update_store (v_clock v 4) (v_io v 0) (fst (Transition (v_clock v 3) StatusExpired n)) (n_Version n) d)" "out = None"
    using assms by (auto simp: deliver_admit_def Let_def)
  then show ?thesis using moved_fst [of n "v_clock v 3" StatusExpired] by (auto simp: update_store_effect)
next
  case False
  have lim: "stored (d\<lparr>d_Limiter := l\<rparr>) = stored d" "pending (d\<lparr>d_Limiter := l\<rparr>) = pending d" "sends_of (d\<lparr>d_Limiter := l\<rparr>) = sends_of d" for l
    by (simp_all add: stored_def pending_def sends_of_def fun_eq_iff)
  from False assms show ?thesis
    by (cases "snd (Allow (v_clock v 5) 1 (d_Limiter d))") (auto simp: deliver_admit_def Let_def lim)
qed

lemma deliver_claim_effect:
  assumes "deliver_claim v n d = (d', out)"
  shows "d_Queue d' = d_Queue d \<and> d_MaxAttempts d' = d_MaxAttempts d \<and> sends_of d' = sends_of d \<and> pending d' = pending d \<and>
    (out = None \<and> stored d' = stored d \<or>
     (\<exists>n'. moved n n' \<and> stored d' = cas (stored d) n' (n_Version n) \<and> (out = None \<or> out = Some n' \<and>
        (\<exists>old. stored d (n_ID n) = Some old \<and> n_Version old = n_Version n))))"
proof -
  obtain n' e where T: "Transition (v_clock v 6) StatusProcessing n = (n', e)" by (cases "Transition (v_clock v 6) StatusProcessing n")
  note mv = Transition_moved [OF T]
  show ?thesis
  proof (cases e)
    case None
    define u where "u = update_store (v_clock v 7) (v_io v 1) n' (n_Version n) d"
    have "d' = fst u" "out = (if snd u \<noteq> None then None else Some n')"
      using assms T None by (auto simp: deliver_claim_def u_def Let_def split: if_splits)
    moreover have "snd u = None \<Longrightarrow> \<exists>old. stored d (n_ID n) = Some old \<and> n_Version old = n_Version n"
      using mv by (auto simp: u_def update_store_def Store_Update_def stored_def moved_def Let_def split: option.splits if_splits)
    ultimately show ?thesis using mv by (auto simp: u_def update_store_effect)
  qed (use assms T in \<open>auto simp: deliver_claim_def Let_def\<close>)
qed

lemma deliver_send_effect:
  assumes "deliver_send v n p d = (d', m, result, err)"
  shows "d_Queue d' = d_Queue d" "d_MaxAttempts d' = d_MaxAttempts d" "stored d' = stored d" "pending d' = pending d"
    "n_ID m = n_ID n" "n_Version m = n_Version n" "n_Attempts m = i64 (n_Attempts n + 1)"
    "sends_of d' = (sends_of d)(n_ID n := Suc (sends_of d (n_ID n)))"
  using assms by (auto simp: deliver_send_def Let_def stored_def pending_def sends_of_def fun_eq_iff)

lemma deliver_record_effect:
  "d_Queue (deliver_record v p err d) = d_Queue d" "d_MaxAttempts (deliver_record v p err d) = d_MaxAttempts d"
  "stored (deliver_record v p err d) = stored d" "pending (deliver_record v p err d) = pending d" "sends_of (deliver_record v p err d) = sends_of d"
  by (simp_all add: deliver_record_def stored_def pending_def sends_of_def fun_eq_iff)

lemma router_upd_effect:
  "stored (d\<lparr>d_Router := r\<rparr>) = stored d" "pending (d\<lparr>d_Router := r\<rparr>) = pending d" "sends_of (d\<lparr>d_Router := r\<rparr>) = sends_of d"
  by (simp_all add: stored_def pending_def sends_of_def fun_eq_iff)

lemma queue_upd_effect:
  "stored (d\<lparr>d_Queue := q\<rparr>) = stored d" "sends_of (d\<lparr>d_Queue := q\<rparr>) = sends_of d"
  by (simp_all add: stored_def sends_of_def fun_eq_iff)

lemma worker_step_inv:
  assumes step: "worker_step (w, d) (w', d')" and inv: "worker_inv k RP RQ (w, d)" and k: "k < 2 ^ 63 - 1"
  shows "worker_inv (k + 1) RP RQ (w', d')"
proof -
  let ?M = "d_MaxAttempts d"
  note I = worker_inv_D [OF inv]
  note C = I(3)
  have same: "worker_inv (k + 1) RP RQ (w1, d1)"
    if "queue_inv (d_Queue d1)" "d_MaxAttempts d1 = ?M" "stored d1 = stored d" "sends_of d1 = sends_of d"
      "pending d1 + mset (unsent w1) = pending d + mset (unsent w)" "answered w1 = answered w" for w1 d1
    using that I core_mono [OF C, of "k + 1"] by (simp add: worker_inv_def flip: add.assoc)
  from step show ?thesis
  proof (cases rule: worker_step.cases)
    case (take_step q n)
    then show ?thesis
      using Dequeue_waiting [OF I(1), of q n] by (intro same) (simp_all add: queue_upd_effect pending_def)
  next
    case (schedule_step v n out)
    then show ?thesis using loop_schedule_effect [OF schedule_step(3)] I(1) by (intro same) auto
  next
    case (admit_step v n out)
    from deliver_admit_effect [OF admit_step(3)] consider
      (expired) n' where "moved n n'" "out = None" "pending d' = pending d" "stored d' = cas (stored d) n' (n_Version n)"
    | (other) "stored d' = stored d" "out = None \<and> pending d' = add_mset n (pending d) \<or> out = Some n \<and> pending d' = pending d" by blast
    then show ?thesis
    proof cases
      case expired
      have "core_inv ?M (k + 1) (cas (stored d) n' (n_Version n)) (pending d + RP) RQ (sends_of d)"
        using admit_step(1) C by (intro core_cas_drop [OF C k _ expired(1)]) (auto simp: subset_mset.le_add_same_cancel1)
      then show ?thesis using expired admit_step deliver_admit_effect [OF admit_step(3)] I by (simp add: worker_inv_def)
    next
      case other
      then show ?thesis using admit_step deliver_admit_effect [OF admit_step(3)] I(1) by (intro same) auto
    qed
  next
    case (claim_step v n out)
    note fr = deliver_claim_effect [OF claim_step(3)]
    from fr consider
      (lost) "out = None" "stored d' = stored d"
    | (dropped) n' where "moved n n'" "stored d' = cas (stored d) n' (n_Version n)" "out = None"
    | (claimed) n' where "moved n n'" "stored d' = cas (stored d) n' (n_Version n)" "out = Some n'" by blast
    then show ?thesis
    proof cases
      case lost
      have "core_inv ?M (k + 1) (stored d) (pending d + RP) RQ (sends_of d)"
        using claim_step(1) by (intro core_drop [OF C]) auto
      then show ?thesis using lost claim_step fr I by (simp add: worker_inv_def)
    next
      case dropped
      have "core_inv ?M (k + 1) (cas (stored d) n' (n_Version n)) (pending d + RP) RQ (sends_of d)"
        using claim_step(1) by (intro core_cas_drop [OF C k _ dropped(1)]) auto
      then show ?thesis using dropped claim_step fr I by (simp add: worker_inv_def)
    next
      case claimed
      have "\<forall>x \<in># pending d + add_mset n' RP. n_Attempts x < ?M"
        using C claim_step(1) claimed(1) by (auto simp: core_inv_def moved_def)
      then have "core_inv ?M (k + 1) (cas (stored d) n' (n_Version n)) (pending d + add_mset n' RP) RQ (sends_of d)"
        using claim_step(1) by (intro core_cas_swap [OF C k claimed(1), where C = "pending d + RP + RQ"]) auto
      then show ?thesis using claimed claim_step fr I by (simp add: worker_inv_def)
    qed
  next
    case (choose_step v n out)
    obtain r po eo where Ch: "Choose (v_choose v) (v_health v) (d_Adapters d) (n_Channel n) (d_Router d) = (r, po, eo)" by (metis prod_cases3)
    show ?thesis
    proof (cases po)
      case (Some p)
      then have "d' = d\<lparr>d_Router := r\<rparr>" "out = Some (n, p)" using choose_step(3) Ch by (auto simp: deliver_choose_def)
      then show ?thesis using choose_step(1,2) I(1) by (intro same) (auto simp: router_upd_effect)
    next
      case None
      let ?e = "case eo of None \<Rightarrow> [] | Some e \<Rightarrow> e"
      have d': "d' = retry (v_clock v 8) (v_clock v 9) (v_io v 2) n ?e (d\<lparr>d_Router := r\<rparr>)" "out = None"
        using choose_step(3) Ch None by (auto simp: deliver_choose_def)
      have "core_inv (d_MaxAttempts (d\<lparr>d_Router := r\<rparr>)) (k + 1) (stored d') (pending d' + RP) RQ (sends_of (d\<lparr>d_Router := r\<rparr>))"
        unfolding d'(1) using choose_step(1)
        by (intro retry_core [OF _ k, where P = "pending d + (mset (unsent w) + RP)" and Q = "mset (answered w) + RQ" and nc = n])
          (use C in \<open>auto simp: router_upd_effect\<close>)
      then show ?thesis using choose_step(2) d' I(1,2) by (simp add: worker_inv_def retry_frame router_upd_effect)
    qed
  next
    case (send_step v n p m result err)
    note E = deliver_send_effect [OF send_step(3)]
    have core: "core_inv ?M k (stored d) (add_mset n (pending d + RP)) RQ (sends_of d)" using C send_step(1) by simp
    then have "copy_ok (stored d) (sends_of d) n" "n_Attempts n < ?M" by (auto simp: core_inv_def)
    then have "i64 (n_Attempts n + 1) = n_Attempts n + 1" using I(2) by (intro i64_id) (auto simp: copy_ok_def in_i64_def)
    then have "core_inv ?M k (stored d) (pending d + RP) (add_mset m RQ) (sends_of d')"
      using core_send [OF core, of m] E by simp
    then show ?thesis using core_mono [of ?M k _ _ _ _ "k + 1"] E I(1,2) send_step(2) by (simp add: worker_inv_def)
  next
    case (record_step n p result err v)
    then show ?thesis using I(1) by (intro same) (simp_all add: deliver_record_effect)
  next
    case (finish_step n result err v)
    show ?thesis
    proof (cases err)
      case (Some e)
      let ?n = "n\<lparr>n_LastError := res_ErrorClass result\<rparr>"
      have d': "d' = retry (v_clock v 10) (v_clock v 11) (v_io v 3) ?n e d" using finish_step Some by (simp add: deliver_finish_def)
      have "core_inv ?M (k + 1) (stored d') (pending d' + RP) RQ (sends_of d)"
        unfolding d' using finish_step(1)
        by (intro retry_core [OF C k, where nc = n]) auto
      moreover have "d_Queue d' = d_Queue d" "d_MaxAttempts d' = ?M" "sends_of d' = sends_of d" unfolding d' by (simp_all add: retry_frame)
      ultimately show ?thesis using finish_step(2) I(1,2) by (simp add: worker_inv_def)
    next
      case None
      let ?st = "if res_Status result = [] then StatusAccepted else res_Status result"
      obtain n' e where T: "Transition (v_clock v 10) ?st n = (n', e)" by (cases "Transition (v_clock v 10) ?st n")
      have "core_inv ?M (k + 1) (cas (stored d) n' (n_Version n)) (pending d + RP) RQ (sends_of d)"
        using finish_step(1) by (intro core_cas_drop [OF C k _ Transition_moved [OF T]]) auto
      moreover have "core_inv ?M (k + 1) (stored d) (pending d + RP) RQ (sends_of d)"
        using finish_step(1) by (intro core_drop [OF C]) auto
      ultimately show ?thesis
        using finish_step None T I(1,2)
        by (cases e) (simp_all add: worker_inv_def deliver_finish_def Let_def update_store_effect)
    qed
  qed
qed

definition platform_inv :: "int \<Rightarrow> platform \<Rightarrow> bool" where
  "platform_inv k s \<longleftrightarrow> queue_inv (d_Queue (pl_d s)) \<and> d_MaxAttempts (pl_d s) < 2 ^ 63 \<and>
     core_inv (d_MaxAttempts (pl_d s)) k (stored (pl_d s)) (pending (pl_d s) + (in_hands unsent (pl_workers s) + mset (pl_created s)))
       (in_hands answered (pl_workers s)) (sends_of (pl_d s))"

lemma in_hands_split:
  assumes "i < length ws"
  obtains R where "in_hands f ws = mset (f (ws ! i)) + R" "\<And>w. in_hands f (ws[i := w]) = mset (f w) + R"
proof
  let ?R = "mset (concat (map f (take i ws))) + mset (concat (map f (drop (Suc i) ws)))"
  show upd: "in_hands f (ws[i := w]) = mset (f w) + ?R" for w
    unfolding upd_conv_take_nth_drop [OF assms] by (simp add: in_hands_def ac_simps)
  show "in_hands f ws = mset (f (ws ! i)) + ?R" using upd [of "ws ! i"] by simp
qed

lemma advances_upd:
  assumes "store_ok k N" "N i = Some m" "n_ID m' = i" "n_Version m \<le> n_Version m'" "n_Version m' \<le> k + 1"
  shows "advances N (N(i \<mapsto> m'))" "store_ok (k + 1) (N(i \<mapsto> m'))"
proof -
  have "1 \<le> n_Version m" using assms(1,2) by (auto simp: store_ok_def)
  then have "1 \<le> n_Version m'" using assms(4) by simp
  moreover have "store_ok (k + 1) N" using assms(1) by (rule store_ok_mono) simp
  ultimately show "advances N (N(i \<mapsto> m'))" "store_ok (k + 1) (N(i \<mapsto> m'))"
    using assms(2-5) by (auto simp: advances_def store_ok_def)
qed

lemma i64_version:
  assumes "store_ok k N" "N i = Some m" "k < 2 ^ 63 - 1"
  shows "i64 (n_Version m + 1) = n_Version m + 1" "n_Version m + 1 \<le> k + 1"
proof -
  have "1 \<le> n_Version m" "n_Version m \<le> k" using assms(1,2) by (auto simp: store_ok_def)
  then show "i64 (n_Version m + 1) = n_Version m + 1" "n_Version m + 1 \<le> k + 1"
    using assms(3) by (auto intro!: i64_id simp: in_i64_def)
qed

lemma late_effect:
  assumes "store_ok k (stored d)" "k < 2 ^ 63 - 1" "Transition tt nxt m = (m', r)"
  shows "advances (stored d) (cas (stored d) m' (n_Version m)) \<and> store_ok (k + 1) (cas (stored d) m' (n_Version m))"
proof (cases "\<exists>old. stored d (n_ID m') = Some old \<and> n_Version old = n_Version m")
  case True
  then obtain old where old: "stored d (n_ID m') = Some old" "n_Version old = n_Version m" by blast
  have "n_Version old \<le> n_Version m'" "n_Version m' \<le> k + 1"
    using Transition_moved [OF assms(3)] i64_version [OF assms(1) old(1) assms(2)] old(2) by (auto simp: moved_def)
  from advances_upd [OF assms(1) old(1) refl this] show ?thesis using old by (simp add: cas_def)
next
  case False
  then have "cas (stored d) m' (n_Version m) = stored d" by (auto simp: cas_def split: option.split)
  then show ?thesis using store_ok_mono [OF assms(1), of "k + 1"] by simp
qed

lemma transition_queue: "a_Queue (fst (transition tt tu io nid e nxt (app_of d))) = d_Queue d"
  by (auto simp: transition_def app_of_def Let_def split: prod.splits option.splits)

lemma transition_effect:
  assumes "store_ok k (stored d)" "k < 2 ^ 63 - 1"
  shows "a_Queue (fst (transition tt tu io nid e nxt (app_of d))) = d_Queue d"
    "\<exists>N. s_Notifications (st_data (a_Store (fst (transition tt tu io nid e nxt (app_of d))))) = N \<and> advances (stored d) N \<and> store_ok (k + 1) N"
proof -
  let ?out = "fst (transition tt tu io nid e nxt (app_of d))"
  show "a_Queue ?out = d_Queue d" by (rule transition_queue)
  have keep: "advances (stored d) (stored d) \<and> store_ok (k + 1) (stored d)"
    using store_ok_mono [OF assms(1), of "k + 1"] by simp
  define n where "n = fst (Store_Get nid (d_Store d))"
  obtain n' r where T: "Transition tt nxt n = (n', r)" by (cases "Transition tt nxt n")
  have "s_Notifications (st_data (a_Store ?out)) \<in> {stored d, cas (stored d) n' (n_Version n)}"
    using T by (cases "Store_Get nid (d_Store d)")
      (auto simp: n_def transition_def app_of_def stored_def Store_Update_def cas_def Let_def split: option.splits if_splits)
  then show "\<exists>N. s_Notifications (st_data (a_Store ?out)) = N \<and> advances (stored d) N \<and> store_ok (k + 1) N"
    using keep late_effect [OF assms T] by auto
qed

lemma Ingest_effect:
  assumes "store_ok k (s_Notifications (st_data s))" "k < 2 ^ 63 - 1"
  shows "\<exists>N. s_Notifications (st_data (fst (Ingest now io e s))) = N \<and> advances (s_Notifications (st_data s)) N \<and> store_ok (k + 1) N"
proof -
  let ?N = "s_Notifications (st_data s)"
  have keep: "advances ?N ?N \<and> store_ok (k + 1) ?N" using store_ok_mono [OF assms(1), of "k + 1"] by simp
  show ?thesis
  proof (cases "?N (re_NotificationID e)")
    case None
    then have "fst (Ingest now io e s) = s" by (auto simp: Ingest_def Store_Get_def)
    then show ?thesis using keep by auto
  next
    case (Some n)
    let ?n = "n\<lparr>n_Status := re_Status e, n_Version := i64 (n_Version n + 1), n_UpdatedAt := now\<rparr>"
    have nid: "n_ID n = re_NotificationID e" using assms(1) Some by (auto simp: store_ok_def)
    have "s_Notifications (st_data (fst (Ingest now io e s))) \<in> {?N, ?N(re_NotificationID e \<mapsto> ?n)}"
      using Some nid by (auto simp: Ingest_def Store_Get_def RecordReceipt_def Let_def)
    moreover have "advances ?N (?N(re_NotificationID e \<mapsto> ?n)) \<and> store_ok (k + 1) (?N(re_NotificationID e \<mapsto> ?n))"
      using advances_upd [OF assms(1) Some, of ?n] nid i64_version [OF assms(1) Some assms(2)] by simp
    ultimately show ?thesis using keep by auto
  qed
qed

lemma Submit_create_effect:
  assumes "Submit_create sum256 env n (app_of d) = (a, m, created, err, enq)"
  shows "a_Queue a = d_Queue d \<and> (enq \<longrightarrow> created) \<and>
    (if created then s_Notifications (st_data (a_Store a)) = (stored d)(n_ID m \<mapsto> m) \<and> n_Version m = 1
     else s_Notifications (st_data (a_Store a)) = stored d)"
proof (cases created)
  case True
  have ctx: "se_ctx env = None" using assms True by (auto simp: Submit_create_def split: option.splits)
  obtain v where v: "Validate n = (v, None)" using assms True ctx by (auto simp: Submit_create_def split: prod.splits option.splits)
  obtain s saved c e where C:
    "Store_Create (fst (se_created env)) (snd (se_created env)) (se_io env) (admitted env n) (a_Store (app_of d)) = (s, saved, c, e)"
    by (metis prod_cases4)
  have A: "a = (app_of d)\<lparr>a_Store := s\<rparr>" "m = saved" "c"
    using assms C True unfolding Submit_create_valid [OF ctx v] by (auto simp: Let_def split: if_splits)
  note new = Store_Create_created [where e = e, OF C [unfolded A(3) [THEN eq_True [THEN iffD2]]]]
  show ?thesis using True A new(1,3) by (simp add: app_of_def stored_def)
next
  case False
  then show ?thesis
    using assms by (auto simp: Submit_create_def Store_Create_def app_of_def stored_def Let_def split: option.splits prod.splits if_splits)
qed

lemma mset_remove_nth: "i < length xs \<Longrightarrow> mset xs = add_mset (xs ! i) (mset (take i xs @ drop (Suc i) xs))"
  by (subst id_take_nth_drop [of i xs]) simp_all

lemma core_submit:
  assumes core: "core_inv M k N P Q S" and new: "N (n_ID m) = None" "n_Version m = 1" "0 \<le> n_Attempts m" "n_Attempts m < M" "0 \<le> k"
    and P': "P' = P \<or> P' = add_mset m P"
  shows "core_inv M (k + 1) (N(n_ID m \<mapsto> m)) P' Q S"
proof -
  let ?N = "N(n_ID m \<mapsto> m)"
  have other: "n_ID x \<noteq> n_ID m" "copy_ok ?N S x" if "x \<in># P + Q" for x
  proof -
    have c: "copy_ok N S x" using core_copy [OF core that] by simp
    then show "n_ID x \<noteq> n_ID m" using new(1) by (auto simp: copy_ok_def)
    with c show "copy_ok ?N S x" by (simp add: copy_ok_def)
  qed
  then have "filter_mset (\<lambda>x. n_ID x = n_ID m) (P + Q) = {#}" by (auto simp: filter_mset_eq_conv)
  then have "single (add_mset m (P + Q))" using core by (auto simp: core_inv_def single_def)
  moreover have "store_ok (k + 1) ?N" using core_store [OF core_mono [OF core, of "k + 1"]] new by (auto simp: store_ok_def)
  moreover have "copy_ok ?N S m" using core new by (auto simp: core_inv_def copy_ok_def)
  ultimately show ?thesis using core P' other(2) new(4) unfolding core_inv_def by auto
qed

lemma platform_step_inv:
  assumes step: "platform_step s s'" and inv: "platform_inv k s" and k: "0 \<le> k" "k < 2 ^ 63 - 1"
  shows "platform_inv (k + 1) s'"
proof -
  let ?d = "pl_d s" and ?ws = "pl_workers s"
  have I: "queue_inv (d_Queue ?d)" "d_MaxAttempts ?d < 2 ^ 63"
    "core_inv (d_MaxAttempts ?d) k (stored ?d) (pending ?d + (in_hands unsent ?ws + mset (pl_created s))) (in_hands answered ?ws) (sends_of ?d)"
    using inv by (simp_all add: platform_inv_def)
  have store: "platform_inv (k + 1) (s\<lparr>pl_d := ?d\<lparr>d_Store := st\<rparr>\<rparr>)"
    if "\<exists>N. s_Notifications (st_data st) = N \<and> advances (stored ?d) N \<and> store_ok (k + 1) N" for st
    using that core_advance [OF I(3), of _ "k + 1"] I(1,2)
    by (auto simp: platform_inv_def stored_def pending_def sends_of_def [abs_def])
  have trans: "platform_inv (k + 1) (s\<lparr>pl_d := with_app (fst (transition tt tu io nid e nxt (app_of ?d))) ?d\<rparr>)" for tt tu io nid e nxt
  proof -
    have "with_app (fst (transition tt tu io nid e nxt (app_of ?d))) ?d = ?d\<lparr>d_Store := a_Store (fst (transition tt tu io nid e nxt (app_of ?d)))\<rparr>"
      using transition_effect(1) [OF core_store [OF I(3)] k(2)] by (simp add: with_app_def)
    then show ?thesis using store [OF transition_effect(2) [OF core_store [OF I(3)] k(2)]] by simp
  qed
  from step show ?thesis
  proof (cases rule: platform_step.cases)
    case (submit sum256 env n a m created err enq)
    note E = Submit_create_effect [OF submit(2)]
    let ?new = "if enq then m # pl_created s else pl_created s"
    have fr: "pending (with_app a ?d) = pending ?d" "sends_of (with_app a ?d) = sends_of ?d"
      "d_Queue (with_app a ?d) = d_Queue ?d" "d_MaxAttempts (with_app a ?d) = d_MaxAttempts ?d"
      using E by (simp_all add: with_app_def pending_def sends_of_def [abs_def])
    have "core_inv (d_MaxAttempts ?d) (k + 1) (stored (with_app a ?d)) (pending ?d + (in_hands unsent ?ws + mset ?new)) (in_hands answered ?ws) (sends_of ?d)"
    proof (cases created)
      case True
      then have st: "stored (with_app a ?d) = (stored ?d)(n_ID m \<mapsto> m)" using E by (simp add: stored_def with_app_def)
      show ?thesis
        unfolding st using E True submit(3) k(1) by (intro core_submit [OF I(3)]) (auto simp: submission_ok_def)
    next
      case False
      then show ?thesis using E core_mono [OF I(3), of "k + 1"] by (simp add: stored_def with_app_def)
    qed
    then show ?thesis using submit(1) I(1,2) fr by (simp add: platform_inv_def)
  next
    case (enqueue i now)
    let ?n = "pl_created s ! i" and ?cs = "take i (pl_created s) @ drop (Suc i) (pl_created s)"
    let ?t = "?d\<lparr>d_Queue := fst (Enqueue now ?n (d_Queue ?d))\<rparr>"
    from I(1) have q: "queue_inv (d_Queue ?t)" "pending ?t + mset ?cs \<subseteq># pending ?d + mset (pl_created s)"
      by (cases rule: Enqueue_waiting [where now = now and n = ?n]; use I(1) mset_remove_nth [OF enqueue(2)] in \<open>simp add: pending_def\<close>)+
    then have "pending ?t + (in_hands unsent ?ws + mset ?cs) + in_hands answered ?ws \<subseteq>#
        pending ?d + (in_hands unsent ?ws + mset (pl_created s)) + in_hands answered ?ws"
      by (simp add: ac_simps)
    then have "core_inv (d_MaxAttempts ?d) (k + 1) (stored ?d) (pending ?t + (in_hands unsent ?ws + mset ?cs)) (in_hands answered ?ws) (sends_of ?d)"
      using mset_subset_eqD [OF q(2)] by (intro core_drop [OF I(3)]) auto
    then show ?thesis using enqueue(1) q(1) I(2) by (simp add: platform_inv_def queue_upd_effect)
  next
    case (late tt nxt m m' tu io)
    have "fst (update_store tu io m' (n_Version m) ?d) = ?d\<lparr>d_Store := d_Store (fst (update_store tu io m' (n_Version m) ?d))\<rparr>"
      by (simp add: update_store_def Let_def)
    then show ?thesis
      using store late_effect [OF core_store [OF I(3)] k(2) late(2)] late(1) update_store_effect(1) [of tu io m' "n_Version m" ?d]
      unfolding stored_def by metis
  next
    case (receipt now io e)
    then show ?thesis
      using store [OF Ingest_effect [OF core_store [OF I(3), unfolded stored_def] k(2), folded stored_def]] by simp
  next
    case (suppress io x)
    have "s_Notifications (st_data (fst (Suppress io x (d_Store ?d)))) = stored ?d" by (simp add: Suppress_def stored_def)
    then show ?thesis using suppress store core_store [OF core_mono [OF I(3), of "k + 1"]] by auto
  next
    case (timer now i)
    show ?thesis
    proof (cases "i < length (d_Timers ?d)")
      case True
      let ?n = "snd (d_Timers ?d ! i)"
      have t: "mset (map snd (d_Timers ?d)) = add_mset ?n (mset (map snd (take i (d_Timers ?d) @ drop (Suc i) (d_Timers ?d))))"
        using mset_remove_nth [OF True] by simp
      let ?t = "timer_fires now i ?d"
      have fr: "stored ?t = stored ?d" "sends_of ?t = sends_of ?d" "d_MaxAttempts ?t = d_MaxAttempts ?d"
        by (simp_all add: timer_fires_def stored_def sends_of_def [abs_def])
      from I(1) have q: "queue_inv (d_Queue ?t) \<and> pending ?t \<subseteq># pending ?d"
        by (cases rule: Enqueue_waiting [where now = now and n = ?n]) (use I(1) True t in \<open>auto simp: timer_fires_def pending_def\<close>)
      then have "core_inv (d_MaxAttempts ?d) (k + 1) (stored ?d) (pending ?t + (in_hands unsent ?ws + mset (pl_created s))) (in_hands answered ?ws) (sends_of ?d)"
        by (intro core_drop [OF I(3)]) (auto dest: mset_subset_eqD)
      then show ?thesis using timer q fr I(2) by (simp add: platform_inv_def)
    next
      case False
      then show ?thesis using timer I core_mono [OF I(3), of "k + 1"] by (simp add: platform_inv_def timer_fires_def)
    qed
  next
    case (work i w d)
    obtain RP where RP: "in_hands unsent ?ws = mset (unsent (?ws ! i)) + RP" "\<And>w. in_hands unsent (?ws[i := w]) = mset (unsent w) + RP"
      using in_hands_split [OF work(2)] by metis
    obtain RQ where RQ: "in_hands answered ?ws = mset (answered (?ws ! i)) + RQ" "\<And>w. in_hands answered (?ws[i := w]) = mset (answered w) + RQ"
      using in_hands_split [OF work(2)] by metis
    have "worker_inv k (RP + mset (pl_created s)) RQ (?ws ! i, ?d)" using I RP(1) RQ(1) by (simp add: worker_inv_def ac_simps)
    from worker_step_inv [OF work(3) this k(2)] show ?thesis
      using work(1) RP(2) RQ(2) by (simp add: worker_inv_def platform_inv_def ac_simps)
  qed (use trans in \<open>simp_all add: Cancel_def Pause_def\<close>)
qed

lemma platform_step_frame: "platform_step s s' \<Longrightarrow> d_MaxAttempts (pl_d s') = d_MaxAttempts (pl_d s)"
proof (induction rule: platform_step.induct)
  case (work i s w d)
  from work(2) show ?case
  proof (cases rule: worker_step.cases)
    case (choose_step v n out)
    then show ?thesis by (auto simp: deliver_choose_def retry_frame split: prod.splits option.splits)
  next
    case (finish_step n result err v)
    then show ?thesis by (auto simp: deliver_finish_def retry_frame update_store_effect Let_def split: prod.splits option.splits)
  qed (auto dest: loop_schedule_effect deliver_admit_effect deliver_claim_effect deliver_send_effect simp: deliver_record_effect)
qed (simp_all add: with_app_def timer_fires_def update_store_effect)

lemma platform_steps_inv:
  assumes "platform_steps n s s'" "platform_inv k s" "0 \<le> k" "k + int n < 2 ^ 63"
  shows "platform_inv (k + int n) s' \<and> d_MaxAttempts (pl_d s') = d_MaxAttempts (pl_d s)"
  using assms
proof (induction rule: platform_steps.induct)
  case (more n s s' s'')
  then have "platform_inv (k + int n) s'" by simp
  from platform_step_inv [OF more(2) this] more platform_step_frame [OF more(2)] show ?case by (simp add: ac_simps)
qed simp

section \<open>Starting the platform\<close>

text \<open>
  What \<open>main\<close> of \<open>cmd/notification-api\<close> sets up before it serves requests: an empty queue, recovery of the queued
  notifications of the store, the router with its providers, the limiter of 100 tokens, and the workers of \<open>Run\<close>.  The
  providers, their references and the clock readings are arguments.
\<close>

definition Dispatcher_Run :: "Dispatcher \<Rightarrow> platform" where
  "Dispatcher_Run d = \<lparr>pl_d = d, pl_created = [], pl_workers = replicate (nat (d_Concurrency d)) Idle\<rparr>"

definition main_dispatcher ::
  "Store \<Rightarrow> int \<Rightarrow> int \<Rightarrow> duration \<Rightarrow> int \<Rightarrow> (nat \<Rightarrow> time) \<Rightarrow> string list \<Rightarrow> time \<Rightarrow> adapters \<Rightarrow> Dispatcher" where
  "main_dispatcher store capacity concurrency timeout maxAttempts clock ks now ps =
     (let q = Queue_New capacity;
          app = application_New store q;
          router = Router_Add ps 3 (Router_Add ps 2 (Router_Add ps 1 (Router_Add ps 0 Router_New)));
          app = Recover clock ks app
      in \<lparr>d_Store = a_Store app, d_Queue = a_Queue app, d_Router = router, d_Limiter = rate_New now 100 100,
          d_Concurrency = concurrency, d_Timeout = timeout, d_MaxAttempts = maxAttempts, d_Adapters = ps, d_Timers = [], d_Sends = []\<rparr>)"

text \<open>
  The set-up of \<open>cmd/notification-worker\<close>, which enqueues the waiting notifications itself; it is the same dispatcher, so
  what is proved of runs of the one holds of the other.
\<close>

definition worker_dispatcher ::
  "Store \<Rightarrow> int \<Rightarrow> int \<Rightarrow> duration \<Rightarrow> int \<Rightarrow> (nat \<Rightarrow> time) \<Rightarrow> string list \<Rightarrow> time \<Rightarrow> adapters \<Rightarrow> Dispatcher" where
  "worker_dispatcher store capacity concurrency timeout maxAttempts clock ks now ps =
     (let q = enqueue_each clock 0 (Queued ks store) (Queue_New capacity);
          router = Router_Add ps 3 (Router_Add ps 2 (Router_Add ps 1 (Router_Add ps 0 Router_New)))
      in \<lparr>d_Store = store, d_Queue = q, d_Router = router, d_Limiter = rate_New now 100 100,
          d_Concurrency = concurrency, d_Timeout = timeout, d_MaxAttempts = maxAttempts, d_Adapters = ps, d_Timers = [], d_Sends = []\<rparr>)"

lemma worker_dispatcher_eq: "worker_dispatcher = main_dispatcher"
  by (intro ext) (simp add: worker_dispatcher_def main_dispatcher_def Recover_def application_New_def Let_def)

text \<open>The four mock providers of \<open>main\<close>.\<close>

definition main_providers :: adapters where
  "main_providers p =
     (let mock = (\<lambda>nm ch. MockProvider \<lparr>m_ProviderName = nm, m_ProviderChannel = ch, m_Calls = 0, m_Failures = 0, m_Delay = 0\<rparr>) in
      if p = 0 then mock ''mock-email'' ChannelEmail
      else if p = 1 then mock ''mock-sms'' ChannelSMS
      else if p = 2 then mock ''mock-webhook'' ChannelWebhook
      else mock ''mock-push'' ChannelPush)"

lemma enqueue_each_waiting:
  "queue_inv q \<Longrightarrow> queue_inv (enqueue_each clock i ns q) \<and> waiting (enqueue_each clock i ns q) \<subseteq># waiting q + mset ns"
proof (induction ns arbitrary: i q)
  case (Cons n ns)
  from Cons.prems show ?case
  proof (cases rule: Enqueue_waiting [where now = "clock i" and n = n])
    case full
    then show ?thesis using Cons by (simp add: subset_mset.add_increasing2 subset_mset.order_trans [OF conjunct2 [OF Cons.IH]])
  next
    case (room q')
    then show ?thesis using Cons.IH [OF room(3), of "Suc i"] by simp
  qed
qed simp

lemma single_mset: "distinct (map n_ID xs) \<Longrightarrow> single (mset xs)"
proof (induction xs)
  case (Cons x xs)
  then have "filter_mset (\<lambda>n. n_ID n = n_ID x) (mset xs) = {#}" by (simp add: filter_mset_eq_conv) (metis imageI)
  with Cons show ?case by (auto simp: single_def)
qed (simp add: single_def)

lemma map_values_ids:
  assumes "store_ok k N" "set ks \<subseteq> dom N"
  shows "map n_ID (map_values N ks) = ks"
  using assms(2)
proof (induction ks)
  case (Cons i ks)
  then obtain m where "N i = Some m" by auto
  then show ?case using Cons assms(1) by (auto simp: store_ok_def)
qed simp

lemma distinct_filter_ids: "distinct (map n_ID xs) \<Longrightarrow> distinct (map n_ID (filter P xs))"
  by (induction xs) auto

lemma in_hands_idle: "in_hands unsent (replicate k Idle) = {#}" "in_hands answered (replicate k Idle) = {#}"
  by (induction k) (simp_all add: in_hands_def)

text \<open>What the platform relies on at the start: a consistent store, whose waiting notifications have attempts left.\<close>

definition startable :: "int \<Rightarrow> int \<Rightarrow> Store \<Rightarrow> bool" where
  "startable k M s \<longleftrightarrow> store_ok k (s_Notifications (st_data s)) \<and>
     (\<forall>n \<in> ran (s_Notifications (st_data s)). n_Status n = StatusQueued \<longrightarrow> 0 \<le> n_Attempts n \<and> n_Attempts n < M)"

lemma start_inv:
  assumes ok: "startable k M store" "iteration_order (s_Notifications (st_data store)) ks" and M: "0 \<le> M" "M < 2 ^ 63"
  shows "platform_inv k (Dispatcher_Run (main_dispatcher store cap conc timeout M clock ks now ps))"
proof -
  let ?N = "s_Notifications (st_data store)"
  let ?q = "enqueue_each clock 0 (Queued ks store) (Queue_New cap)"
  have store: "store_ok k ?N" using ok(1) by (simp add: startable_def)
  have W: "queue_inv ?q" "waiting ?q \<subseteq># mset (Queued ks store)"
    using enqueue_each_waiting [OF queue_inv_New, of clock 0 "Queued ks store" cap] by (simp_all add: waiting_def queue_contents_def Queue_New_def)
  have ids: "map n_ID (map_values ?N ks) = ks" using map_values_ids [OF store] ok(2) by (simp add: iteration_order_def)
  then have "distinct (map n_ID (Queued ks store))"
    unfolding Queued_def using ok(2) by (intro distinct_filter_ids) (simp add: iteration_order_def)
  then have "single (waiting ?q)" using single_mset W(2) single_subset by blast
  moreover have "copy_ok ?N (\<lambda>_. 0) n \<and> n_Attempts n < M" if "n \<in># waiting ?q" for n
  proof -
    have "n \<in> set (Queued ks store)" using that W(2) by (metis mset_subset_eqD set_mset_mset)
    then have n: "n \<in> ran ?N" "n_Status n = StatusQueued" using set_map_values_order [OF ok(2)] by (auto simp: Queued_def)
    then obtain i where i: "?N i = Some n" by (auto simp: ran_def)
    then have "n_ID n = i" "1 \<le> n_Version n" using store by (simp_all add: store_ok_def)
    moreover have "0 \<le> n_Attempts n" "n_Attempts n < M" using ok(1) n by (simp_all add: startable_def)
    ultimately show ?thesis using i by (simp add: copy_ok_def)
  qed
  ultimately have "core_inv M k ?N (waiting ?q) {#} (\<lambda>_. 0)" using store M(1) unfolding core_inv_def by (auto simp: less_imp_le)
  then show ?thesis
    using W(1) M(2)
    by (simp add: platform_inv_def Dispatcher_Run_def main_dispatcher_def Recover_def application_New_def Let_def stored_def pending_def
        sends_of_def [abs_def] in_hands_idle)
qed

section \<open>Superseded notifications\<close>

text \<open>A worker's copy before and after the claim.\<close>

fun unclaimed :: "worker \<Rightarrow> Notification list" where
  "unclaimed (Holding n) = [n]"
| "unclaimed (Due n) = [n]"
| "unclaimed (Admitted n) = [n]"
| "unclaimed w = []"

fun claimed :: "worker \<Rightarrow> Notification list" where
  "claimed (Claimed n) = [n]"
| "claimed (Chosen n p) = [n]"
| "claimed (Answered n p result err) = [n]"
| "claimed (Recorded n result err) = [n]"
| "claimed w = []"

text \<open>
  No worker has claimed the notification and every copy in flight is older than the stored
  one: it will fail the claim.
\<close>

definition stale :: "string \<Rightarrow> int \<Rightarrow> Notification multiset \<Rightarrow> bool" where
  "stale i v C \<longleftrightarrow> (\<forall>n \<in># C. n_ID n = i \<longrightarrow> n_Version n < v)"

definition superseded :: "string \<Rightarrow> platform \<Rightarrow> bool" where
  "superseded i s \<longleftrightarrow>
     (\<exists>m. stored (pl_d s) i = Some m \<and> stale i (n_Version m) (pending (pl_d s) + in_hands unclaimed (pl_workers s) + mset (pl_created s))) \<and>
     (\<forall>n \<in># in_hands claimed (pl_workers s). n_ID n \<noteq> i)"

lemma stale_simps [simp]:
  "stale i v (A + B) \<longleftrightarrow> stale i v A \<and> stale i v B" "stale i v (add_mset n A) \<longleftrightarrow> (n_ID n = i \<longrightarrow> n_Version n < v) \<and> stale i v A"
  "stale i v {#}"
  by (auto simp: stale_def)

lemma stale_mono: "stale i v C \<Longrightarrow> C' \<subseteq># C \<Longrightarrow> v \<le> v' \<Longrightarrow> stale i v' C'"
  unfolding stale_def by (meson mset_subset_eqD order_less_le_trans)

lemma cas_other:
  assumes "n_ID n' = n_ID n" "n_ID n = i \<longrightarrow> (\<exists>m. N i = Some m \<and> n_Version m \<noteq> n_Version n)"
  shows "cas N n' (n_Version n) i = N i"
  using assms by (auto simp: cas_def split: option.splits)

lemma retry_other:
  assumes "n_ID n \<noteq> i"
  shows "stored (retry tt tu io n err d) i = stored d i"
    "stale i v (pending (retry tt tu io n err d)) \<longleftrightarrow> stale i v (pending d)"
proof -
  have mv: "n_ID n' \<noteq> i" if "Transition tt st (n\<lparr>n_LastError := err\<rparr>) = (n', e)" for st n' e
    using Transition_fields(1) [OF that] assms by simp
  show "stored (retry tt tu io n err d) i = stored d i" "stale i v (pending (retry tt tu io n err d)) \<longleftrightarrow> stale i v (pending d)"
    using mv by (auto simp: retry_def Let_def update_store_effect cas_def split: prod.splits option.splits)
qed

lemma deliver_finish_other:
  assumes "n_ID n \<noteq> i"
  shows "stored (deliver_finish v n result err d) i = stored d i"
    "stale i x (pending (deliver_finish v n result err d)) \<longleftrightarrow> stale i x (pending d)"
    "sends_of (deliver_finish v n result err d) = sends_of d"
proof -
  let ?st = "if res_Status result = [] then StatusAccepted else res_Status result"
  obtain n' e where T: "Transition (v_clock v 10) ?st n = (n', e)" by (cases "Transition (v_clock v 10) ?st n")
  have n': "n_ID n' \<noteq> i" using Transition_fields(1) [OF T] assms by simp
  have n: "n_ID (n\<lparr>n_LastError := res_ErrorClass result\<rparr>) \<noteq> i" using assms by simp
  have "stored (deliver_finish v n result err d) i = stored d i \<and> (stale i x (pending (deliver_finish v n result err d)) \<longleftrightarrow> stale i x (pending d)) \<and>
    sends_of (deliver_finish v n result err d) = sends_of d"
  proof (cases err)
    case None
    then have "deliver_finish v n result err d = (if e = None then fst (update_store (v_clock v 11) (v_io v 3) n' (n_Version n) d) else d)"
      using T by (simp add: deliver_finish_def Let_def split: option.split)
    then show ?thesis using n' by (auto simp: update_store_effect cas_def split: option.split)
  next
    case (Some ee)
    then show ?thesis using retry_other [OF n] by (simp add: deliver_finish_def retry_frame)
  qed
  then show "stored (deliver_finish v n result err d) i = stored d i" "stale i x (pending (deliver_finish v n result err d)) \<longleftrightarrow> stale i x (pending d)"
    "sends_of (deliver_finish v n result err d) = sends_of d" by blast+
qed

lemma worker_step_superseded:
  assumes step: "worker_step (w, d) (w', d')" and q: "queue_inv (d_Queue d)"
    and m: "stored d i = Some m" and st: "stale i (n_Version m) (pending d + mset (unclaimed w))"
    and cl: "\<forall>n \<in> set (claimed w). n_ID n \<noteq> i"
  shows "stored d' i = Some m" "stale i (n_Version m) (pending d' + mset (unclaimed w'))"
    "\<forall>n \<in> set (claimed w'). n_ID n \<noteq> i" "sends_of d' i = sends_of d i"
proof -
  have "stored d' i = Some m \<and> stale i (n_Version m) (pending d' + mset (unclaimed w')) \<and>
      (\<forall>n \<in> set (claimed w'). n_ID n \<noteq> i) \<and> sends_of d' i = sends_of d i"
    using step
  proof (cases rule: worker_step.cases)
    case (take_step qq n)
    then show ?thesis
      using Dequeue_waiting(2) [OF q take_step(4)] st m by (auto simp: queue_upd_effect pending_def)
  next
    case (schedule_step v n out)
    then show ?thesis using loop_schedule_effect [OF schedule_step(3)] st m by auto
  next
    case (admit_step v n out)
    have no: "n_ID n = i \<longrightarrow> (\<exists>m. stored d i = Some m \<and> n_Version m \<noteq> n_Version n)" using st m admit_step(1) by auto
    from deliver_admit_effect [OF admit_step(3)] show ?thesis
      using admit_step st m cas_other [where N = "stored d" and n = n and i = i, OF _ no] by (auto simp: moved_def)
  next
    case (claim_step v n out)
    have no: "n_ID n = i \<longrightarrow> (\<exists>m. stored d i = Some m \<and> n_Version m \<noteq> n_Version n)" using st m claim_step(1) by auto
    from deliver_claim_effect [OF claim_step(3)] show ?thesis
      using claim_step st m no cas_other [where N = "stored d" and n = n and i = i, OF _ no] by (auto simp: moved_def)
  next
    case (choose_step v n out)
    obtain r po eo where Ch: "Choose (v_choose v) (v_health v) (d_Adapters d) (n_Channel n) (d_Router d) = (r, po, eo)" by (metis prod_cases3)
    have n: "n_ID n \<noteq> i" using cl choose_step(1) by simp
    show ?thesis
      using choose_step st m Ch n retry_other [OF n]
      by (cases po) (auto simp: deliver_choose_def router_upd_effect retry_frame)
  next
    case (send_step v n p r result err)
    then show ?thesis using deliver_send_effect [OF send_step(3)] st m cl by auto
  next
    case (record_step n p result err v)
    then show ?thesis using st m cl by (simp add: deliver_record_effect)
  next
    case (finish_step n result err v)
    have "n_ID n \<noteq> i" using cl finish_step(1) by simp
    then show ?thesis using finish_step st m deliver_finish_other [where n = n and i = i and v = v and result = result and err = err and d = d] by simp
  qed
  then show "stored d' i = Some m" "stale i (n_Version m) (pending d' + mset (unclaimed w'))"
    "\<forall>n \<in> set (claimed w'). n_ID n \<noteq> i" "sends_of d' i = sends_of d i" by blast+
qed

lemma superseded_advance:
  assumes "superseded i s" "advances (stored (pl_d s)) (stored d)" "pending d = pending (pl_d s)"
  shows "superseded i (s\<lparr>pl_d := d\<rparr>)"
proof -
  obtain m where m: "stored (pl_d s) i = Some m" "stale i (n_Version m) (pending (pl_d s) + in_hands unclaimed (pl_workers s) + mset (pl_created s))"
    using assms(1) by (auto simp: superseded_def)
  then obtain m' where "stored d i = Some m'" "n_Version m \<le> n_Version m'"
    using assms(2) unfolding advances_def by (metis domD domI)
  then show ?thesis using assms(1,3) m(2) stale_mono [OF m(2) subset_mset.order_refl] by (auto simp: superseded_def)
qed

lemma platform_step_superseded:
  assumes step: "platform_step s s'" and inv: "platform_inv k s" and k: "k < 2 ^ 63 - 1" and sup: "superseded i s"
  shows "superseded i s' \<and> sends_of (pl_d s') i = sends_of (pl_d s) i"
proof -
  let ?d = "pl_d s" and ?ws = "pl_workers s"
  have I: "queue_inv (d_Queue ?d)" "store_ok k (stored ?d)" using inv core_store by (auto simp: platform_inv_def)
  obtain m where m: "stored ?d i = Some m" "stale i (n_Version m) (pending ?d + in_hands unclaimed ?ws + mset (pl_created s))"
    and cl: "\<forall>n \<in># in_hands claimed ?ws. n_ID n \<noteq> i" using sup by (auto simp: superseded_def)
  have trans: "superseded i (s\<lparr>pl_d := with_app (fst (transition tt tu io nid e nxt (app_of ?d))) ?d\<rparr>)" for tt tu io nid e nxt
    using transition_effect [OF I(2) k, of tt tu io nid e nxt]
    by (intro superseded_advance [OF sup]) (auto simp: with_app_def stored_def pending_def)
  from step show ?thesis
  proof (cases rule: platform_step.cases)
    case (submit sum256 env n a x created err enq)
    note E = Submit_create_effect [OF submit(2)]
    have x: "n_ID x \<noteq> i" if created using that submit(3) m(1) by (auto simp: submission_ok_def)
    then have "stored (with_app a ?d) i = Some m" "pending (with_app a ?d) = pending ?d"
      using E m by (auto simp: stored_def with_app_def pending_def split: if_splits)
    then show ?thesis using submit(1) cl m(2) x E by (auto simp: superseded_def with_app_def sends_of_def)
  next
    case (enqueue j now)
    let ?n = "pl_created s ! j" and ?cs = "take j (pl_created s) @ drop (Suc j) (pl_created s)"
    let ?t = "?d\<lparr>d_Queue := fst (Enqueue now ?n (d_Queue ?d))\<rparr>"
    from I(1) have "pending ?t + mset ?cs \<subseteq># pending ?d + mset (pl_created s)"
      by (cases rule: Enqueue_waiting [where now = now and n = ?n]; use mset_remove_nth [OF enqueue(2)] in \<open>simp add: pending_def\<close>)
    moreover have "stale i (n_Version m) (pending ?d + mset (pl_created s))" using m(2) by simp
    ultimately have "stale i (n_Version m) (pending ?t + mset ?cs)" using stale_mono by blast
    then show ?thesis using enqueue(1) m cl by (simp add: superseded_def queue_upd_effect)
  next
    case (cancel tt tu io nid e)
    then show ?thesis using trans by (simp add: Cancel_def with_app_def sends_of_def)
  next
    case (pause tt tu io nid e)
    then show ?thesis using trans by (simp add: Pause_def with_app_def sends_of_def)
  next
    case (late tt nxt x x' tu io)
    have "superseded i (s\<lparr>pl_d := fst (update_store tu io x' (n_Version x) ?d)\<rparr>)"
      using late_effect [OF I(2) k late(2)] by (intro superseded_advance [OF sup]) (simp_all add: update_store_effect)
    then show ?thesis using late(1) by (simp add: update_store_effect)
  next
    case (receipt now io e)
    have "superseded i (s\<lparr>pl_d := ?d\<lparr>d_Store := fst (Ingest now io e (d_Store ?d))\<rparr>\<rparr>)"
      using Ingest_effect [OF I(2) [unfolded stored_def] k, of now io e]
      by (intro superseded_advance [OF sup]) (auto simp: stored_def pending_def)
    then show ?thesis using receipt by (simp add: sends_of_def)
  next
    case (suppress io x)
    have "superseded i (s\<lparr>pl_d := ?d\<lparr>d_Store := fst (Suppress io x (d_Store ?d))\<rparr>\<rparr>)"
      by (intro superseded_advance [OF sup]) (auto simp: stored_def pending_def Suppress_def)
    then show ?thesis using suppress by (simp add: sends_of_def)
  next
    case (timer now j)
    let ?t = "timer_fires now j ?d"
    have "pending ?t \<subseteq># pending ?d"
    proof (cases "j < length (d_Timers ?d)")
      case True
      have t: "mset (map snd (d_Timers ?d)) = add_mset (snd (d_Timers ?d ! j)) (mset (map snd (take j (d_Timers ?d) @ drop (Suc j) (d_Timers ?d))))"
        using mset_remove_nth [OF True] by simp
      from I(1) show ?thesis
        by (cases rule: Enqueue_waiting [where now = now and n = "snd (d_Timers ?d ! j)"]) (use True t in \<open>auto simp: timer_fires_def pending_def\<close>)
    qed (simp add: timer_fires_def)
    then have "pending ?t + in_hands unclaimed ?ws + mset (pl_created s) \<subseteq># pending ?d + in_hands unclaimed ?ws + mset (pl_created s)" by simp
    then have "stale i (n_Version m) (pending ?t + in_hands unclaimed ?ws + mset (pl_created s))" using stale_mono [OF m(2)] by blast
    moreover have "stored ?t = stored ?d" "sends_of ?t = sends_of ?d" by (simp_all add: timer_fires_def stored_def sends_of_def [abs_def])
    ultimately show ?thesis using timer m(1) cl by (simp add: superseded_def)
  next
    case (work j w d)
    obtain RU where RU: "in_hands unclaimed ?ws = mset (unclaimed (?ws ! j)) + RU" "\<And>w. in_hands unclaimed (?ws[j := w]) = mset (unclaimed w) + RU"
      using in_hands_split [OF work(2)] by metis
    obtain RC where RC: "in_hands claimed ?ws = mset (claimed (?ws ! j)) + RC" "\<And>w. in_hands claimed (?ws[j := w]) = mset (claimed w) + RC"
      using in_hands_split [OF work(2)] by metis
    have "stale i (n_Version m) (pending ?d + mset (unclaimed (?ws ! j)))" "\<forall>n \<in> set (claimed (?ws ! j)). n_ID n \<noteq> i"
      using m(2) RU(1) cl RC(1) by auto
    note W = worker_step_superseded [OF work(3) I(1) m(1) this]
    show ?thesis using W work(1) m(2) cl RU RC by (auto simp: superseded_def)
  qed
qed

lemma platform_steps_superseded:
  assumes "platform_steps n s s'" "platform_inv k s" "superseded i s" "0 \<le> k" "k + int n < 2 ^ 63"
  shows "sends_of (pl_d s') i = sends_of (pl_d s) i \<and> superseded i s'"
  using assms
proof (induction rule: platform_steps.induct)
  case (more n s s' s'')
  then have "platform_inv (k + int n) s'" using platform_steps_inv [OF more(1)] by simp
  then show ?case using more platform_step_superseded [OF more(2), of "k + int n" i] by simp
qed simp

text \<open>A successful \<open>Cancel\<close> of a notification that no worker has claimed supersedes every copy in flight.\<close>

lemma core_versions:
  assumes "core_inv M k N P Q S" "n \<in># P + Q" "N (n_ID n) = Some m"
  shows "n_Version n \<le> n_Version m"
  using core_copy [OF assms(1,2)] assms(3) by (auto simp: copy_ok_def)

lemma unclaimed_unsent: "set_mset (in_hands unclaimed ws) \<subseteq> set_mset (in_hands unsent ws)"
proof -
  have "set (unclaimed w) \<subseteq> set (unsent w)" for w by (cases w) auto
  then show ?thesis by (auto simp: in_hands_def)
qed

lemma Cancel_supersedes:
  assumes inv: "platform_inv k s" "k < 2 ^ 63 - 1" and m: "stored (pl_d s) i = Some m" "n_Status m \<in> {StatusQueued, StatusPaused}"
    and e: "expected \<le> 0 \<or> expected = n_Version m" and cl: "\<forall>n \<in># in_hands claimed (pl_workers s). n_ID n \<noteq> i"
  shows "superseded i (s\<lparr>pl_d := with_app (fst (Cancel tt tu io i expected (app_of (pl_d s)))) (pl_d s)\<rparr>)"
proof -
  let ?d = "pl_d s"
  let ?d' = "with_app (fst (Cancel tt tu io i expected (app_of ?d))) ?d"
  have core: "core_inv (d_MaxAttempts ?d) k (stored ?d) (pending ?d + (in_hands unsent (pl_workers s) + mset (pl_created s)))
      (in_hands answered (pl_workers s)) (sends_of ?d)" using inv(1) by (simp add: platform_inv_def)
  note store = core_store [OF core]
  have mid: "n_ID m = i" using store m(1) by (auto simp: store_ok_def)
  let ?m = "m\<lparr>n_Status := StatusCanceled, n_Version := i64 (n_Version m + 1), n_UpdatedAt := tt\<rparr>"
  have "StatusCanceled \<in> set (allowed (n_Status m))" "n_Status m \<noteq> StatusCanceled" using m(2) by (auto simp: allowed_def)
  then have T: "Transition tt StatusCanceled m = (?m, None)" unfolding Transition_def by simp
  have get: "Store_Get i (a_Store (app_of ?d)) = (m, None)" using m(1) by (simp add: Store_Get_def stored_def app_of_def)
  have "(0 < expected \<and> n_Version m \<noteq> expected) = False" using e by auto
  then have "a_Store (fst (Cancel tt tu io i expected (app_of ?d))) = fst (Store_Update tu io ?m (n_Version m) (d_Store ?d))"
    unfolding Cancel_def transition_def get prod.case option.case T by (simp only: if_False Let_def) (simp add: app_of_def)
  then have st: "stored ?d' i = Some ?m"
    using m(1) mid by (simp add: with_app_def stored_def Store_Update_def Let_def)
  have pend: "pending ?d' = pending ?d"
    using transition_effect(1) [OF store inv(2)] by (simp add: Cancel_def with_app_def pending_def)
  have "n_Version n < n_Version ?m" if n: "n \<in># pending ?d + in_hands unclaimed (pl_workers s) + mset (pl_created s)" "n_ID n = i" for n
  proof -
    have "n \<in># pending ?d + (in_hands unsent (pl_workers s) + mset (pl_created s)) + in_hands answered (pl_workers s)"
      using n(1) unclaimed_unsent by auto
    then have "n_Version n \<le> n_Version m" using core_versions [OF core] m(1) n(2) by simp
    then show ?thesis using i64_version(1) [OF store m(1) inv(2)] by simp
  qed
  then show ?thesis using st pend cl by (auto simp: superseded_def stale_def)
qed

section \<open>A worker alone\<close>

text \<open>One round of the loop of a worker is a run of the platform in which only this worker moves.\<close>

lemma work_step:
  assumes "platform_steps n s t" "i < length (pl_workers t)" "worker_step (pl_workers t ! i, pl_d t) (w, d)"
  shows "platform_steps (Suc n) s (t\<lparr>pl_d := d, pl_workers := (pl_workers t)[i := w]\<rparr>)"
  using platform_steps.more [OF assms(1) platform_step.work [OF assms(2,3)]] .

definition at_work :: "platform \<Rightarrow> nat \<Rightarrow> worker \<Rightarrow> Dispatcher \<Rightarrow> platform" where
  "at_work s i w d = s\<lparr>pl_d := d, pl_workers := (pl_workers s)[i := w]\<rparr>"

lemma at_work_step:
  assumes "platform_steps n s (at_work s i w d)" "i < length (pl_workers s)" "worker_step (w, d) (w', d')"
  shows "platform_steps (Suc n) s (at_work s i w' d')"
  using work_step [OF assms(1), of i w' d'] assms(2,3) by (simp add: at_work_def)

lemma deliver_run:
  assumes i: "i < length (pl_workers s)" and start: "platform_steps k s (at_work s i (Due n) d)" and k: "k \<le> 2"
  shows "\<exists>k \<le> 8. platform_steps k s (at_work s i Idle (deliver v n d))"
proof -
  note go = at_work_step [OF _ i]
  obtain d3 o3 where A: "deliver_admit v n d = (d3, o3)" by (cases "deliver_admit v n d")
  note s3 = go [OF start worker_step.admit_step [OF A]]
  show ?thesis
  proof (cases o3)
    case None
    then show ?thesis using s3 A k by (intro exI [of _ "Suc k"]) (simp add: deliver_def)
  next
    case o3: (Some n3)
    obtain d4 o4 where C: "deliver_claim v n3 d3 = (d4, o4)" by (cases "deliver_claim v n3 d3")
    note s4 = go [OF s3 [unfolded o3 after.simps] worker_step.claim_step [OF C]]
    show ?thesis
    proof (cases o4)
      case None
      then show ?thesis using s4 A C o3 k by (intro exI [of _ "k + 2"]) (simp add: deliver_def)
    next
      case o4: (Some n4)
      obtain d5 o5 where H: "deliver_choose v n4 d4 = (d5, o5)" by (cases "deliver_choose v n4 d4")
      note s5 = go [OF s4 [unfolded o4 after.simps] worker_step.choose_step [OF H]]
      show ?thesis
      proof (cases o5)
        case None
        then show ?thesis using s5 A C H o3 o4 k by (intro exI [of _ "k + 3"]) (simp add: deliver_def numeral_3_eq_3)
      next
        case o5: (Some x)
        obtain n5 p where x: "x = (n5, p)" by (cases x)
        obtain d6 n6 result err where S: "deliver_send v n5 p d5 = (d6, n6, result, err)" by (metis prod_cases4)
        note s6 = go [OF s5 [unfolded o5 x after.simps prod.case] worker_step.send_step [OF S]]
        note s8 = go [OF go [OF s6 worker_step.record_step [where v = v]] worker_step.finish_step [where v = v]]
        have "deliver v n d = deliver_finish v n6 result err (deliver_record v p err d6)"
          by (simp add: deliver_def A C H S o3 o4 o5 x)
        then show ?thesis using s8 k by (intro exI [of _ "k + 6"]) (simp add: eval_nat_numeral)
      qed
    qed
  qed
qed

lemma loop_round_run:
  assumes i: "i < length (pl_workers s)" "pl_workers s ! i = Idle"
  shows "\<exists>n \<le> 8. platform_steps n s (s\<lparr>pl_d := loop_round v (pl_d s)\<rparr>)"
proof -
  have idle: "at_work s i Idle d = s\<lparr>pl_d := d\<rparr>" for d
    using i by (simp add: at_work_def list_update_same_conv)
  have start: "platform_steps 0 s (at_work s i Idle (pl_d s))" unfolding idle by (simp add: platform_steps.none)
  note go = at_work_step [OF _ i(1)]
  obtain q o1 where Q: "Dequeue (d_Queue (pl_d s)) = (q, o1)" by (cases "Dequeue (d_Queue (pl_d s))")
  show ?thesis
  proof (cases o1)
    case None
    have "q = d_Queue (pl_d s)" using Q None by (auto simp: Dequeue_def split: option.splits prod.splits)
    then have "s\<lparr>pl_d := loop_round v (pl_d s)\<rparr> = s" using Q None by (simp add: loop_round_def)
    then show ?thesis using platform_steps.none by (metis le0)
  next
    case (Some n1)
    note s1 = go [OF start worker_step.take_step [OF Q [unfolded Some]]]
    obtain d2 o2 where L: "loop_schedule v n1 ((pl_d s)\<lparr>d_Queue := q\<rparr>) = (d2, o2)" by (cases "loop_schedule v n1 ((pl_d s)\<lparr>d_Queue := q\<rparr>)")
    note s2 = go [OF s1 worker_step.schedule_step [OF L]]
    show ?thesis
    proof (cases o2)
      case None
      then show ?thesis using s2 Q Some L by (intro exI [of _ 2]) (simp add: loop_round_def idle numeral_2_eq_2)
    next
      case o2: (Some n2)
      have R: "loop_round v (pl_d s) = deliver v n2 d2" using Q Some L o2 by (simp add: loop_round_def)
      have "\<exists>n \<le> 8. platform_steps n s (at_work s i Idle (deliver v n2 d2))"
        using deliver_run [OF i(1), of 2 n2 d2 v] s2 o2 by (simp add: numeral_2_eq_2)
      then show ?thesis unfolding R idle .
    qed
  qed
qed

end
