(* ===== verification/Template_Service.thy ===== *)
theory Template_Service
  imports Go_Prelude
begin

text \<open>
  The package \<open>internal/template\<close>: definitions with numbered versions, publication, rendering and the
  redaction of sensitive variables.  The engine of \<open>text/template\<close> (parsing with the function \<open>safe\<close>, executing) and the printing
  of a value that is neither a string nor bytes by \<open>fmt.Sprint\<close> are parameters; \<open>html.EscapeString\<close> is modelled.
  The cache of the Go struct is allocated and never used.

  Slices share their array: \<open>Publish\<close> works on a copy of the definition whose slice is the stored one, so its
  changes to the flags are visible in the store even when it returns an error.
\<close>

section \<open>Data\<close>

record Variable =
  var_Name :: string
  var_Type :: string
  var_Required :: bool
  var_Sensitive :: bool

record Version =
  tv_Number :: int
  tv_Locale :: string
  tv_Subject :: string
  tv_TextBody :: string
  tv_HTMLBody :: string
  tv_Variables :: "Variable list"
  tv_Published :: bool

record Definition =
  def_ID :: string
  def_TenantID :: string
  def_Name :: string
  def_Versions :: "Version list"

type_synonym Templates = "string \<rightharpoonup> Definition"

datatype 'x any_value = StringValue string | BytesValue string | OtherValue 'x

definition NewService :: Templates where
  "NewService = Map.empty"

definition empty_Version :: Version where
  "empty_Version = \<lparr>tv_Number = 0, tv_Locale = [], tv_Subject = [], tv_TextBody = [], tv_HTMLBody = [], tv_Variables = [], tv_Published = False\<rparr>"

definition empty_Definition :: Definition where
  "empty_Definition = \<lparr>def_ID = [], def_TenantID = [], def_Name = [], def_Versions = []\<rparr>"

section \<open>Versions\<close>

definition is_letter :: "char \<Rightarrow> bool" where
  "is_letter c \<longleftrightarrow> 65 \<le> (of_char c :: nat) \<and> (of_char c :: nat) \<le> 90 \<or> 97 \<le> (of_char c :: nat) \<and> (of_char c :: nat) \<le> 122"

text \<open>The regular expression \<^verbatim>\<open>^[a-zA-Z][a-zA-Z0-9_]{0,63}$\<close>.\<close>

definition variable_name_ok :: "string \<Rightarrow> bool" where
  "variable_name_ok s =
     (case s of [] \<Rightarrow> False
      | c # cs \<Rightarrow> is_letter c \<and> list_all (\<lambda>c. is_letter c \<or> is_digit c \<or> c = CHR ''_'') cs \<and> length cs \<le> 63)"

definition validateVersion :: "Version \<Rightarrow> go_error option" where
  "validateVersion v =
     (if TrimSpace (tv_TextBody v) = [] \<and> TrimSpace (tv_HTMLBody v) = [] then Some ''template body required''
      else if length (tv_TextBody v) + length (tv_HTMLBody v) > 2 ^ 20 then Some ''template too large''
      else if \<not> list_all (\<lambda>x. variable_name_ok (var_Name x)) (tv_Variables v) then Some ''invalid variable name''
      else None)"

definition Template_Create :: "Definition \<Rightarrow> Templates \<Rightarrow> Templates \<times> go_error option" where
  "Template_Create d s =
     (if def_ID d = [] \<or> def_TenantID d = [] then (s, Some ''template id and tenant required'')
      else if s (def_ID d) \<noteq> None then (s, Some ''template already exists'')
      else (s(def_ID d \<mapsto> d), None))"

definition AddVersion :: "string \<Rightarrow> Version \<Rightarrow> Templates \<Rightarrow> Templates \<times> go_error option" where
  "AddVersion tid v s =
     (case validateVersion v of
        Some e \<Rightarrow> (s, Some e)
      | None \<Rightarrow>
          (case s tid of
             None \<Rightarrow> (s, Some ''template not found'')
           | Some d \<Rightarrow>
               let v = v\<lparr>tv_Number := int (length (def_Versions d)) + 1\<rparr>
               in (s(tid \<mapsto> d\<lparr>def_Versions := def_Versions d @ [v]\<rparr>), None)))"

definition Publish :: "string \<Rightarrow> int \<Rightarrow> Templates \<Rightarrow> Templates \<times> go_error option" where
  "Publish tid version s =
     (case s tid of
        None \<Rightarrow> (s, Some ''template not found'')
      | Some d \<Rightarrow>
          let vs = map (\<lambda>v. v\<lparr>tv_Published := (tv_Number v = version)\<rparr>) (def_Versions d);
              found = list_ex tv_Published vs;
              s = s(tid \<mapsto> d\<lparr>def_Versions := vs\<rparr>)
          in if \<not> found then (s, Some ''version not found'') else (s, None))"

text \<open>The search for the published version from the end, and for a number from the start.\<close>

definition published_number :: "Version list \<Rightarrow> int option" where
  "published_number vs = map_option tv_Number (find tv_Published (rev vs))"

definition Template_Get :: "string \<Rightarrow> int \<Rightarrow> Templates \<Rightarrow> Definition \<times> go_error option" where
  "Template_Get tid version s =
     (case s tid of
        None \<Rightarrow> (empty_Definition, Some ''template not found'')
      | Some d \<Rightarrow>
          let version = (if version = 0 then (case published_number (def_Versions d) of None \<Rightarrow> version | Some k \<Rightarrow> k) else version)
          in (case find (\<lambda>v. tv_Number v = version) (def_Versions d) of
                Some v \<Rightarrow> (\<lparr>def_ID = def_ID d, def_TenantID = def_TenantID d, def_Name = def_Name d, def_Versions = [v]\<rparr>, None)
              | None \<Rightarrow> (empty_Definition, Some ''version not found'')))"

section \<open>Rendering\<close>

definition toString :: "('x \<Rightarrow> string) \<Rightarrow> 'x any_value \<Rightarrow> string" where
  "toString sprint v =
     (case v of StringValue x \<Rightarrow> x
      | BytesValue x \<Rightarrow> x
      | OtherValue x \<Rightarrow> TrimSpace (map (\<lambda>c. if c = CHR 0x0A then CHR '' '' else c) (TrimSpace (sprint x))))"

text \<open>\<open>html.EscapeString\<close> of the standard library.\<close>

definition escape_char :: "char \<Rightarrow> string" where
  "escape_char c =
     (if c = CHR ''&'' then ''&amp;'' else if c = CHR 0x27 then ''&#39;'' else if c = CHR ''<'' then ''&lt;''
      else if c = CHR ''>'' then ''&gt;'' else if c = CHR 0x22 then ''&#34;'' else [c])"

definition EscapeString :: "string \<Rightarrow> string" where
  "EscapeString s = concat (map escape_char s)"

definition safe :: "('x \<Rightarrow> string) \<Rightarrow> 'x any_value \<Rightarrow> string" where
  "safe sprint x = EscapeString (toString sprint x)"

fun validateVars :: "Variable list \<Rightarrow> (string \<rightharpoonup> 'x any_value) \<Rightarrow> go_error option" where
  "validateVars [] vars = None"
| "validateVars (v # spec) vars =
     (if var_Required v \<and> vars (var_Name v) = None then Some (''missing variable: '' @ var_Name v) else validateVars spec vars)"

fun redact_loop :: "('x \<Rightarrow> string) \<Rightarrow> (string \<rightharpoonup> 'x any_value) \<Rightarrow> Variable list \<Rightarrow> (string \<rightharpoonup> string) \<Rightarrow> string \<rightharpoonup> string" where
  "redact_loop sprint vars [] out = out"
| "redact_loop sprint vars (v # spec) out =
     redact_loop sprint vars spec
       (case vars (var_Name v) of
          None \<Rightarrow> out
        | Some val \<Rightarrow> out(var_Name v \<mapsto> (if var_Sensitive v then ''[REDACTED]'' else toString sprint val)))"

definition redact :: "('x \<Rightarrow> string) \<Rightarrow> (string \<rightharpoonup> 'x any_value) \<Rightarrow> Variable list \<Rightarrow> string \<rightharpoonup> string" where
  "redact sprint vars spec = redact_loop sprint vars spec Map.empty"

text \<open>The closure \<open>render\<close>: parse with the function \<open>safe\<close> and execute on the variables.\<close>

definition render ::
  "(('x any_value \<Rightarrow> string) \<Rightarrow> string \<Rightarrow> string \<Rightarrow> go_error + 't) \<Rightarrow> ('t \<Rightarrow> (string \<rightharpoonup> 'x any_value) \<Rightarrow> go_error + string) \<Rightarrow>
   ('x \<Rightarrow> string) \<Rightarrow> (string \<rightharpoonup> 'x any_value) \<Rightarrow> string \<Rightarrow> string \<Rightarrow> go_error + string" where
  "render parse execute sprint vars name src =
     (case parse (safe sprint) name src of Inl e \<Rightarrow> Inl e | Inr t \<Rightarrow> execute t vars)"

definition Render ::
  "(('x any_value \<Rightarrow> string) \<Rightarrow> string \<Rightarrow> string \<Rightarrow> go_error + 't) \<Rightarrow> ('t \<Rightarrow> (string \<rightharpoonup> 'x any_value) \<Rightarrow> go_error + string) \<Rightarrow>
   ('x \<Rightarrow> string) \<Rightarrow> string \<Rightarrow> int \<Rightarrow> (string \<rightharpoonup> 'x any_value) \<Rightarrow> Templates \<Rightarrow>
   Version \<times> (string \<rightharpoonup> string) option \<times> go_error option" where
  "Render parse execute sprint tid version vars s =
     (case Template_Get tid version s of
        (_, Some e) \<Rightarrow> (empty_Version, None, Some e)
      | (d, None) \<Rightarrow>
          let v = hd (def_Versions d); r = render parse execute sprint vars in
          case validateVars (tv_Variables v) vars of
            Some e \<Rightarrow> (empty_Version, None, Some e)
          | None \<Rightarrow>
              (case r ''subject'' (tv_Subject v) of
                 Inl e \<Rightarrow> (empty_Version, None, Some e)
               | Inr sub \<Rightarrow>
                   (case r ''text'' (tv_TextBody v) of
                      Inl e \<Rightarrow> (empty_Version, None, Some e)
                    | Inr txt \<Rightarrow>
                        (case r ''html'' (tv_HTMLBody v) of
                           Inl e \<Rightarrow> (empty_Version, None, Some e)
                         | Inr htm \<Rightarrow>
                             let v = v\<lparr>tv_Subject := sub, tv_TextBody := txt, tv_HTMLBody := htm\<rparr>
                             in (v, Some (redact sprint vars (tv_Variables v)), None)))))"

definition variable_before :: "Variable \<Rightarrow> Variable \<Rightarrow> bool" where
  "variable_before a b = (var_Name a < var_Name b)"

definition SortedVariables :: "Variable list \<Rightarrow> Variable list" where
  "SortedVariables vs = sort_Slice variable_before vs"

interpretation variable_order: weak_order variable_before
  by unfold_locales (auto simp: variable_before_def)

section \<open>Publishing\<close>

abbreviation published_as :: "int \<Rightarrow> Version list \<Rightarrow> Version list" where
  "published_as k vs \<equiv> map (\<lambda>v. v\<lparr>tv_Published := (tv_Number v = k)\<rparr>) vs"

lemma find_published_as:
  "find (\<lambda>v. tv_Number v = j) (published_as k vs) = map_option (\<lambda>v. v\<lparr>tv_Published := (j = k)\<rparr>) (find (\<lambda>v. tv_Number v = j) vs)"
  by (induction vs) auto

lemma published_number_as:
  "published_number (published_as k vs) = (if find (\<lambda>v. tv_Number v = k) vs = None then None else Some k)"
proof -
  have "find tv_Published (published_as k xs) = map_option (\<lambda>v. v\<lparr>tv_Published := True\<rparr>) (find (\<lambda>v. tv_Number v = k) xs)" for xs
    by (induction xs) auto
  then have F: "find tv_Published (rev (published_as k vs)) = map_option (\<lambda>v. v\<lparr>tv_Published := True\<rparr>) (find (\<lambda>v. tv_Number v = k) (rev vs))"
    by (simp add: rev_map)
  have N: "find (\<lambda>v. tv_Number v = k) (rev vs) = None \<longleftrightarrow> find (\<lambda>v. tv_Number v = k) vs = None" by (simp add: find_None_iff)
  show ?thesis
  proof (cases "find (\<lambda>v. tv_Number v = k) (rev vs)")
    case None
    then show ?thesis using N by (simp add: published_number_def F)
  next
    case (Some v)
    then have "tv_Number v = k" by (auto simp: find_Some_iff)
    then show ?thesis using N Some by (simp add: published_number_def F)
  qed
qed

lemma find_snoc: "find P (xs @ [x]) = (case find P xs of None \<Rightarrow> if P x then Some x else None | Some y \<Rightarrow> Some y)"
  by (induction xs) auto

lemma list_ex_published: "list_ex tv_Published (published_as k vs) \<longleftrightarrow> find (\<lambda>v. tv_Number v = k) vs \<noteq> None"
  by (auto simp: list_ex_iff find_None_iff)

text \<open>C17: Publishing on a stored template, whatever versions it has: other templates stay as they are, and of the template's versions only the flags
  change.  When one has the number, there is no error, and the first version with that number is the one that is found without a
  number from then on, also after versions that are not marked as published are added.  When none has, the call is an error and leaves no
  version published: without a number nothing is found, unless a client has numbered a version zero.\<close>

theorem Publish_spec:
  assumes "s tid = Some d" "Publish tid k s = (s', err)"
  shows "(\<forall>t. t \<noteq> tid \<longrightarrow> s' t = s t) \<and>
    (\<exists>vs. s' tid = Some (d\<lparr>def_Versions := vs\<rparr>) \<and> map (tv_Published_update (\<lambda>_. False)) vs = map (tv_Published_update (\<lambda>_. False)) (def_Versions d) \<and>
      (case find (\<lambda>v. tv_Number v = k) (def_Versions d) of
         Some v \<Rightarrow> err = None \<and> Template_Get tid 0 s' = (d\<lparr>def_Versions := [v\<lparr>tv_Published := True\<rparr>]\<rparr>, None) \<and>
           (\<forall>w. \<not> tv_Published w \<longrightarrow> Template_Get tid 0 (fst (AddVersion tid w s')) = Template_Get tid 0 s')
       | None \<Rightarrow> err = Some ''version not found'' \<and> (\<forall>v \<in> set vs. \<not> tv_Published v) \<and>
           ((\<forall>v \<in> set vs. tv_Number v \<noteq> 0) \<longrightarrow> Template_Get tid 0 s' = (empty_Definition, Some ''version not found''))))"
proof -
  let ?vs = "def_Versions d"
  have P: "s' = s(tid \<mapsto> d\<lparr>def_Versions := published_as k ?vs\<rparr>)" "err = (if find (\<lambda>v. tv_Number v = k) ?vs = None then Some ''version not found'' else None)"
    using assms by (auto simp: Publish_def Let_def list_ex_published split: if_splits)
  have frame: "map (tv_Published_update (\<lambda>_. False)) (published_as k ?vs) = map (tv_Published_update (\<lambda>_. False)) ?vs" by simp
  show ?thesis
  proof (cases "find (\<lambda>v. tv_Number v = k) ?vs")
    case None
    then have "\<forall>v \<in> set (published_as k ?vs). \<not> tv_Published v" by (auto simp: find_None_iff)
    moreover have "Template_Get tid 0 s' = (empty_Definition, Some ''version not found'')" if "\<forall>v \<in> set (published_as k ?vs). tv_Number v \<noteq> 0"
    proof -
      have "find (\<lambda>v. tv_Number v = 0) ?vs = None" using that by (auto simp: find_None_iff)
      then show ?thesis using None by (simp add: P(1) Template_Get_def published_number_as find_published_as Let_def)
    qed
    ultimately show ?thesis using None P frame by (intro conjI exI [of _ "published_as k ?vs"]) auto
  next
    case (Some v)
    have get: "Template_Get tid 0 s' = (d\<lparr>def_Versions := [v\<lparr>tv_Published := True\<rparr>]\<rparr>, None)"
      using Some by (simp add: P(1) Template_Get_def published_number_as find_published_as Let_def)
    have "Template_Get tid 0 (fst (AddVersion tid w s')) = Template_Get tid 0 s'" if w: "\<not> tv_Published w" for w
    proof -
      define w' where "w' = w\<lparr>tv_Number := int (length ?vs) + 1\<rparr>"
      have "published_number (published_as k ?vs @ [w']) = Some k"
        using w published_number_as [of k ?vs] Some by (simp add: published_number_def w'_def)
      then show ?thesis
        unfolding get using Some
        by (auto simp: AddVersion_def P(1) Template_Get_def published_number_as find_published_as find_snoc w'_def [symmetric] Let_def split: option.splits)
    qed
    then show ?thesis using Some P frame get by (intro conjI exI [of _ "published_as k ?vs"]) auto
  qed
qed

definition sample_version :: Version where
  "sample_version = empty_Version\<lparr>tv_TextBody := ''hello''\<rparr>"

definition sample_definition :: Definition where
  "sample_definition = \<lparr>def_ID = ''t1'', def_TenantID = ''acme'', def_Name = ''welcome'', def_Versions = []\<rparr>"

definition sample_templates :: Templates where
  "sample_templates = fst (AddVersion ''t1'' sample_version (fst (Template_Create sample_definition NewService)))"

lemma sample_templates_t1: "sample_templates ''t1'' = Some (sample_definition\<lparr>def_Versions := [sample_version\<lparr>tv_Number := 1\<rparr>]\<rparr>)"
proof -
  have "validateVersion sample_version = None" by (simp add: validateVersion_def sample_version_def empty_Version_def go_defs)
  then show ?thesis
    by (simp add: sample_templates_def AddVersion_def Template_Create_def NewService_def sample_definition_def)
qed

theorem Publish_spec_witness:
  "snd (Publish ''t1'' 1 sample_templates) = None \<and>
   Template_Get ''t1'' 0 (fst (Publish ''t1'' 1 sample_templates)) =
     (sample_definition\<lparr>def_Versions := [sample_version\<lparr>tv_Number := 1, tv_Published := True\<rparr>]\<rparr>, None) \<and>
   snd (Publish ''t1'' 2 sample_templates) = Some ''version not found''"
proof -
  obtain s1 e1 s2 e2 where P: "Publish ''t1'' 1 sample_templates = (s1, e1)" "Publish ''t1'' 2 sample_templates = (s2, e2)" by fastforce
  from Publish_spec [OF sample_templates_t1 P(1)] Publish_spec [OF sample_templates_t1 P(2)] show ?thesis by (auto simp: P)
qed

section \<open>Redaction\<close>

text \<open>The names that some variable of the specification exposes.\<close>

definition exposed :: "Variable list \<Rightarrow> string set" where
  "exposed spec = var_Name ` set (filter (\<lambda>v. \<not> var_Sensitive v) spec)"

lemma redact_loop_cong:
  assumes "dom vars = dom vars'" "\<forall>x \<in> exposed spec. vars x = vars' x"
  shows "redact_loop sprint vars spec out = redact_loop sprint vars' spec out"
  using assms(2)
proof (induction spec arbitrary: out)
  case (Cons v spec)
  have "vars (var_Name v) = None \<longleftrightarrow> vars' (var_Name v) = None" using assms(1) by (auto simp: domIff)
  moreover have "\<not> var_Sensitive v \<Longrightarrow> vars (var_Name v) = vars' (var_Name v)" using Cons.prems by (auto simp: exposed_def)
  moreover have "\<forall>x \<in> exposed spec. vars x = vars' x" using Cons.prems by (auto simp: exposed_def)
  ultimately show ?case using Cons.IH by (auto split: option.splits)
qed simp

lemma redact_loop_hidden:
  assumes "x \<notin> exposed spec"
  shows "redact_loop sprint vars spec out x = (if x \<in> var_Name ` set spec \<and> x \<in> dom vars then Some ''[REDACTED]'' else out x)"
  using assms
proof (induction spec arbitrary: out)
  case (Cons v spec)
  then have "x \<notin> exposed spec" "x = var_Name v \<Longrightarrow> var_Sensitive v" by (auto simp: exposed_def)
  then show ?case using Cons.IH by (auto split: option.splits)
qed simp

text \<open>C18: The redacted variables do not depend on the values of sensitive variables: two sets of
  variables with the same names that agree on what the specification exposes give the same result, and a
  variable that occurs in the specification only as sensitive is shown as redacted.\<close>

theorem redact_noninterference:
  assumes "dom vars = dom vars'" "\<forall>x \<in> exposed spec. vars x = vars' x"
  shows "redact sprint vars spec = redact sprint vars' spec \<and>
    (\<forall>x. x \<in> var_Name ` set spec \<longrightarrow> x \<in> dom vars \<longrightarrow> x \<notin> exposed spec \<longrightarrow> redact sprint vars spec x = Some ''[REDACTED]'')"
proof (intro conjI allI impI)
  show "redact sprint vars spec = redact sprint vars' spec" unfolding redact_def by (rule redact_loop_cong [OF assms])
  show "redact sprint vars spec x = Some ''[REDACTED]''" if "x \<in> var_Name ` set spec" "x \<in> dom vars" "x \<notin> exposed spec" for x
    unfolding redact_def using redact_loop_hidden [OF that(3), of sprint vars] that(1,2) by simp
qed

definition sample_spec :: "Variable list" where
  "sample_spec = [\<lparr>var_Name = ''name'', var_Type = [], var_Required = True, var_Sensitive = False\<rparr>,
                  \<lparr>var_Name = ''token'', var_Type = [], var_Required = True, var_Sensitive = True\<rparr>]"

theorem redact_noninterference_witness:
  "redact (\<lambda>x. x) [''name'' \<mapsto> StringValue ''Ann'', ''token'' \<mapsto> StringValue ''1234''] sample_spec =
   redact (\<lambda>x. x) [''name'' \<mapsto> StringValue ''Ann'', ''token'' \<mapsto> OtherValue ''9''] sample_spec \<and>
   redact (\<lambda>x. x) [''name'' \<mapsto> StringValue ''Ann'', ''token'' \<mapsto> StringValue ''1234''] sample_spec ''token'' = Some ''[REDACTED]''"
proof -
  define A :: "string \<rightharpoonup> string any_value" where "A = [''name'' \<mapsto> StringValue ''Ann'', ''token'' \<mapsto> StringValue ''1234'']"
  define B :: "string \<rightharpoonup> string any_value" where "B = [''name'' \<mapsto> StringValue ''Ann'', ''token'' \<mapsto> OtherValue ''9'']"
  have ex: "exposed sample_spec = {''name''}" "''token'' \<in> var_Name ` set sample_spec" by (auto simp: exposed_def sample_spec_def)
  have ab: "dom A = dom B" "A ''name'' = B ''name''" "''token'' \<in> dom A" by (simp_all add: A_def B_def insert_commute)
  have "\<forall>x \<in> exposed sample_spec. A x = B x" "''token'' \<notin> exposed sample_spec" using ex ab by simp_all
  with redact_noninterference [OF ab(1), of sample_spec "\<lambda>x. x"] ex(2) ab(3)
  have "redact (\<lambda>x. x) A sample_spec = redact (\<lambda>x. x) B sample_spec" "redact (\<lambda>x. x) A sample_spec ''token'' = Some ''[REDACTED]''" by blast+
  then show ?thesis unfolding A_def B_def by blast
qed

text \<open>A specification that names a variable twice, last as not sensitive, shows its value.\<close>

lemma redact_duplicate_leaks:
  "redact sprint [''token'' \<mapsto> StringValue ''1234'']
     [\<lparr>var_Name = ''token'', var_Type = [], var_Required = True, var_Sensitive = True\<rparr>,
      \<lparr>var_Name = ''token'', var_Type = [], var_Required = False, var_Sensitive = False\<rparr>] ''token'' = Some ''1234''"
  by (simp add: redact_def toString_def)

section \<open>Escaping\<close>

text \<open>What the template function \<open>safe\<close> inserts contains no character that opens or closes an HTML tag or an attribute value.\<close>

lemma safe_no_markup: "set (safe sprint x) \<inter> {CHR ''<'', CHR ''>'', CHR 0x22, CHR 0x27} = {}"
  by (auto simp: safe_def EscapeString_def escape_char_def split: if_splits)

section \<open>Rendering and sorting\<close>

text \<open>A successful rendering has every required variable, the three texts are what the engine makes of the version's sources, and
  the rest of the version is unchanged.\<close>

lemma validateVars_None_iff: "validateVars spec vars = None \<longleftrightarrow> (\<forall>v \<in> set spec. var_Required v \<longrightarrow> vars (var_Name v) \<noteq> None)"
  by (induction spec) auto

lemma Render_ok:
  assumes "Render parse execute sprint tid version vars s = (v, out, None)"
  obtains d w where "Template_Get tid version s = (d, None)" "w = hd (def_Versions d)"
    "\<forall>x \<in> set (tv_Variables w). var_Required x \<longrightarrow> vars (var_Name x) \<noteq> None"
    "render parse execute sprint vars ''subject'' (tv_Subject w) = Inr (tv_Subject v)"
    "render parse execute sprint vars ''text'' (tv_TextBody w) = Inr (tv_TextBody v)"
    "render parse execute sprint vars ''html'' (tv_HTMLBody w) = Inr (tv_HTMLBody v)"
    "tv_Variables v = tv_Variables w" "tv_Number v = tv_Number w" "out = Some (redact sprint vars (tv_Variables w))"
proof -
  obtain d where d: "Template_Get tid version s = (d, None)"
    using assms by (auto simp: Render_def split: prod.splits option.splits)
  then have "validateVars (tv_Variables (hd (def_Versions d))) vars = None" using assms by (auto simp: Render_def Let_def split: option.splits)
  then show thesis
    using that [OF d refl] assms d unfolding validateVars_None_iff
    by (auto simp: Render_def Let_def split: option.splits sum.splits)
qed

lemma SortedVariables_sorted: "mset (SortedVariables vs) = mset vs" "sorted_wrt (\<lambda>a b. var_Name a \<le> var_Name b) (SortedVariables vs)"
proof -
  show "mset (SortedVariables vs) = mset vs" by (simp add: SortedVariables_def)
  have "sorted_by variable_before (SortedVariables vs)" unfolding SortedVariables_def by (rule variable_order.sort_Slice_sorted)
  then show "sorted_wrt (\<lambda>a b. var_Name a \<le> var_Name b) (SortedVariables vs)"
    unfolding sorted_by_def by (rule sorted_wrt_mono_rel [rotated]) (auto simp: variable_before_def)
qed

end
