(* ===== verification/Go_Strconv.thy ===== *)
theory Go_Strconv
  imports Go_Prelude Go_Float
begin

text \<open>
  What the packages use of \<open>strings\<close>, \<open>strconv\<close> and \<open>time\<close> to take texts apart: splitting and trimming, \<open>strconv.Atoi\<close>
  with its fast and its general path, and \<open>time.ParseDuration\<close> with its overflow checks and its rounding of
  fractions.  The values that come with an error are modelled, since the program uses them.
\<close>

section \<open>Splitting and trimming\<close>

fun strings_Split :: "char \<Rightarrow> string \<Rightarrow> string list" where
  "strings_Split sep [] = [[]]"
| "strings_Split sep (c # s) =
     (if c = sep then [] # strings_Split sep s
      else (case strings_Split sep s of [] \<Rightarrow> [[c]] | p # ps \<Rightarrow> (c # p) # ps))"

text \<open>\<open>strings.SplitN\<close> with at most two parts.\<close>

definition SplitN_2 :: "char \<Rightarrow> string \<Rightarrow> string list" where
  "SplitN_2 sep s =
     (case dropWhile (\<lambda>c. c \<noteq> sep) s of [] \<Rightarrow> [s] | _ # r \<Rightarrow> [takeWhile (\<lambda>c. c \<noteq> sep) s, r])"

definition strings_Trim :: "char set \<Rightarrow> string \<Rightarrow> string" where
  "strings_Trim cutset s = rev (dropWhile (\<lambda>c. c \<in> cutset) (rev (dropWhile (\<lambda>c. c \<in> cutset) s)))"

definition TrimPrefix :: "string \<Rightarrow> string \<Rightarrow> string" where
  "TrimPrefix s p = (if HasPrefix s p then drop (length p) s else s)"

lemma strings_Split_nonempty [simp]: "strings_Split sep s \<noteq> []"
  by (cases s) (auto split: list.splits)

lemma strings_Split_plain: "sep \<notin> set s \<Longrightarrow> strings_Split sep s = [s]"
  by (induction s) auto

lemma strings_Split_sep: "sep \<notin> set a \<Longrightarrow> strings_Split sep (a @ sep # s) = a # strings_Split sep s"
  by (induction a) auto

lemma SplitN_2_sep: "sep \<notin> set a \<Longrightarrow> SplitN_2 sep (a @ sep # s) = [a, s]"
  by (induction a) (auto simp: SplitN_2_def split: list.splits)

section \<open>Integers\<close>

datatype num_error = ErrSyntax | ErrRange

text \<open>The loop of \<open>ParseUint\<close> in base ten; \<open>n\<close> is the value so far.\<close>

definition digit_value :: "char \<Rightarrow> int" where
  "digit_value c = int (of_char c) - 48"

fun parse_digits :: "int \<Rightarrow> string \<Rightarrow> int \<times> num_error option" where
  "parse_digits n [] = (n, None)"
| "parse_digits n (c # cs) =
     (if \<not> is_digit c then (0, Some ErrSyntax)
      else if n \<ge> (2 ^ 64 - 1) div 10 + 1 then (2 ^ 64 - 1, Some ErrRange)
      else let m = n * 10 + digit_value c in
           if m > 2 ^ 64 - 1 then (2 ^ 64 - 1, Some ErrRange) else parse_digits m cs)"

definition ParseInt_10 :: "string \<Rightarrow> int \<times> num_error option" where
  "ParseInt_10 s =
     (let neg = (s \<noteq> [] \<and> hd s = CHR ''-'');
          s' = (if s \<noteq> [] \<and> (hd s = CHR ''-'' \<or> hd s = CHR ''+'') then tl s else s)
      in if s' = [] then (0, Some ErrSyntax)
         else case parse_digits 0 s' of
           (_, Some ErrSyntax) \<Rightarrow> (0, Some ErrSyntax)
         | (un, _) \<Rightarrow>
             if \<not> neg \<and> un \<ge> 2 ^ 63 then (2 ^ 63 - 1, Some ErrRange)
             else if neg \<and> un > 2 ^ 63 then (- (2 ^ 63), Some ErrRange)
             else (if neg then - un else un, None))"

fun atoi_digits :: "int \<Rightarrow> string \<Rightarrow> int option" where
  "atoi_digits n [] = Some n"
| "atoi_digits n (c # cs) = (if \<not> is_digit c then None else atoi_digits (n * 10 + digit_value c) cs)"

definition Atoi :: "string \<Rightarrow> int \<times> num_error option" where
  "Atoi s =
     (if 0 < length s \<and> length s < 19
      then
        let s' = (if hd s = CHR ''-'' \<or> hd s = CHR ''+'' then tl s else s)
        in if s' = [] then (0, Some ErrSyntax)
           else case atoi_digits 0 s' of
             None \<Rightarrow> (0, Some ErrSyntax)
           | Some n \<Rightarrow> (if hd s = CHR ''-'' then - n else n, None)
      else ParseInt_10 s)"

text \<open>Both paths read back what \<open>strconv.Itoa\<close> prints.\<close>

lemma atoi_digits_val: "list_all is_digit cs \<Longrightarrow> atoi_digits n cs = Some (dec_val cs n)"
  by (induction cs arbitrary: n) (simp_all add: digit_value_def mult.commute)

lemma dec_val_mono: "list_all is_digit cs \<Longrightarrow> 0 \<le> n \<Longrightarrow> n \<le> dec_val cs n"
proof (induction cs arbitrary: n)
  case (Cons c cs)
  have "0 \<le> int (of_char c) - 48" using Cons.prems(1) by (simp add: is_digit_def)
  then have "n \<le> 10 * n + (int (of_char c) - 48)" "0 \<le> 10 * n + (int (of_char c) - 48)" using Cons.prems(2) by auto
  then show ?case using Cons.IH [of "10 * n + (int (of_char c) - 48)"] Cons.prems(1) by simp
qed simp

lemma parse_digits_val:
  "list_all is_digit cs \<Longrightarrow> 0 \<le> n \<Longrightarrow> dec_val cs n \<le> 2 ^ 63 \<Longrightarrow> parse_digits n cs = (dec_val cs n, None)"
proof (induction cs arbitrary: n)
  case (Cons c cs)
  have d: "0 \<le> digit_value c" using Cons.prems(1) by (simp add: is_digit_def digit_value_def)
  let ?m = "n * 10 + digit_value c"
  have "?m \<le> dec_val cs ?m" using dec_val_mono [of cs ?m] Cons.prems d by simp
  moreover have "dec_val cs ?m \<le> 2 ^ 63" using Cons.prems(3) by (simp add: digit_value_def mult.commute)
  ultimately show ?case using Cons d by (simp add: Let_def) (simp add: digit_value_def mult.commute)
qed simp

lemma prepend_digits_pos: "0 < n \<Longrightarrow> prepend_digits n [] \<noteq> []"
proof -
  assume n: "0 < n"
  then have "dec_val (prepend_digits n []) 0 = n" using dec_val_prepend_digits [of n "[]"] by simp
  then show ?thesis using n by auto
qed

lemma digits_no_sign: "list_all is_digit s \<Longrightarrow> s \<noteq> [] \<Longrightarrow> hd s \<noteq> CHR ''-'' \<and> hd s \<noteq> CHR ''+''"
  by (cases s) (auto simp: is_digit_def)

lemma Atoi_fmt_d:
  assumes "in_i64 n"
  shows "Atoi (fmt_d n) = (n, None)"
proof -
  define a where "a = prepend_digits \<bar>n\<bar> []"
  have dig: "list_all is_digit a" unfolding a_def by (rule prepend_digits_digits) simp
  have val: "dec_val a 0 = \<bar>n\<bar>" using dec_val_prepend_digits [of "\<bar>n\<bar>" "[]"] by (simp add: a_def)
  have bound: "\<bar>n\<bar> \<le> 2 ^ 63" using assms by (auto simp: in_i64_def)
  have pd: "parse_digits 0 a = (\<bar>n\<bar>, None)" "atoi_digits 0 a = Some \<bar>n\<bar>"
    using parse_digits_val [OF dig, of 0] atoi_digits_val [OF dig, of 0] val bound by simp_all
  consider "n = 0" | "0 < n" | "n < 0" by linarith
  then show ?thesis
  proof cases
    case 1
    then show ?thesis by (simp add: fmt_d_def Atoi_def is_digit_def digit_value_def)
  next
    case 2
    then have f: "fmt_d n = a" "a \<noteq> []" using prepend_digits_pos by (simp_all add: fmt_d_def a_def)
    then show ?thesis
      using digits_no_sign [OF dig] pd 2 assms by (auto simp: Atoi_def ParseInt_10_def Let_def in_i64_def)
  next
    case 3
    then have f: "fmt_d n = CHR ''-'' # a" "a \<noteq> []" using prepend_digits_pos [of "- n"] by (simp_all add: fmt_d_def a_def)
    then show ?thesis using pd 3 assms by (auto simp: Atoi_def ParseInt_10_def Let_def in_i64_def)
  qed
qed

text \<open>The value is always a 64-bit integer, also when it comes with an error.\<close>

lemma dec_val_less: "list_all is_digit cs \<Longrightarrow> dec_val cs n < (n + 1) * 10 ^ length cs"
proof (induction cs arbitrary: n)
  case (Cons c cs)
  let ?m = "10 * n + (int (of_char c) - 48)"
  have "dec_val cs ?m < (?m + 1) * 10 ^ length cs" using Cons.prems by (intro Cons.IH) simp
  also have "\<dots> \<le> (10 * (n + 1)) * 10 ^ length cs"
    using Cons.prems by (intro mult_right_mono) (auto simp: is_digit_def)
  also have "\<dots> = (n + 1) * 10 ^ length (c # cs)" by simp
  finally show ?case by simp
qed simp

lemma atoi_digits_digits: "atoi_digits n cs = Some m \<Longrightarrow> list_all is_digit cs \<and> m = dec_val cs n"
  by (induction cs arbitrary: n) (auto simp: digit_value_def mult.commute split: if_splits)

lemma parse_digits_nonneg: "0 \<le> n \<Longrightarrow> 0 \<le> fst (parse_digits n cs)"
  by (induction n cs rule: parse_digits.induct) (auto simp: Let_def digit_value_def is_digit_def)

lemma Atoi_in_i64: "in_i64 (fst (Atoi s))"
proof (cases "0 < length s \<and> length s < 19")
  case True
  let ?s = "if hd s = CHR ''-'' \<or> hd s = CHR ''+'' then tl s else s"
  show ?thesis
  proof (cases "?s = [] \<or> atoi_digits 0 ?s = None")
    case True
    then show ?thesis using \<open>0 < length s \<and> length s < 19\<close> by (auto simp: Atoi_def Let_def in_i64_def)
  next
    case False
    then obtain m where m: "atoi_digits 0 ?s = Some m" by blast
    note D = atoi_digits_digits [OF m]
    have "length ?s \<le> 18" using True by auto
    then have "(10 :: int) ^ length ?s \<le> 10 ^ 18" by (intro power_increasing) auto
    moreover have "0 \<le> m" "m < 10 ^ length ?s" using D dec_val_mono [of ?s 0] dec_val_less [of ?s 0] by auto
    ultimately have "0 \<le> m" "m < 2 ^ 63" by auto
    then show ?thesis using True False m by (simp add: Atoi_def Let_def in_i64_def)
  qed
next
  case False
  let ?s = "if s \<noteq> [] \<and> (hd s = CHR ''-'' \<or> hd s = CHR ''+'') then tl s else s"
  have "0 \<le> fst (parse_digits 0 ?s)" by (rule parse_digits_nonneg) simp
  then have "in_i64 (fst (ParseInt_10 s))"
    unfolding ParseInt_10_def Let_def in_i64_def by (cases "parse_digits 0 ?s") (auto split: option.splits num_error.splits)
  then show ?thesis by (simp only: Atoi_def False if_False)
qed

section \<open>Durations\<close>

text \<open>\<open>leadingInt\<close>: the value of the leading digits and the rest, or an overflow.\<close>

fun leadingInt :: "int \<Rightarrow> string \<Rightarrow> (int \<times> string) option" where
  "leadingInt x [] = Some (x, [])"
| "leadingInt x (c # s) =
     (if \<not> is_digit c then Some (x, c # s)
      else if x > 2 ^ 63 div 10 then None
      else let x = x * 10 + digit_value c in if x > 2 ^ 63 then None else leadingInt x s)"

text \<open>\<open>leadingFraction\<close>: digits that would overflow are skipped; the powers of ten are exact floating-point numbers.\<close>

fun leadingFraction :: "int \<Rightarrow> rat \<Rightarrow> bool \<Rightarrow> string \<Rightarrow> int \<times> rat \<times> string" where
  "leadingFraction x scale overflow [] = (x, scale, [])"
| "leadingFraction x scale overflow (c # s) =
     (if \<not> is_digit c then (x, scale, c # s)
      else if overflow then leadingFraction x scale True s
      else if x > (2 ^ 63 - 1) div 10 then leadingFraction x scale True s
      else let y = x * 10 + digit_value c in
           if y > 2 ^ 63 then leadingFraction x scale True s else leadingFraction y (scale * 10) False s)"

definition unitMap :: "string \<rightharpoonup> int" where
  "unitMap u =
     (if u = ''ns'' then Some 1
      else if u = ''us'' \<or> u = [CHR 0xC2, CHR 0xB5, CHR ''s''] \<or> u = [CHR 0xCE, CHR 0xBC, CHR ''s''] then Some 1000
      else if u = ''ms'' then Some 1000000
      else if u = ''s'' then Some 1000000000
      else if u = ''m'' then Some (60 * 1000000000)
      else if u = ''h'' then Some (3600 * 1000000000)
      else None)"

definition unit_char :: "char \<Rightarrow> bool" where
  "unit_char c \<longleftrightarrow> c \<noteq> CHR ''.'' \<and> \<not> is_digit c"

text \<open>The optional fraction: whether it has digits, their value, its scale and the rest of the text.\<close>

definition parse_fraction :: "string \<Rightarrow> bool \<times> int \<times> rat \<times> string" where
  "parse_fraction s =
     (if s \<noteq> [] \<and> hd s = CHR ''.''
      then case leadingFraction 0 1 False (tl s) of (f, scale, r) \<Rightarrow> (length r \<noteq> length (tl s), f, scale, r)
      else (False, 0, 1, s))"

text \<open>One number with its unit: its value in nanoseconds and the rest of the text.\<close>

definition parse_term :: "string \<Rightarrow> (int \<times> string) option" where
  "parse_term s =
     (if s = [] \<or> \<not> (hd s = CHR ''.'' \<or> is_digit (hd s)) then None
      else case leadingInt 0 s of
        None \<Rightarrow> None
      | Some (v, s1) \<Rightarrow>
          let pre = (length s1 \<noteq> length s);
              (post, f, scale, s2) = parse_fraction s1;
              u = takeWhile unit_char s2
          in if \<not> pre \<and> \<not> post then None
             else if u = [] then None
             else case unitMap u of
               None \<Rightarrow> None
             | Some unit \<Rightarrow>
                 if v > 2 ^ 63 div unit then None
                 else let v = v * unit;
                          v = (if f > 0 then v + floor (fl64 (fl64 (of_int f) * fl64 (of_int unit / scale))) else v)
                      in if f > 0 \<and> v > 2 ^ 63 then None else Some (v, dropWhile unit_char s2))"

lemma leadingInt_rest: "leadingInt x s = Some (v, r) \<Longrightarrow> length r \<le> length s"
  by (induction x s rule: leadingInt.induct) (auto simp: Let_def split: if_splits)

lemma leadingFraction_rest: "leadingFraction x sc b s = (f, scale, r) \<Longrightarrow> length r \<le> length s"
  by (induction x sc b s rule: leadingFraction.induct) (auto simp: Let_def split: if_splits)

lemma unit_shorter: "takeWhile unit_char s \<noteq> [] \<Longrightarrow> length (dropWhile unit_char s) < length s"
  by (metis add_0 length_0_conv length_append length_greater_0_conv less_add_same_cancel2 takeWhile_dropWhile_id)

lemma parse_fraction_rest: "parse_fraction s = (post, f, scale, r) \<Longrightarrow> length r \<le> length s"
  by (cases s) (auto simp: parse_fraction_def split: prod.splits if_splits dest: leadingFraction_rest)

lemma parse_term_shorter:
  assumes "parse_term s = Some (v, r)"
  shows "length r < length s"
proof -
  obtain w s1 where L: "leadingInt 0 s = Some (w, s1)" using assms by (auto simp: parse_term_def split: option.splits if_splits)
  obtain post f scale s2 where P: "parse_fraction s1 = (post, f, scale, s2)" by (metis prod_cases4)
  have "takeWhile unit_char s2 \<noteq> []" "r = dropWhile unit_char s2"
    using assms L P by (auto simp: parse_term_def Let_def split: option.splits if_splits)
  then show ?thesis using leadingInt_rest [OF L] parse_fraction_rest [OF P] unit_shorter [of s2] by simp
qed

function parse_terms :: "int \<Rightarrow> string \<Rightarrow> int option" where
  "parse_terms d s =
     (if s = [] then Some d
      else case parse_term s of
        None \<Rightarrow> None
      | Some (v, r) \<Rightarrow> let d = (d + v) mod 2 ^ 64 in if d > 2 ^ 63 then None else parse_terms d r)"
  by pat_completeness auto
termination
  by (relation "measure (\<lambda>(d, s). length s)") (auto dest: parse_term_shorter)

declare parse_terms.simps [simp del]

text \<open>The value is zero when there is an error.\<close>

definition ParseDuration :: "string \<Rightarrow> duration \<times> bool" where
  "ParseDuration orig =
     (let neg = (orig \<noteq> [] \<and> hd orig = CHR ''-'');
          s = (if orig \<noteq> [] \<and> (hd orig = CHR ''-'' \<or> hd orig = CHR ''+'') then tl orig else orig)
      in if s = ''0'' then (0, True)
         else if s = [] then (0, False)
         else case parse_terms 0 s of
           None \<Rightarrow> (0, False)
         | Some d \<Rightarrow> if neg then (i64 (- d), True) else if d > 2 ^ 63 - 1 then (0, False) else (d, True))"

lemma leadingInt_val:
  "list_all is_digit cs \<Longrightarrow> 0 \<le> n \<Longrightarrow> dec_val cs n \<le> 2 ^ 63 \<Longrightarrow> rest = [] \<or> \<not> is_digit (hd rest) \<Longrightarrow>
   leadingInt n (cs @ rest) = Some (dec_val cs n, rest)"
proof (induction cs arbitrary: n)
  case Nil
  then show ?case by (cases rest) auto
next
  case (Cons c cs)
  have d: "0 \<le> digit_value c" using Cons.prems(1) by (simp add: is_digit_def digit_value_def)
  let ?m = "n * 10 + digit_value c"
  have "?m \<le> dec_val cs ?m" using dec_val_mono [of cs ?m] Cons.prems d by simp
  moreover have "dec_val cs ?m \<le> 2 ^ 63" using Cons.prems(3) by (simp add: digit_value_def mult.commute)
  ultimately show ?case using Cons d by (simp add: Let_def) (simp add: digit_value_def mult.commute)
qed

text \<open>A number of nanoseconds is read back.\<close>

lemma ParseDuration_ns:
  assumes "0 \<le> n" "n < 2 ^ 63"
  shows "ParseDuration (fmt_d n @ ''ns'') = (n, True)"
proof -
  define a where "a = fmt_d n"
  have dig: "list_all is_digit a \<and> a \<noteq> [] \<and> dec_val a 0 = n"
  proof (cases "n = 0")
    case True
    then show ?thesis by (simp add: a_def fmt_d_def is_digit_def)
  next
    case False
    then show ?thesis
      using assms(1) dec_val_prepend_digits [of n "[]"] prepend_digits_pos prepend_digits_digits [of "[]" n] by (simp add: a_def fmt_d_def)
  qed
  have s: "\<not> is_digit CHR ''n''" "\<not> is_digit CHR ''s''" by (simp_all add: is_digit_def)
  have L: "leadingInt 0 (a @ ''ns'') = Some (n, ''ns'')" using leadingInt_val [of a 0 "''ns''"] dig assms(2) s by simp
  have h: "hd (a @ ''ns'') = hd a" "is_digit (hd a)" using dig by (cases a; simp)+
  have "parse_term (a @ ''ns'') = Some (n, [])"
    using L h dig assms s by (simp add: parse_term_def parse_fraction_def unit_char_def unitMap_def)
  then have "parse_terms 0 (a @ ''ns'') = Some n"
    using assms by (subst parse_terms.simps) (simp add: parse_terms.simps [of n "[]"])
  moreover have "hd (a @ ''ns'') \<noteq> CHR ''-''" "hd (a @ ''ns'') \<noteq> CHR ''+''" using digits_no_sign dig h by metis+
  moreover have "a @ ''ns'' \<noteq> ''0''" using dig by (cases a) auto
  ultimately show ?thesis using assms(2) unfolding a_def [symmetric] by (simp add: ParseDuration_def Let_def)
qed

end
