(* ===== verification/HTTP_API.thy ===== *)
theory HTTP_API
  imports Application_Service Receipt_Service Template_Service Go_Strconv
begin

text \<open>
  The package \<open>internal/transport/httpapi\<close>: the routes, the handlers and their answers, over the application service, the
  receipts and the templates.  A handler takes a request and the server's state and returns the new state and the answer.
  The JSON decoders of \<open>encoding/json\<close> are parameters: they see the limited body and, when the connection fails, the error that follows it.
  The values encoded into an answer are kept as they are.  SHA-256 is a parameter, the clock, the random bytes, the outcomes of the file system and the
  order of map iterations are in the environment of a request.
\<close>

section \<open>Requests and answers\<close>

record http_req =
  hq_Method :: string
  hq_Path :: string
  hq_Header :: "string \<Rightarrow> string"
  hq_Query :: "string \<Rightarrow> string"
  hq_Body :: string
  hq_BodyErr :: "go_error option"
  hq_RemoteAddr :: string

record suppression_input =
  si_Channel :: Channel
  si_Address :: string
  si_Reason :: string

datatype payload =
    HealthJSON time
  | ErrorJSON string string
  | NotificationJSON Notification
  | NotificationsJSON "Notification list"
  | TimelineJSON "TimelineEvent list"
  | StatusJSON string
  | DefinitionJSON Definition
  | VersionJSON Version
  | PublishedJSON int
  | AcceptedJSON bool
  | SuppressionJSON Suppression
  | SuppressionsJSON "Suppression list"
  | AuditJSON "Outbox list"

record http_resp =
  rs_Status :: int
  rs_Header :: "string \<rightharpoonup> string"
  rs_Body :: payload

text \<open>The answer of a handler, the two answers of the mux itself, and the panic of a handler, which the server turns into a closed connection.\<close>

datatype outcome = Reply http_resp | Redirect string | MuxNotFound | HandlerPanic

record codec =
  js_Notification :: "string \<times> go_error option \<Rightarrow> go_error + Notification"
  js_Notifications :: "string \<times> go_error option \<Rightarrow> go_error + Notification list"
  js_Definition :: "string \<times> go_error option \<Rightarrow> go_error + Definition"
  js_Version :: "string \<times> go_error option \<Rightarrow> go_error + Version"
  js_Suppression :: "string \<times> go_error option \<Rightarrow> go_error + suppression_input"
  js_Event :: "string \<Rightarrow> go_error + ReceiptEvent"

record Server =
  sv_App :: Service
  sv_Templates :: Templates
  sv_WebhookSecret :: string

record api_env =
  ae_sum256 :: "string \<Rightarrow> string"
  ae_codec :: codec
  ae_submit :: "nat \<Rightarrow> submit_env"
  ae_rand :: string
  ae_clock :: "nat \<Rightarrow> time"
  ae_now_text :: string
  ae_io :: persist_io
  ae_order :: "string list"

definition httpapi_New :: "Service \<Rightarrow> Templates \<Rightarrow> string \<Rightarrow> Server" where
  "httpapi_New a t secret = \<lparr>sv_App = a, sv_Templates = t, sv_WebhookSecret = secret\<rparr>"

definition with_store :: "Store \<Rightarrow> Server \<Rightarrow> Server" where
  "with_store st s = s\<lparr>sv_App := (sv_App s)\<lparr>a_Store := st\<rparr>\<rparr>"

definition writeJSON :: "int \<Rightarrow> payload \<Rightarrow> outcome" where
  "writeJSON status v = Reply \<lparr>rs_Status = status, rs_Header = [''Content-Type'' \<mapsto> ''application/json''], rs_Body = v\<rparr>"

definition writeJSON_ETag :: "int \<Rightarrow> int \<Rightarrow> payload \<Rightarrow> outcome" where
  "writeJSON_ETag version status v =
     Reply \<lparr>rs_Status = status, rs_Header = [''ETag'' \<mapsto> fmt_d version, ''Content-Type'' \<mapsto> ''application/json''], rs_Body = v\<rparr>"

definition errorJSON :: "int \<Rightarrow> string \<Rightarrow> go_error \<Rightarrow> outcome" where
  "errorJSON status code err = writeJSON status (ErrorJSON code err)"

definition methodNotAllowed :: outcome where
  "methodNotAllowed = errorJSON 405 ''method_not_allowed'' ''method not allowed''"

definition limited :: "nat \<Rightarrow> http_req \<Rightarrow> string \<times> go_error option" where
  "limited n r = (take n (hq_Body r), if length (hq_Body r) < n then hq_BodyErr r else None)"

definition decode :: "(string \<times> go_error option \<Rightarrow> go_error + 'a) \<Rightarrow> http_req \<Rightarrow> go_error + 'a" where
  "decode js r = js (limited (2 * 2 ^ 20) r)"

definition http_hash :: "(string \<Rightarrow> string) \<Rightarrow> string list \<Rightarrow> string" where
  "http_hash sum256 v = hex_EncodeToString (sum256 (concat v))"

section \<open>Handlers\<close>

definition health :: "api_env \<Rightarrow> Server \<Rightarrow> Server \<times> outcome" where
  "health e s = (s, writeJSON 200 (HealthJSON (ae_clock e 0)))"

definition default_tenant :: "http_req \<Rightarrow> Notification \<Rightarrow> Notification" where
  "default_tenant r n = (if n_TenantID n = [] then n\<lparr>n_TenantID := hq_Header r ''X-Tenant-ID''\<rparr> else n)"

text \<open>The loop over the items of a batch; \<open>i\<close> is the index.\<close>

fun batch_loop :: "api_env \<Rightarrow> http_req \<Rightarrow> nat \<Rightarrow> Notification list \<Rightarrow> Notification list \<Rightarrow> Server \<Rightarrow> Server \<times> outcome" where
  "batch_loop e r i [] result s = (s, writeJSON 202 (NotificationsJSON result))"
| "batch_loop e r i (n # ns) result s =
     (case Submit (ae_sum256 e) (ae_submit e i) (default_tenant r n) (sv_App s) of
        (a, saved, _, err) \<Rightarrow>
          let s = s\<lparr>sv_App := a\<rparr> in
          case err of
            Some msg \<Rightarrow> (s, errorJSON 400 ''batch_item_failed'' (''item '' @ fmt_d (int i) @ '': '' @ msg))
          | None \<Rightarrow> batch_loop e r (Suc i) ns (result @ [saved]) s)"

definition notifications :: "api_env \<Rightarrow> http_req \<Rightarrow> Server \<Rightarrow> Server \<times> outcome" where
  "notifications e r s =
     (if HasSuffix (hq_Path r) ''/batch''
      then
        if hq_Method r \<noteq> ''POST'' then (s, methodNotAllowed)
        else case decode (js_Notifications (ae_codec e)) r of
          Inl err \<Rightarrow> (s, errorJSON 400 ''invalid_request'' err)
        | Inr input \<Rightarrow>
            if input = [] \<or> length input > 1000 then (s, errorJSON 400 ''invalid_request'' ''batch must contain 1..1000 notifications'')
            else batch_loop e r 0 input [] s
      else if hq_Method r = ''GET''
      then
        case Store_List (ae_order e) (hq_Header r ''X-Tenant-ID'') (fst (Atoi (hq_Query r ''limit''))) (fst (Atoi (hq_Query r ''offset''))) (a_Store (sv_App s)) of
          None \<Rightarrow> (s, HandlerPanic)
        | Some items \<Rightarrow> (s, writeJSON 200 (NotificationsJSON items))
      else if hq_Method r \<noteq> ''POST'' then (s, methodNotAllowed)
      else case decode (js_Notification (ae_codec e)) r of
        Inl err \<Rightarrow> (s, errorJSON 400 ''invalid_request'' err)
      | Inr n \<Rightarrow>
          (case Submit (ae_sum256 e) (ae_submit e 0) (default_tenant r n) (sv_App s) of
             (a, saved, created, err) \<Rightarrow>
               let s = s\<lparr>sv_App := a\<rparr> in
               case err of
                 Some msg \<Rightarrow> (s, errorJSON 400 ''submit_failed'' msg)
               | None \<Rightarrow> (s, writeJSON_ETag (n_Version saved) (if created then 201 else 200) (NotificationJSON saved))))"

text \<open>The three actions on a notification that was found with version \<open>version\<close>.\<close>

definition notification_action :: "api_env \<Rightarrow> string \<Rightarrow> string \<Rightarrow> int \<Rightarrow> Server \<Rightarrow> Server \<times> outcome" where
  "notification_action e action nid version s =
     (let done = (\<lambda>out. (s\<lparr>sv_App := fst out\<rparr>,
            case snd out of Some err \<Rightarrow> errorJSON 409 ''transition_failed'' err | None \<Rightarrow> writeJSON 202 (StatusJSON ''accepted'')))
      in if action = ''cancel'' then done (Cancel (ae_clock e 0) (ae_clock e 1) (ae_io e) nid version (sv_App s))
         else if action = ''pause'' then done (Pause (ae_clock e 0) (ae_clock e 1) (ae_io e) nid version (sv_App s))
         else case Replay (ae_sum256 e) (ae_rand e) (ae_submit e 0) nid (sv_App s) of
           (a, x, None) \<Rightarrow> (s\<lparr>sv_App := a\<rparr>, writeJSON 202 (NotificationJSON x))
         | (a, x, Some err) \<Rightarrow> (s\<lparr>sv_App := a\<rparr>, errorJSON 409 ''transition_failed'' err))"

definition notificationByID :: "api_env \<Rightarrow> http_req \<Rightarrow> Server \<Rightarrow> Server \<times> outcome" where
  "notificationByID e r s =
     (let parts = strings_Split (CHR ''/'') (TrimPrefix (hq_Path r) ''/api/v1/notifications/'');
          nid = hd parts
      in if parts = [] \<or> nid = [] then (s, errorJSON 404 ''not_found'' ErrNotFound)
         else if length parts = 1 \<and> hq_Method r = ''GET''
         then (case Store_Get nid (a_Store (sv_App s)) of
                 (_, Some err) \<Rightarrow> (s, errorJSON 404 ''not_found'' err)
               | (n, None) \<Rightarrow> (s, writeJSON_ETag (n_Version n) 200 (NotificationJSON n)))
         else if length parts = 2 \<and> parts ! 1 = ''timeline''
         then if hq_Method r \<noteq> ''GET'' then (s, methodNotAllowed)
              else (s, writeJSON 200 (TimelineJSON (Timeline nid (a_Store (sv_App s)))))
         else if length parts = 2 \<and> (parts ! 1 = ''cancel'' \<or> parts ! 1 = ''pause'' \<or> parts ! 1 = ''replay'')
         then if hq_Method r \<noteq> ''POST'' then (s, methodNotAllowed)
              else (case Store_Get nid (a_Store (sv_App s)) of
                      (_, Some err) \<Rightarrow> (s, errorJSON 404 ''not_found'' err)
                    | (n, None) \<Rightarrow> notification_action e (parts ! 1) nid (n_Version n) s)
         else (s, errorJSON 404 ''not_found'' ErrNotFound))"

definition templates :: "api_env \<Rightarrow> http_req \<Rightarrow> Server \<Rightarrow> Server \<times> outcome" where
  "templates e r s =
     (if hq_Method r \<noteq> ''POST'' then (s, methodNotAllowed)
      else case decode (js_Definition (ae_codec e)) r of
        Inl err \<Rightarrow> (s, errorJSON 400 ''invalid_request'' err)
      | Inr d \<Rightarrow>
          (case Template_Create d (sv_Templates s) of
             (t, Some err) \<Rightarrow> (s\<lparr>sv_Templates := t\<rparr>, errorJSON 409 ''create_failed'' err)
           | (t, None) \<Rightarrow> (s\<lparr>sv_Templates := t\<rparr>, writeJSON 201 (DefinitionJSON d))))"

definition templateByID :: "api_env \<Rightarrow> http_req \<Rightarrow> Server \<Rightarrow> Server \<times> outcome" where
  "templateByID e r s =
     (let parts = strings_Split (CHR ''/'') (TrimPrefix (hq_Path r) ''/api/v1/templates/'') in
      if length parts < 2 then (s, errorJSON 404 ''not_found'' ErrNotFound)
      else if parts ! 1 = ''versions''
      then
        if hq_Method r \<noteq> ''POST'' then (s, methodNotAllowed)
        else (case decode (js_Version (ae_codec e)) r of
                Inl err \<Rightarrow> (s, errorJSON 400 ''invalid_request'' err)
              | Inr v \<Rightarrow>
                  (case AddVersion (hd parts) v (sv_Templates s) of
                     (t, Some err) \<Rightarrow> (s\<lparr>sv_Templates := t\<rparr>, errorJSON 400 ''version_failed'' err)
                   | (t, None) \<Rightarrow> (s\<lparr>sv_Templates := t\<rparr>, writeJSON 201 (VersionJSON v))))
      else if parts ! 1 = ''publish''
      then
        if hq_Method r \<noteq> ''POST'' then (s, methodNotAllowed)
        else (let v = fst (Atoi (hq_Query r ''version'')) in
              case Publish (hd parts) v (sv_Templates s) of
                (t, Some err) \<Rightarrow> (s\<lparr>sv_Templates := t\<rparr>, errorJSON 400 ''publish_failed'' err)
              | (t, None) \<Rightarrow> (s\<lparr>sv_Templates := t\<rparr>, writeJSON 202 (PublishedJSON v)))
      else (s, errorJSON 404 ''not_found'' ErrNotFound))"

definition webhook :: "api_env \<Rightarrow> http_req \<Rightarrow> Server \<Rightarrow> Server \<times> outcome" where
  "webhook e r s =
     (if hq_Method r \<noteq> ''POST'' then (s, methodNotAllowed)
      else case limited (2 ^ 20) r of
        (_, Some err) \<Rightarrow> (s, errorJSON 400 ''read_failed'' err)
      | (body, None) \<Rightarrow>
          (case js_Event (ae_codec e) body of
             Inl err \<Rightarrow> (s, errorJSON 400 ''invalid_receipt'' err)
           | Inr ev \<Rightarrow>
               (case Ingest (ae_clock e 0) (ae_io e) ev (a_Store (sv_App s)) of
                  (st, _, Some err) \<Rightarrow> (with_store st s, errorJSON 400 ''receipt_rejected'' err)
                | (st, accepted, None) \<Rightarrow> (with_store st s, writeJSON 202 (AcceptedJSON accepted)))))"

definition suppressions :: "api_env \<Rightarrow> http_req \<Rightarrow> Server \<Rightarrow> Server \<times> outcome" where
  "suppressions e r s =
     (let tenant = hq_Header r ''X-Tenant-ID'' in
      if hq_Method r = ''GET'' then (s, writeJSON 200 (SuppressionsJSON (ListSuppressions (ae_order e) tenant (a_Store (sv_App s)))))
      else if hq_Method r \<noteq> ''POST'' then (s, methodNotAllowed)
      else case decode (js_Suppression (ae_codec e)) r of
        Inl err \<Rightarrow> (s, errorJSON 400 ''invalid_request'' err)
      | Inr x \<Rightarrow>
          if tenant = [] \<or> si_Address x = [] then (s, errorJSON 400 ''invalid_request'' ''tenant and address required'')
          else
            let sp = \<lparr>sp_TenantID = tenant, sp_Channel = si_Channel x, sp_AddressHash = http_hash (ae_sum256 e) [tenant, si_Address x],
                      sp_Reason = si_Reason x, sp_CreatedAt = ae_clock e 0\<rparr>
            in (case Suppress (ae_io e) sp (a_Store (sv_App s)) of
                  (st, Some err) \<Rightarrow> (with_store st s, errorJSON 500 ''persist_failed'' err)
                | (st, None) \<Rightarrow> (with_store st s, writeJSON 201 (SuppressionJSON sp))))"

definition audit :: "http_req \<Rightarrow> Server \<Rightarrow> Server \<times> outcome" where
  "audit r s = (if hq_Method r \<noteq> ''GET'' then (s, methodNotAllowed) else (s, writeJSON 200 (AuditJSON (Audit (a_Store (sv_App s))))))"

section \<open>Routing\<close>

text \<open>
  \<open>http.ServeMux\<close>: the path is brought into canonical form, a request for another form is redirected; a pattern that ends in a slash matches
  every path below it, and a path that only lacks that slash is redirected.
\<close>

fun clean_parts :: "string list \<Rightarrow> string list \<Rightarrow> string list" where
  "clean_parts out [] = out"
| "clean_parts out (p # ps) =
     (if p = [] \<or> p = ''.'' then clean_parts out ps
      else if p = ''..'' then clean_parts (butlast out) ps
      else clean_parts (out @ [p]) ps)"

definition path_Clean :: "string \<Rightarrow> string" where
  "path_Clean p = (case clean_parts [] (strings_Split (CHR ''/'') p) of [] \<Rightarrow> ''/'' | ps \<Rightarrow> concat (map (\<lambda>q. CHR ''/'' # q) ps))"

definition cleanPath :: "string \<Rightarrow> string" where
  "cleanPath p =
     (if p = [] then ''/''
      else let p = (if hd p = CHR ''/'' then p else CHR ''/'' # p); np = path_Clean p
           in if last p = CHR ''/'' \<and> np \<noteq> ''/'' then np @ ''/'' else np)"

datatype handler = HealthH | Notifications | NotificationByID | TemplatesH | TemplateByID | Webhook | Suppressions | AuditH

definition exact_routes :: "(string \<times> handler) list" where
  "exact_routes = [(''/healthz'', HealthH), (''/readyz'', HealthH), (''/api/v1/notifications'', Notifications), (''/api/v1/templates'', TemplatesH),
     (''/api/v1/suppressions'', Suppressions), (''/api/v1/audit/export'', AuditH)]"

definition tree_routes :: "(string \<times> handler) list" where
  "tree_routes = [(''/api/v1/notifications/'', NotificationByID), (''/api/v1/templates/'', TemplateByID), (''/api/v1/webhooks/'', Webhook)]"

definition mux_match :: "string \<Rightarrow> handler option" where
  "mux_match p =
     (case map_of exact_routes p of
        Some h \<Rightarrow> Some h
      | None \<Rightarrow> map_option snd (find (\<lambda>x. HasPrefix p (fst x)) tree_routes))"

definition mux_route :: "string \<Rightarrow> string \<Rightarrow> outcome + handler" where
  "mux_route method p =
     (let cp = (if method = ''CONNECT'' then p else cleanPath p) in
      if mux_match cp = None \<and> map_of tree_routes (cp @ ''/'') \<noteq> None then Inl (Redirect (cp @ ''/''))
      else if cp \<noteq> p then Inl (Redirect cp)
      else case mux_match cp of None \<Rightarrow> Inl MuxNotFound | Some h \<Rightarrow> Inr h)"

definition serve :: "handler \<Rightarrow> api_env \<Rightarrow> http_req \<Rightarrow> Server \<Rightarrow> Server \<times> outcome" where
  "serve h e r s =
     (case h of
        HealthH \<Rightarrow> health e s
      | Notifications \<Rightarrow> notifications e r s
      | NotificationByID \<Rightarrow> notificationByID e r s
      | TemplatesH \<Rightarrow> templates e r s
      | TemplateByID \<Rightarrow> templateByID e r s
      | Webhook \<Rightarrow> webhook e r s
      | Suppressions \<Rightarrow> suppressions e r s
      | AuditH \<Rightarrow> audit r s)"

text \<open>The identifier of the request, which every answer carries in its header \<open>X-Request-ID\<close>.\<close>

definition requestID :: "api_env \<Rightarrow> http_req \<Rightarrow> string" where
  "requestID e r =
     (let rid = hq_Header r ''X-Request-ID'' in if rid = [] then http_hash (ae_sum256 e) [ae_now_text e, hq_RemoteAddr r] else rid)"

definition Handler :: "api_env \<Rightarrow> http_req \<Rightarrow> Server \<Rightarrow> Server \<times> string \<times> outcome" where
  "Handler e r s =
     (case mux_route (hq_Method r) (hq_Path r) of
        Inl out \<Rightarrow> (s, requestID e r, out)
      | Inr h \<Rightarrow> (case serve h e r s of (s, out) \<Rightarrow> (s, requestID e r, out)))"

section \<open>Requests without effect\<close>

lemmas handler_defs = health_def notifications_def notificationByID_def notification_action_def templates_def templateByID_def webhook_def
  suppressions_def audit_def

lemmas answer_defs = writeJSON_def writeJSON_ETag_def errorJSON_def methodNotAllowed_def

text \<open>C13: Requests with the method GET change nothing, whatever their path, headers, query and body.\<close>

theorem GET_changes_nothing:
  assumes "hq_Method r = ''GET''"
  shows "fst (Handler e r s) = s"
proof -
  have "fst (serve h e r s) = s" for h
    using assms by (cases h) (auto simp: serve_def handler_defs Let_def split: option.splits prod.splits)
  then show ?thesis by (auto simp: Handler_def split: sum.splits prod.splits) (metis fst_conv)
qed

section \<open>Routes\<close>

text \<open>The handler of single and batch submissions is only reached by its own path, so its branch for batches is dead.\<close>

lemma mux_Notifications: "mux_route m p = Inr Notifications \<Longrightarrow> p = ''/api/v1/notifications''"
  by (auto simp: mux_route_def mux_match_def Let_def exact_routes_def tree_routes_def split: option.splits if_splits)

lemma batch_unreachable: "mux_route (hq_Method r) (hq_Path r) = Inr Notifications \<Longrightarrow> \<not> HasSuffix (hq_Path r) ''/batch''"
  using mux_Notifications by (fastforce simp: HasSuffix_def)

lemma route_notifications: "mux_route m ''/api/v1/notifications'' = Inr Notifications"
  by (simp add: mux_route_def cleanPath_def path_Clean_def mux_match_def exact_routes_def)

lemma route_suppressions: "mux_route m ''/api/v1/suppressions'' = Inr Suppressions"
  by (simp add: mux_route_def cleanPath_def path_Clean_def mux_match_def exact_routes_def)

lemma route_webhook: "mux_route m ''/api/v1/webhooks/mock'' = Inr Webhook"
  by (simp add: mux_route_def cleanPath_def path_Clean_def mux_match_def exact_routes_def tree_routes_def)

section \<open>Submitting\<close>

lemma Handler_submit:
  assumes "hq_Path r = ''/api/v1/notifications''" "hq_Method r = ''POST''" "decode (js_Notification (ae_codec e)) r = Inr n"
  shows "Handler e r s =
    (case Submit (ae_sum256 e) (ae_submit e 0) (default_tenant r n) (sv_App s) of
       (a, saved, created, err) \<Rightarrow>
         (s\<lparr>sv_App := a\<rparr>, requestID e r,
          case err of
            Some msg \<Rightarrow> errorJSON 400 ''submit_failed'' msg
          | None \<Rightarrow> writeJSON_ETag (n_Version saved) (if created then 201 else 200) (NotificationJSON saved)))"
proof -
  have "\<not> HasSuffix (hq_Path r) ''/batch''" by (rule batch_unreachable) (simp only: assms(1) route_notifications)
  then have "notifications e r s =
    (case Submit (ae_sum256 e) (ae_submit e 0) (default_tenant r n) (sv_App s) of
       (a, saved, created, err) \<Rightarrow>
         (s\<lparr>sv_App := a\<rparr>,
          case err of
            Some msg \<Rightarrow> errorJSON 400 ''submit_failed'' msg
          | None \<Rightarrow> writeJSON_ETag (n_Version saved) (if created then 201 else 200) (NotificationJSON saved)))"
    unfolding notifications_def assms(2,3) by (simp add: Let_def split: prod.split option.split)
  then show ?thesis by (simp only: Handler_def assms(1) route_notifications sum.case serve_def handler.case) (simp split: prod.split)
qed


text \<open>The paths below a notification's identifier.\<close>

lemma path_below:
  assumes "CHR ''/'' \<notin> set x" "x \<notin> {[], ''.'', ''..''}"
  shows "mux_route m (''/api/v1/notifications/'' @ x) = Inr NotificationByID"
    "mux_route m (''/api/v1/notifications/'' @ x @ ''/timeline'') = Inr NotificationByID"
    "strings_Split (CHR ''/'') (TrimPrefix (''/api/v1/notifications/'' @ x) ''/api/v1/notifications/'') = [x]"
    "strings_Split (CHR ''/'') (TrimPrefix (''/api/v1/notifications/'' @ x @ ''/timeline'') ''/api/v1/notifications/'') = [x, ''timeline'']"
proof -
  have S: "strings_Split (CHR ''/'') x = [x]" by (rule strings_Split_plain [OF assms(1)])
  have T: "strings_Split (CHR ''/'') (x @ ''/timeline'') = [x, ''timeline'']"
    using assms(1) by (induction x) auto
  have "last x \<noteq> CHR ''/''" using assms by (metis insertCI last_in_set)
  then show "mux_route m (''/api/v1/notifications/'' @ x) = Inr NotificationByID"
    using S assms(2) by (simp add: mux_route_def cleanPath_def path_Clean_def mux_match_def exact_routes_def tree_routes_def)
  show "mux_route m (''/api/v1/notifications/'' @ x @ ''/timeline'') = Inr NotificationByID"
    using T assms(2) by (simp add: mux_route_def cleanPath_def path_Clean_def mux_match_def exact_routes_def tree_routes_def)
  show "strings_Split (CHR ''/'') (TrimPrefix (''/api/v1/notifications/'' @ x) ''/api/v1/notifications/'') = [x]"
    "strings_Split (CHR ''/'') (TrimPrefix (''/api/v1/notifications/'' @ x @ ''/timeline'') ''/api/v1/notifications/'') = [x, ''timeline'']"
    using S T by (simp_all add: TrimPrefix_def)
qed

text \<open>C14: What a submission answered with 201 has created can be read as long as the process runs, whatever happens to the store: a GET below its identifier is
  answered with 200, the stored notification and its version as the ETag, which is the notification of the first answer as long as the store
  has not changed; and the GET of its timeline with a list that begins with the timeline at that moment, the last event of which is the
  creation.  The identifier is one that a path can name: no slash in it, and not one or two dots.\<close>

theorem created_is_readable:
  assumes r: "hq_Path r = ''/api/v1/notifications''" "hq_Method r = ''POST''" "decode (js_Notification (ae_codec e)) r = Inr n"
    and first: "Handler e r s = (s1, rid, Reply resp)" "rs_Status resp = 201" "rs_Body resp = NotificationJSON m"
    and name: "CHR ''/'' \<notin> set (n_ID m)" "n_ID m \<notin> {''.'', ''..''}"
    and between: "store_step\<^sup>*\<^sup>* (a_Store (sv_App s1)) (a_Store (sv_App s2))"
    and g: "hq_Method g = ''GET''" "hq_Path g = ''/api/v1/notifications/'' @ n_ID m"
    and h: "hq_Method h = ''GET''" "hq_Path h = ''/api/v1/notifications/'' @ n_ID m @ ''/timeline''"
  shows "(\<exists>stored. Store_Get (n_ID m) (a_Store (sv_App s2)) = (stored, None) \<and> (a_Store (sv_App s2) = a_Store (sv_App s1) \<longrightarrow> stored = m) \<and>
      Handler e' g s2 = (s2, requestID e' g, writeJSON_ETag (n_Version stored) 200 (NotificationJSON stored))) \<and>
    (\<exists>old ev new. Handler e' h s2 = (s2, requestID e' h, writeJSON 200 (TimelineJSON (old @ [ev] @ new))) \<and>
      Timeline (n_ID m) (a_Store (sv_App s1)) = old @ [ev] \<and> ev_Status ev = StatusQueued \<and> ev_Metadata ev = [(''source'', ''submit'')])"
proof -
  obtain a saved created err where S: "Submit (ae_sum256 e) (ae_submit e 0) (default_tenant r n) (sv_App s) = (a, saved, created, err)"
    by (metis prod_cases4)
  have A: "err = None" "created" "s1 = s\<lparr>sv_App := a\<rparr>" "saved = m"
    using first unfolding Handler_submit [OF r] S by (auto simp: answer_defs split: option.splits if_splits)
  let ?n = "admitted (ae_submit e 0) (default_tenant r n)" and ?st = "a_Store (sv_App s)"
  obtain t1 t2 io e0 where C: "Store_Create t1 t2 io ?n ?st = (a_Store a, ?n, True, e0)" "m = ?n"
    by (rule Submit_created [OF S [unfolded A(2) [THEN eqTrueI]]]) (use A(4) in auto)
  have m: "n_ID m \<noteq> []" "n_Status m = StatusQueued" by (auto simp: C(2) admitted_def newID_def Let_def)
  have s1: "st_data (a_Store (sv_App s1)) = create_data t1 t2 m (st_data ?st)" using Store_Create_created [OF C(1)] C(2) by (simp add: A(3))
  note path = path_below [OF name(1)] and H = store_steps_history [OF between, unfolded extends_history_def]
  have x: "n_ID m \<notin> {[], ''.'', ''..''}" using m(1) name(2) by simp
  have "s_Notifications (st_data (a_Store (sv_App s1))) (n_ID m) = Some m" by (simp add: s1)
  moreover from this obtain stored where st: "s_Notifications (st_data (a_Store (sv_App s2))) (n_ID m) = Some stored" using H by blast
  moreover have "Handler e' g s2 = (s2, requestID e' g, writeJSON_ETag (n_Version stored) 200 (NotificationJSON stored))"
    using path(1,3) [OF x] m(1) g st by (simp add: Handler_def serve_def notificationByID_def Store_Get_def)
  moreover have "prefix (Timeline (n_ID m) (a_Store (sv_App s1))) (Timeline (n_ID m) (a_Store (sv_App s2)))" using H by (simp add: Timeline_def)
  then obtain new where "Timeline (n_ID m) (a_Store (sv_App s2)) = Timeline (n_ID m) (a_Store (sv_App s1)) @ new" by (rule prefixE)
  moreover obtain old ev where "Timeline (n_ID m) (a_Store (sv_App s1)) = old @ [ev]" "ev_Status ev = StatusQueued" "ev_Metadata ev = [(''source'', ''submit'')]"
    using m(2) by (simp add: Timeline_def s1 events_of_create_data events_of_addEvent)
  moreover have "Handler e' h s2 = (s2, requestID e' h, writeJSON 200 (TimelineJSON (Timeline (n_ID m) (a_Store (sv_App s2)))))"
    using path(2,4) [OF x] m(1) h by (simp add: Handler_def serve_def notificationByID_def)
  ultimately show ?thesis by (auto simp: Store_Get_def)
qed

section \<open>Receipts\<close>

text \<open>C15: A receipt is accepted from anyone: whatever the headers and whatever the webhook secret of the server, a POST below the path of the webhooks
  whose body is a receipt for a stored notification with a new key is answered with 202 and sets the notification's status.\<close>

theorem unsigned_receipt_accepted:
  assumes "mux_route (hq_Method r) (hq_Path r) = Inr Webhook" "hq_Method r = ''POST''" "hq_BodyErr r = None"
    and "js_Event (ae_codec e) (take (2 ^ 20) (hq_Body r)) = Inr ev" "receipt_ok ev"
    and "s_Notifications (st_data (a_Store (sv_App s))) (re_NotificationID ev) = Some n" "n_ID n = re_NotificationID ev"
    and "s_Receipts (st_data (a_Store (sv_App s))) (receipt_key ev) \<noteq> Some True"
  shows "let r' = r\<lparr>hq_Header := anything\<rparr>; s' = s\<lparr>sv_WebhookSecret := secret\<rparr>; out = Handler e r' s' in
    snd (snd out) = writeJSON 202 (AcceptedJSON True) \<and>
    n_Status (fst (Store_Get (re_NotificationID ev) (a_Store (sv_App (fst out))))) = re_Status ev"
proof -
  let ?r = "r\<lparr>hq_Header := anything\<rparr>" and ?s = "s\<lparr>sv_WebhookSecret := secret\<rparr>" and ?st = "a_Store (sv_App s)"
  have get: "Store_Get (re_NotificationID ev) ?st = (n, None)" using assms(6) by (simp add: Store_Get_def)
  obtain st where I: "Ingest (ae_clock e 0) (ae_io e) ev ?st = (st, True, None)"
    "s_Notifications (st_data st) (re_NotificationID ev) =
       Some (n\<lparr>n_Status := re_Status ev, n_Version := i64 (n_Version n + 1), n_UpdatedAt := ae_clock e 0\<rparr>)"
    using Ingest_ok [OF assms(5) get, of "ae_clock e 0" "ae_io e"] assms(6-8) by (auto simp: RecordReceipt_def Let_def)
  have lim: "limited (2 ^ 20) ?r = (take (2 ^ 20) (hq_Body r), None)" using assms(3) by (simp add: limited_def)
  have "webhook e ?r ?s = (with_store st ?s, writeJSON 202 (AcceptedJSON True))"
    unfolding webhook_def lim using assms(2,4) I(1) by simp
  moreover have "mux_route (hq_Method ?r) (hq_Path ?r) = Inr Webhook" using assms(1) by simp
  ultimately have "Handler e ?r ?s = (with_store st ?s, requestID e ?r, writeJSON 202 (AcceptedJSON True))"
    by (simp add: Handler_def serve_def)
  then show ?thesis using I(2) by (simp add: with_store_def Store_Get_def Let_def)
qed

section \<open>Suppressions\<close>

text \<open>The two texts that are hashed, one by this package and one by \<open>HashAddress\<close>, are never the same.\<close>

lemma TrimSpace_last: "TrimSpace s \<noteq> [] \<Longrightarrow> \<not> is_space (last (TrimSpace s))"
  using dropWhile_is_Nil_or_hd [of is_space "rev (dropWhile is_space s)"] by (auto simp: TrimSpace_def last_rev)

lemma TrimSpace_nonspace: "\<not> is_space c \<Longrightarrow> TrimSpace (c # w) = c # rev (dropWhile is_space (rev w))"
  by (simp add: TrimSpace_def dropWhile_append)

lemma address_texts_differ: "address \<noteq> CHR '':'' # ToLower (TrimSpace address)"
proof
  assume A: "address = CHR '':'' # ToLower (TrimSpace address)"
  define w where "w = ToLower (TrimSpace address)"
  have "TrimSpace address = CHR '':'' # rev (dropWhile is_space (rev w))"
    using TrimSpace_nonspace [of "CHR '':''" w] A by (simp add: w_def is_space_def)
  then have "length (TrimSpace address) = Suc (length (dropWhile is_space (rev w)))" by simp
  then have "length w = Suc (length (dropWhile is_space (rev w)))" by (simp add: w_def ToLower_def)
  moreover have ne: "TrimSpace address \<noteq> []" using \<open>TrimSpace address = _\<close> by (metis list.distinct(1))
  then have "w \<noteq> []" by (simp add: w_def ToLower_def)
  moreover have "\<not> is_space (last w)" using TrimSpace_last [OF ne] ne by (simp add: w_def ToLower_def last_map)
  then have "dropWhile is_space (rev w) = rev w" using \<open>w \<noteq> []\<close> by (cases w rule: rev_cases) auto
  ultimately show False by simp
qed

text \<open>C16: Suppressing an address through the API does not suppress it: unless SHA-256 collides on the two texts, the entry is stored under another
  hash than the one submissions are checked with, so whether the address counts as suppressed for that tenant and channel stays as it was, although the
  answer is 201.\<close>

theorem http_suppression_ineffective:
  assumes r: "hq_Path r = ''/api/v1/suppressions''" "hq_Method r = ''POST''" "decode (js_Suppression (ae_codec e)) r = Inr x"
    and t: "t = hq_Header r ''X-Tenant-ID''" "t \<noteq> []" "si_Address x \<noteq> []" and io: "ae_io e = IoOk"
    and no_collision: "ae_sum256 e (t @ si_Address x) = ae_sum256 e (t @ '':'' @ ToLower (TrimSpace (si_Address x))) \<longrightarrow>
       t @ si_Address x = t @ '':'' @ ToLower (TrimSpace (si_Address x))"
  shows "(\<exists>sp. snd (snd (Handler e r s)) = writeJSON 201 (SuppressionJSON sp)) \<and>
    IsSuppressed t (si_Channel x) (HashAddress (ae_sum256 e) t (si_Address x)) (a_Store (sv_App (fst (Handler e r s)))) =
    IsSuppressed t (si_Channel x) (HashAddress (ae_sum256 e) t (si_Address x)) (a_Store (sv_App s))"
proof -
  define sp where "sp = \<lparr>sp_TenantID = t, sp_Channel = si_Channel x, sp_AddressHash = http_hash (ae_sum256 e) [t, si_Address x],
    sp_Reason = si_Reason x, sp_CreatedAt = ae_clock e 0\<rparr>"
  obtain st where S: "Suppress IoOk sp (a_Store (sv_App s)) = (st, None)"
    "s_Suppressions (st_data st) = (s_Suppressions (st_data (a_Store (sv_App s))))(suppression_key t (si_Channel x) (sp_AddressHash sp) \<mapsto> sp)"
    by (cases "Suppress IoOk sp (a_Store (sv_App s))") (auto simp: Suppress_def persistLocked_cases sp_def)
  have sup: "suppressions e r s = (with_store st s, writeJSON 201 (SuppressionJSON sp))"
    using r(2,3) t S(1) io by (simp add: suppressions_def sp_def Let_def)
  have H: "Handler e r s = (with_store st s, requestID e r, writeJSON 201 (SuppressionJSON sp))"
    unfolding Handler_def r(1) route_suppressions sum.case serve_def handler.case sup by simp
  have "sp_AddressHash sp \<noteq> HashAddress (ae_sum256 e) t (si_Address x)"
    using no_collision address_texts_differ [of "si_Address x"]
    by (auto simp: sp_def http_hash_def HashAddress_def hex_EncodeToString_inj)
  then have "suppression_key t (si_Channel x) (sp_AddressHash sp) \<noteq> suppression_key t (si_Channel x) (HashAddress (ae_sum256 e) t (si_Address x))"
    by (simp add: suppression_key_def)
  then show ?thesis unfolding H using S(2) by (auto simp: with_store_def IsSuppressed_def)
qed

section \<open>Samples\<close>

definition sample_codec :: codec where
  "sample_codec = \<lparr>js_Notification = (\<lambda>_. Inr sample_notification), js_Notifications = (\<lambda>_. Inl ''unexpected''), js_Definition = (\<lambda>_. Inl ''unexpected''),
     js_Version = (\<lambda>_. Inl ''unexpected''), js_Suppression = (\<lambda>_. Inr \<lparr>si_Channel = ChannelEmail, si_Address = ''User@example.com'', si_Reason = []\<rparr>),
     js_Event = (\<lambda>_. Inr sample_receipt)\<rparr>"

definition sample_api_env :: api_env where
  "sample_api_env = \<lparr>ae_sum256 = (\<lambda>x. x), ae_codec = sample_codec, ae_submit = (\<lambda>_. sample_submit_env), ae_rand = ''abcdefghijkl'',
     ae_clock = (\<lambda>i. 40 + int i), ae_now_text = ''now'', ae_io = IoOk, ae_order = [''n1'']\<rparr>"

definition sample_http :: "string \<Rightarrow> string \<Rightarrow> http_req" where
  "sample_http method path = \<lparr>hq_Method = method, hq_Path = path, hq_Header = (\<lambda>h. if h = ''X-Tenant-ID'' then ''acme'' else []), hq_Query = (\<lambda>_. []),
     hq_Body = ''{}'', hq_BodyErr = None, hq_RemoteAddr = ''127.0.0.1:1234''\<rparr>"

definition sample_server :: Server where
  "sample_server = httpapi_New (application_New sample_store (Queue_New 10)) NewService ''secret''"

theorem GET_changes_nothing_witness:
  "fst (Handler sample_api_env (sample_http ''GET'' ''/api/v1/notifications'') sample_server) = sample_server"
  by (rule GET_changes_nothing) (simp add: sample_http_def)

lemma sample_post:
  obtains s1 resp m where "Handler sample_api_env (sample_http ''POST'' ''/api/v1/notifications'') (sample_server\<lparr>sv_App := sample_service\<rparr>) =
      (s1, requestID sample_api_env (sample_http ''POST'' ''/api/v1/notifications''), Reply resp)" "rs_Status resp = 201" "rs_Body resp = NotificationJSON m"
    "m = admitted sample_submit_env sample_notification" "s_Suppressions (st_data (a_Store (sv_App s1))) = Map.empty"
proof -
  let ?e = sample_api_env and ?r = "sample_http ''POST'' ''/api/v1/notifications''" and ?s = "sample_server\<lparr>sv_App := sample_service\<rparr>"
  have r: "hq_Path ?r = ''/api/v1/notifications''" "hq_Method ?r = ''POST''" "decode (js_Notification (ae_codec ?e)) ?r = Inr sample_notification"
    by (simp_all add: sample_http_def decode_def sample_api_env_def sample_codec_def)
  have d: "default_tenant ?r sample_notification = sample_notification"
    by (simp add: default_tenant_def sample_notification_def empty_Notification_def)
  have e: "ae_sum256 ?e = (\<lambda>x. x)" "ae_submit ?e 0 = sample_submit_env" by (simp_all add: sample_api_env_def)
  obtain a m where S: "Submit (\<lambda>x. x) sample_submit_env sample_notification sample_service = (a, m, True, None)"
    and none: "s_Suppressions (st_data (a_Store a)) = Map.empty" using sample_submitted by blast
  have "m = admitted sample_submit_env sample_notification" by (rule Submit_created [OF S])
  then show thesis
    using that [of "?s\<lparr>sv_App := a\<rparr>" "\<lparr>rs_Status = 201, rs_Header = [''ETag'' \<mapsto> fmt_d (n_Version m), ''Content-Type'' \<mapsto> ''application/json''], rs_Body = NotificationJSON m\<rparr>" m]
      Handler_submit [OF r, of ?s] S none by (simp add: d e writeJSON_ETag_def)
qed


theorem created_is_readable_witness:
  "\<exists>s1 rid resp m. Handler sample_api_env (sample_http ''POST'' ''/api/v1/notifications'') (sample_server\<lparr>sv_App := sample_service\<rparr>) = (s1, rid, Reply resp) \<and>
     rs_Status resp = 201 \<and> rs_Body resp = NotificationJSON m \<and>
     snd (snd (Handler sample_api_env (sample_http ''GET'' (''/api/v1/notifications/'' @ n_ID m)) s1)) = writeJSON_ETag (n_Version m) 200 (NotificationJSON m)"
proof -
  let ?e = sample_api_env and ?r = "sample_http ''POST'' ''/api/v1/notifications''"
  have r: "hq_Path ?r = ''/api/v1/notifications''" "hq_Method ?r = ''POST''" "decode (js_Notification (ae_codec ?e)) ?r = Inr sample_notification"
    by (simp_all add: sample_http_def decode_def sample_api_env_def sample_codec_def)
  obtain s1 resp m where H: "Handler ?e ?r (sample_server\<lparr>sv_App := sample_service\<rparr>) = (s1, requestID ?e ?r, Reply resp)" "rs_Status resp = 201"
    "rs_Body resp = NotificationJSON m" and m: "m = admitted sample_submit_env sample_notification" by (rule sample_post)
  have id: "CHR ''/'' \<notin> set (n_ID m)" "n_ID m \<notin> {''.'', ''..''}" unfolding m by code_simp+
  have "hq_Method (sample_http ''GET'' x) = ''GET''" "hq_Path (sample_http ''GET'' x) = x" for x by (simp_all add: sample_http_def)
  from created_is_readable [OF r H id rtranclp.rtrancl_refl this this, of ?e] show ?thesis using H by auto
qed

theorem unsigned_receipt_accepted_witness:
  "n_Status (fst (Store_Get ''n1'' (a_Store (sv_App (fst (Handler sample_api_env (sample_http ''POST'' ''/api/v1/webhooks/mock'') sample_server)))))) = re_Status sample_receipt"
proof -
  let ?r = "sample_http ''POST'' ''/api/v1/webhooks/mock''"
  have r: "mux_route (hq_Method ?r) (hq_Path ?r) = Inr Webhook" "hq_Method ?r = ''POST''" "hq_BodyErr ?r = None"
    by (simp_all add: sample_http_def route_webhook)
  have ev: "js_Event (ae_codec sample_api_env) (take (2 ^ 20) (hq_Body ?r)) = Inr sample_receipt" by (simp add: sample_api_env_def sample_codec_def)
  have ok: "receipt_ok sample_receipt" "re_NotificationID sample_receipt = ''n1''"
    by (simp_all add: receipt_ok_def sample_receipt_def receipt_statuses_def)
  define n where "n = sample_notification\<lparr>n_ID := ''n1'', n_Status := StatusQueued, n_Version := 1\<rparr>"
  have st: "s_Notifications (st_data (a_Store (sv_App sample_server))) ''n1'' = Some n" "s_Receipts (st_data (a_Store (sv_App sample_server))) k = None" "n_ID n = ''n1''" for k
    by (simp_all add: sample_server_def httpapi_New_def application_New_def sample_store_def Store_Create_new empty_snapshot_def n_def)
  have same: "?r\<lparr>hq_Header := hq_Header ?r\<rparr> = ?r" "sample_server\<lparr>sv_WebhookSecret := sv_WebhookSecret sample_server\<rparr> = sample_server" by simp_all
  from unsigned_receipt_accepted [OF r ev ok(1), of sample_server n "hq_Header ?r" "sv_WebhookSecret sample_server"] st ok(2)
  show ?thesis by (simp add: same Let_def)
qed

theorem http_suppression_ineffective_witness:
  "\<not> IsSuppressed ''acme'' ChannelEmail (HashAddress (\<lambda>x. x) ''acme'' ''User@example.com'')
     (a_Store (sv_App (fst (Handler sample_api_env (sample_http ''POST'' ''/api/v1/suppressions'') sample_server))))"
proof -
  let ?e = sample_api_env and ?r = "sample_http ''POST'' ''/api/v1/suppressions''"
  let ?x = "\<lparr>si_Channel = ChannelEmail, si_Address = ''User@example.com'', si_Reason = []\<rparr>"
  have r: "hq_Path ?r = ''/api/v1/suppressions''" "hq_Method ?r = ''POST''" "decode (js_Suppression (ae_codec ?e)) ?r = Inr ?x"
    "''acme'' = hq_Header ?r ''X-Tenant-ID''" "ae_io ?e = IoOk" "ae_sum256 ?e = (\<lambda>x. x)"
    by (simp_all add: sample_http_def decode_def sample_api_env_def sample_codec_def)
  have "s_Suppressions (st_data (a_Store (sv_App sample_server))) = Map.empty"
    by (simp add: sample_server_def httpapi_New_def application_New_def sample_store_def Store_Create_new empty_snapshot_def)
  then have "\<not> IsSuppressed ''acme'' ChannelEmail (HashAddress (\<lambda>x. x) ''acme'' ''User@example.com'') (a_Store (sv_App sample_server))"
    by (simp add: IsSuppressed_def)
  then show ?thesis using http_suppression_ineffective [OF r(1-4) _ _ r(5), of sample_server] by (simp add: r(6))
qed

end
