(* ===== verification/API_Runs.thy ===== *)
theory API_Runs
  imports Platform HTTP_API
begin

text \<open>
  The HTTP API in front of the running platform.  A request is answered by \<open>Handler\<close> on the store and the queue that
  the workers share; what it changes there is what at most two steps of the platform change, so what is
  proved of all runs of the platform holds when clients act through the API.
\<close>

section \<open>The server of a platform\<close>

definition server_of :: "platform \<Rightarrow> Templates \<Rightarrow> string \<Rightarrow> Server" where
  "server_of p t secret = httpapi_New (app_of (pl_d p)) t secret"

definition after_request :: "api_env \<Rightarrow> http_req \<Rightarrow> Templates \<Rightarrow> string \<Rightarrow> platform \<Rightarrow> platform" where
  "after_request e r t secret p = p\<lparr>pl_d := with_app (sv_App (fst (Handler e r (server_of p t secret)))) (pl_d p)\<rparr>"

text \<open>
  What is assumed of a client that submits: the body of a new submission (its key is not known yet) has no identifier or one that is
  not stored, and no earlier attempts beyond the maximum; and the random identifier of the server is not taken.
\<close>

definition new_submission_ok :: "Notification \<Rightarrow> Dispatcher \<Rightarrow> bool" where
  "new_submission_ok n d \<longleftrightarrow>
     s_Idempotency (st_data (d_Store d)) (idem_key (n_TenantID n) (n_IdempotencyKey n)) = None \<longrightarrow>
       (n_ID n = [] \<or> stored d (n_ID n) = None) \<and> 0 \<le> n_Attempts n \<and> n_Attempts n < d_MaxAttempts d"

definition request_ok :: "api_env \<Rightarrow> http_req \<Rightarrow> Dispatcher \<Rightarrow> bool" where
  "request_ok e r d \<longleftrightarrow>
     stored d (newID (se_rand (ae_submit e 0)) ''ntf'') = None \<and> 0 < d_MaxAttempts d \<and>
     (\<forall>n. decode (js_Notification (ae_codec e)) r = Inr n \<longrightarrow> new_submission_ok (default_tenant r n) d)"

section \<open>Requests as runs\<close>

lemma app_of_simps [simp]: "a_Store (app_of d) = d_Store d" "a_Queue (app_of d) = d_Queue d" "with_app (app_of d) d = d"
  by (simp_all add: app_of_def with_app_def)

text \<open>An operation takes at most two steps of the platform to turn the service into \<open>a\<close>.\<close>

definition quick :: "platform \<Rightarrow> Service \<Rightarrow> bool" where
  "quick p a \<longleftrightarrow> (\<exists>k \<le> 2. platform_steps k p (p\<lparr>pl_d := with_app a (pl_d p)\<rparr>))"

lemma quick_refl [simp]: "quick p (app_of (pl_d p))"
  unfolding quick_def using platform_steps.none [of p] by (intro exI [of _ 0]) simp

lemma quick_step: "platform_step p (p\<lparr>pl_d := with_app a (pl_d p)\<rparr>) \<Longrightarrow> quick p a"
  unfolding quick_def using platform_steps.more [OF platform_steps.none, of p] by (intro exI [of _ 1]) simp

lemma quick_store: "platform_step p (p\<lparr>pl_d := (pl_d p)\<lparr>d_Store := st\<rparr>\<rparr>) \<Longrightarrow> quick p ((app_of (pl_d p))\<lparr>a_Store := st\<rparr>)"
  by (rule quick_step) (simp add: with_app_def)

lemma created_submission:
  assumes "Submit_create sum256 env n (app_of d) = (a, m, True, err, enq)"
  shows "m = admitted env n" "s_Idempotency (st_data (d_Store d)) (idem_key (n_TenantID n) (n_IdempotencyKey n)) = None"
proof -
  have ctx: "se_ctx env = None" using assms by (auto simp: Submit_create_def split: option.splits)
  obtain v where v: "Validate n = (v, None)" using assms ctx by (auto simp: Submit_create_def split: prod.splits option.splits)
  show "m = admitted env n" "s_Idempotency (st_data (d_Store d)) (idem_key (n_TenantID n) (n_IdempotencyKey n)) = None"
    using assms unfolding Submit_create_valid [OF ctx v]
    by (auto simp: Store_Create_def Let_def split: if_splits option.splits)
qed

lemma quick_Submit:
  assumes "new_submission_ok n (pl_d p)" "stored (pl_d p) (newID (se_rand env) ''ntf'') = None"
  shows "quick p (fst (Submit sum256 env n (app_of (pl_d p))))"
proof -
  let ?d = "pl_d p"
  obtain a m created err enq where C: "Submit_create sum256 env n (app_of ?d) = (a, m, created, err, enq)" by (metis prod_cases5)
  have "submission_ok m created ?d"
  proof (cases created)
    case True
    then show ?thesis
      using created_submission [OF C [unfolded True [THEN eq_True [THEN iffD2]]]] assms by (auto simp: submission_ok_def new_submission_ok_def)
  qed (simp add: submission_ok_def)
  then have step: "platform_step p (p\<lparr>pl_d := with_app a ?d, pl_created := (if enq then m # pl_created p else pl_created p)\<rparr>)" (is "platform_step p ?p1")
    by (rule platform_step.submit [OF C])
  show ?thesis
  proof (cases enq)
    case False
    then have "fst (Submit sum256 env n (app_of ?d)) = a" using C by (simp add: Submit_def)
    moreover have "p\<lparr>pl_d := with_app a ?d\<rparr> = ?p1" using False by simp
    ultimately show ?thesis using step by (intro quick_step) simp
  next
    case True
    let ?a = "a\<lparr>a_Queue := fst (Enqueue (se_enqueued env) m (a_Queue a))\<rparr>"
    have "platform_step ?p1 (p\<lparr>pl_d := with_app ?a ?d\<rparr>)"
      using platform_step.enqueue [of 0 ?p1 "se_enqueued env"] True by (simp add: with_app_def)
    with platform_steps.more [OF platform_steps.more [OF platform_steps.none step]]
    have "platform_steps 2 p (p\<lparr>pl_d := with_app ?a ?d\<rparr>)" by (simp add: numeral_2_eq_2)
    moreover have "fst (Submit sum256 env n (app_of ?d)) = ?a" using C True by (simp add: Submit_def Let_def)
    ultimately show ?thesis by (auto simp: quick_def)
  qed
qed

lemma quick_Replay:
  assumes "stored (pl_d p) (newID (se_rand env) ''ntf'') = None" "0 < d_MaxAttempts (pl_d p)"
  shows "quick p (fst (Replay sum256 rnd env nid (app_of (pl_d p))))"
proof (cases "Store_Get nid (d_Store (pl_d p))")
  case (Pair old err)
  let ?old = "old\<lparr>n_ID := [], n_IdempotencyKey := n_IdempotencyKey old @ '':'' @ newID rnd ''replay'', n_Attempts := 0, n_LastError := [], n_Provider := []\<rparr>"
  have "quick p (fst (Submit sum256 (env\<lparr>se_ctx := None\<rparr>) ?old (app_of (pl_d p))))"
    using assms by (intro quick_Submit) (simp_all add: new_submission_ok_def)
  then show ?thesis using Pair by (cases err) (auto simp: Replay_def Let_def split: prod.split)
qed

lemma quick_action:
  assumes "stored (pl_d p) (newID (se_rand (ae_submit e 0)) ''ntf'') = None" "0 < d_MaxAttempts (pl_d p)"
  shows "quick p (sv_App (fst (notification_action e action nid version (server_of p t secret))))"
proof -
  have "quick p (fst (Cancel tt tu io nid version (app_of (pl_d p))))" "quick p (fst (Pause tt tu io nid version (app_of (pl_d p))))" for tt tu io
    by (rule quick_step, rule platform_step.cancel) (rule quick_step, rule platform_step.pause)
  then show ?thesis
    using quick_Replay [OF assms]
    by (auto simp: notification_action_def server_of_def httpapi_New_def Let_def split: prod.split option.split) (metis fst_conv)+
qed

lemma quick_serve:
  assumes ok: "request_ok e r (pl_d p)" and route: "h = Notifications \<Longrightarrow> \<not> HasSuffix (hq_Path r) ''/batch''"
  shows "quick p (sv_App (fst (serve h e r (server_of p t secret))))"
proof -
  let ?s = "server_of p t secret"
  have app [simp]: "sv_App ?s = app_of (pl_d p)" by (simp add: server_of_def httpapi_New_def)
  have id: "stored (pl_d p) (newID (se_rand (ae_submit e 0)) ''ntf'') = None" "0 < d_MaxAttempts (pl_d p)"
    using ok by (simp_all add: request_ok_def)
  show ?thesis
  proof (cases h)
    case Notifications
    have "quick p (fst (Submit (ae_sum256 e) (ae_submit e 0) (default_tenant r n) (app_of (pl_d p))))"
      if "decode (js_Notification (ae_codec e)) r = Inr n" for n
      using that ok by (intro quick_Submit [OF _ id(1)]) (simp add: request_ok_def)
    then show ?thesis
      using Notifications route by (fastforce simp: serve_def notifications_def Let_def split: prod.split option.split sum.split)
  next
    case NotificationByID
    then show ?thesis using quick_action [OF id] by (auto simp: serve_def notificationByID_def Let_def split: prod.split option.split)
  next
    case Webhook
    have "quick p ((app_of (pl_d p))\<lparr>a_Store := fst (Ingest now io ev (d_Store (pl_d p)))\<rparr>)" for now io ev
      by (rule quick_store, rule platform_step.receipt)
    then show ?thesis
      using Webhook by (auto simp: serve_def webhook_def with_store_def split: prod.splits option.splits sum.splits) (metis fst_conv)+
  next
    case Suppressions
    have "quick p ((app_of (pl_d p))\<lparr>a_Store := fst (Suppress io x (d_Store (pl_d p)))\<rparr>)" for io x
      by (rule quick_store, rule platform_step.suppress)
    then show ?thesis
      using Suppressions by (auto simp: serve_def suppressions_def with_store_def Let_def split: prod.splits option.splits sum.splits) (metis fst_conv)+
  qed (auto simp: serve_def health_def templates_def templateByID_def audit_def Let_def split: prod.split option.split sum.split)
qed

lemma request_run:
  assumes "request_ok e r (pl_d p)"
  shows "\<exists>k \<le> 2. platform_steps k p (after_request e r t secret p)"
proof (cases "mux_route (hq_Method r) (hq_Path r)")
  case (Inl out)
  then have "sv_App (fst (Handler e r (server_of p t secret))) = app_of (pl_d p)"
    by (simp add: Handler_def server_of_def httpapi_New_def)
  then show ?thesis using quick_refl [of p] by (simp add: after_request_def quick_def)
next
  case (Inr h)
  then have "sv_App (fst (Handler e r (server_of p t secret))) = sv_App (fst (serve h e r (server_of p t secret)))"
    by (simp add: Handler_def split: prod.split)
  moreover have "quick p (sv_App (fst (serve h e r (server_of p t secret))))"
    using batch_unreachable Inr by (intro quick_serve [OF assms]) simp
  ultimately show ?thesis by (simp add: after_request_def quick_def)
qed

section \<open>Runs with requests\<close>

text \<open>
  Runs in which requests are answered between the steps of the platform, counting both; the templates are state of the
  server alone.
\<close>

inductive api_steps :: "string \<Rightarrow> nat \<Rightarrow> platform \<times> Templates \<Rightarrow> platform \<times> Templates \<Rightarrow> bool" for secret where
  start: "api_steps secret 0 x x"
| request: "api_steps secret n x (p, t) \<Longrightarrow> request_ok e r (pl_d p) \<Longrightarrow>
    api_steps secret (Suc n) x (after_request e r t secret p, sv_Templates (fst (Handler e r (server_of p t secret))))"
| background: "api_steps secret n x (p, t) \<Longrightarrow> platform_step p p' \<Longrightarrow> api_steps secret (Suc n) x (p', t)"

lemma platform_steps_trans: "platform_steps m q r \<Longrightarrow> platform_steps n p q \<Longrightarrow> platform_steps (n + m) p r"
  by (induction rule: platform_steps.induct) (auto intro: platform_steps.more)

lemma api_run: "api_steps secret n x y \<Longrightarrow> \<exists>k \<le> 2 * n. platform_steps k (fst x) (fst y)"
proof (induction rule: api_steps.induct)
  case (start x)
  show ?case using platform_steps.none by auto
next
  case (request n x p t e r)
  then obtain k where k: "k \<le> 2 * n" "platform_steps k (fst x) p" by auto
  obtain j where "j \<le> 2" "platform_steps j p (after_request e r t secret p)" using request_run [OF request(2)] by blast
  then show ?case using k platform_steps_trans by (intro exI [of _ "k + j"]) auto
next
  case (background n x p t p')
  then obtain k where "k \<le> 2 * n" "platform_steps k (fst x) p" by auto
  then show ?case using platform_steps.more [OF _ background(2)] by (intro exI [of _ "Suc k"]) auto
qed

lemma api_background: "platform_steps n s s' \<Longrightarrow> api_steps secret k x (s, t) \<Longrightarrow> api_steps secret (k + n) x (s', t)"
  by (induction rule: platform_steps.induct) (auto intro: api_steps.background)

text \<open>The request that cancels a notification.\<close>

definition cancel_request :: "http_req \<Rightarrow> string \<Rightarrow> bool" where
  "cancel_request r nid \<longleftrightarrow> hq_Method r = ''POST'' \<and> nid \<noteq> [] \<and> mux_route ''POST'' (hq_Path r) = Inr NotificationByID \<and>
     strings_Split (CHR ''/'') (TrimPrefix (hq_Path r) ''/api/v1/notifications/'') = [nid, ''cancel'']"

lemma Handler_cancel:
  assumes "cancel_request r nid" "Store_Get nid (a_Store (sv_App s)) = (m, None)"
  shows "Handler e r s =
    (case Cancel (ae_clock e 0) (ae_clock e 1) (ae_io e) nid (n_Version m) (sv_App s) of
       (a, err) \<Rightarrow> (s\<lparr>sv_App := a\<rparr>, requestID e r,
         case err of Some msg \<Rightarrow> errorJSON 409 ''transition_failed'' msg | None \<Rightarrow> writeJSON 202 (StatusJSON ''accepted'')))"
  using assms
  by (simp add: cancel_request_def Handler_def serve_def notificationByID_def notification_action_def Let_def split: prod.split)

lemma after_cancel:
  assumes "cancel_request r nid" "stored (pl_d p) nid = Some m"
  shows "after_request e r t secret p =
    p\<lparr>pl_d := with_app (fst (Cancel (ae_clock e 0) (ae_clock e 1) (ae_io e) nid (n_Version m) (app_of (pl_d p)))) (pl_d p)\<rparr>"
  using assms by (simp add: after_request_def server_of_def httpapi_New_def Handler_cancel Store_Get_def stored_def split: prod.split)

end
