(* ===== verification/Worker_Loop.thy ===== *)
theory Worker_Loop
  imports Dispatcher
begin

text \<open>
  The loop of one worker in \<open>internal/worker/dispatcher.go\<close>, round after round: how it ends when the context is done, in which order it works
  off what is waiting, and how a notification whose sends all fail comes to an end.  Other workers
  and requests do not interfere here; theory \<open>Platform\<close> interleaves them.
\<close>

section \<open>The loop\<close>

text \<open>
  The \<open>select\<close> of a worker that finds the queue empty.  When the context is done or a wake token is there it takes a ready case, \<open>le_pick\<close> deciding between two;
  otherwise \<open>le_pick\<close> is what happens first while it waits.
\<close>

datatype select_case = CtxDone | Woken | HalfSecond

record loop_env =
  le_deliver :: deliver_env
  le_done :: bool
  le_pick :: select_case

definition loop_select :: "loop_env \<Rightarrow> Queue \<Rightarrow> select_case" where
  "loop_select e q =
     (if le_done e \<and> q_wake q then (if le_pick e = CtxDone then CtxDone else Woken)
      else if le_done e then CtxDone
      else if q_wake q then Woken
      else le_pick e)"

text \<open>The wait on an empty queue and one iteration, with a flag that says whether the loop goes on.\<close>

definition loop_wait :: "loop_env \<Rightarrow> Queue \<Rightarrow> Queue \<times> bool" where
  "loop_wait e q =
     (case loop_select e q of
        CtxDone \<Rightarrow> (q, False)
      | Woken \<Rightarrow> (fst (Queue_Wake q), True)
      | HalfSecond \<Rightarrow> (q, True))"

definition loop_iteration :: "loop_env \<Rightarrow> Dispatcher \<Rightarrow> Dispatcher \<times> bool" where
  "loop_iteration e d =
     (case Dequeue (d_Queue d) of
        (q, None) \<Rightarrow> (case loop_wait e q of (q, go) \<Rightarrow> (d\<lparr>d_Queue := q\<rparr>, go))
      | (q, Some _) \<Rightarrow> (loop_round (le_deliver e) d, True))"

text \<open>The loop from iteration \<open>i\<close> on; it need not end, which is the value \<open>None\<close>.\<close>

partial_function (option) loop :: "(nat \<Rightarrow> loop_env) \<Rightarrow> nat \<Rightarrow> Dispatcher \<Rightarrow> Dispatcher option" where
  "loop env i d = (case loop_iteration (env i) d of (d', go) \<Rightarrow> if go then loop env (Suc i) d' else Some d')"

text \<open>Rounds that find a notification.\<close>

fun rounds :: "(nat \<Rightarrow> deliver_env) \<Rightarrow> nat \<Rightarrow> nat \<Rightarrow> Dispatcher \<Rightarrow> Dispatcher" where
  "rounds vs i 0 d = d"
| "rounds vs i (Suc k) d = rounds vs (Suc i) k (loop_round (vs i) d)"

section \<open>Deliveries do not touch the queue\<close>

lemma update_store_queue [simp]: "d_Queue (fst (update_store now io n e d)) = d_Queue d"
  by (simp add: update_store_def Let_def)

lemma AfterFunc_queue [simp]: "d_Queue (AfterFunc t n d) = d_Queue d"
  by (simp add: AfterFunc_def)

lemma retry_queue [simp]: "d_Queue (retry tt tu io n err d) = d_Queue d"
  by (simp add: retry_def Let_def split: prod.split option.split)

lemma segments_queue:
  "loop_schedule v n d = (d', x) \<Longrightarrow> d_Queue d' = d_Queue d"
  "deliver_admit v n d = (d', x) \<Longrightarrow> d_Queue d' = d_Queue d"
  "deliver_claim v n d = (d', x) \<Longrightarrow> d_Queue d' = d_Queue d"
  "deliver_choose v n d = (d', y) \<Longrightarrow> d_Queue d' = d_Queue d"
  "deliver_send v n p d = (d', z) \<Longrightarrow> d_Queue d' = d_Queue d"
  "d_Queue (deliver_record v p err d) = d_Queue d"
  "d_Queue (deliver_finish v n res err d) = d_Queue d"
  by (auto simp: loop_schedule_def deliver_admit_def deliver_claim_def deliver_choose_def deliver_send_def deliver_record_def deliver_finish_def Let_def
      split: prod.splits option.splits if_splits)

lemma deliver_queue [simp]: "d_Queue (deliver v n d) = d_Queue d"
  using segments_queue(2) [of v n d] segments_queue(3,4,5) [of v]
  by (fastforce simp: deliver_def segments_queue(6,7) split: prod.split option.split)

lemma loop_round_takes:
  assumes "Dequeue (d_Queue d) = (q, Some n)"
  shows "d_Queue (loop_round v d) = q"
  using assms by (auto simp: loop_round_def loop_schedule_def split: option.splits if_splits prod.splits)

lemma Dequeue_None_iff: "queue_inv q \<Longrightarrow> (\<exists>q'. Dequeue q = (q', None)) \<longleftrightarrow> waiting q = {#}"
  using queue.deq_None_iff [of q] by (auto simp: Dequeue_deq waiting_def split: option.splits)

lemma Dequeue_empty: "queue_inv q \<Longrightarrow> waiting q = {#} \<Longrightarrow> Dequeue q = (q, None)"
  using queue.deq_None_iff [of q] by (auto simp: Dequeue_deq waiting_def split: option.splits)

section \<open>How the loop ends\<close>

lemma rounds_drain:
  assumes "queue_inv (d_Queue d)" "size (waiting (d_Queue d)) = k"
  shows "queue_inv (d_Queue (rounds vs i k d)) \<and> waiting (d_Queue (rounds vs i k d)) = {#}"
  using assms
proof (induction k arbitrary: i d)
  case (Suc k)
  then obtain q n where D: "Dequeue (d_Queue d) = (q, Some n)"
    using Dequeue_None_iff [of "d_Queue d"] by (cases "Dequeue (d_Queue d)"; cases "snd (Dequeue (d_Queue d))") auto
  note W = Dequeue_waiting [OF Suc.prems(1) D] and Q = loop_round_takes [OF D, of "vs i"]
  show ?case using Suc.IH [of "loop_round (vs i) d" "Suc i"] W Suc.prems(2) by (simp add: Q)
qed simp

lemma loop_empty:
  assumes "queue_inv (d_Queue d)" "waiting (d_Queue d) = {#}" "\<And>j. i \<le> j \<Longrightarrow> le_done (env j)"
  shows "loop env i d \<in> {Some d, Some (d\<lparr>d_Queue := fst (Queue_Wake (d_Queue d))\<rparr>)}"
proof -
  have stop: "loop env j e = Some e" if "i \<le> j" "queue_inv (d_Queue e)" "waiting (d_Queue e) = {#}" "\<not> q_wake (d_Queue e)" for j e
    using assms(3) [OF that(1)] that by (subst loop.simps) (simp add: loop_iteration_def loop_wait_def Dequeue_empty loop_select_def)
  let ?e = "d\<lparr>d_Queue := fst (Queue_Wake (d_Queue d))\<rparr>"
  have "loop env (Suc i) ?e = Some ?e"
    using assms(1,2) by (intro stop) (auto simp: Queue_Wake_def queue_inv_def waiting_def queue_contents_def)
  then show ?thesis
    using assms(3) [of i] stop [of i d] assms(1,2)
    by (subst loop.simps) (auto simp: loop_iteration_def loop_wait_def Dequeue_empty loop_select_def)
qed

lemma loop_rounds:
  assumes "queue_inv (d_Queue d)" "size (waiting (d_Queue d)) = k"
  shows "loop env i d = loop env (i + k) (rounds (\<lambda>j. le_deliver (env j)) i k d)"
  using assms
proof (induction k arbitrary: i d)
  case (Suc k)
  then obtain q n where D: "Dequeue (d_Queue d) = (q, Some n)"
    using Dequeue_None_iff [of "d_Queue d"] by (cases "Dequeue (d_Queue d)"; cases "snd (Dequeue (d_Queue d))") auto
  note W = Dequeue_waiting [OF Suc.prems(1) D] and Q = loop_round_takes [OF D, of "le_deliver (env i)"]
  have "loop env i d = loop env (Suc i) (loop_round (le_deliver (env i)) d)"
    by (subst loop.simps) (simp add: loop_iteration_def D)
  then show ?case using Suc.IH [of "loop_round (le_deliver (env i)) d" "Suc i"] W Suc.prems(2) by (simp add: Q)
qed simp

lemma loop_iteration_inv:
  assumes "queue_inv (d_Queue d)" "loop_iteration e d = (d', go)"
  shows "queue_inv (d_Queue d')" "\<not> go \<Longrightarrow> waiting (d_Queue d') = {#}"
proof -
  have wake: "queue_inv q \<Longrightarrow> queue_inv (fst (Queue_Wake q))" for q by (simp add: Queue_Wake_def queue_inv_def)
  show "queue_inv (d_Queue d')" "\<not> go \<Longrightarrow> waiting (d_Queue d') = {#}"
    using assms Dequeue_empty [OF assms(1)] Dequeue_None_iff [OF assms(1)] loop_round_takes [of d] Dequeue_waiting(1) [OF assms(1)] wake
    by (auto simp: loop_iteration_def loop_wait_def split: prod.splits option.splits select_case.splits)
qed

lemma loop_returns:
  assumes "queue_inv (d_Queue d)" "\<And>j. k \<le> j \<Longrightarrow> le_done (env j)"
  shows "\<exists>d'. loop env i d = Some d' \<and> queue_inv (d_Queue d') \<and> waiting (d_Queue d') = {#} \<and>
    (k \<le> i \<longrightarrow> (let r = rounds (\<lambda>j. le_deliver (env j)) i (size (waiting (d_Queue d))) d in
       d' = r \<or> d' = r\<lparr>d_Queue := fst (Queue_Wake (d_Queue r))\<rparr>))"
  using assms(1)
proof (induction "k - i" arbitrary: i d rule: less_induct)
  case less
  show ?case
  proof (cases "k \<le> i")
    case True
    let ?r = "rounds (\<lambda>j. le_deliver (env j)) i (size (waiting (d_Queue d))) d"
    note R = rounds_drain [OF less.prems refl, of "\<lambda>j. le_deliver (env j)" i]
    have "loop env i d \<in> {Some ?r, Some (?r\<lparr>d_Queue := fst (Queue_Wake (d_Queue ?r))\<rparr>)}"
      using loop_empty [of ?r "i + size (waiting (d_Queue d))" env] R assms(2) True loop_rounds [OF less.prems refl] by simp
    then show ?thesis using R by (auto simp: Let_def Queue_Wake_def queue_inv_def waiting_def queue_contents_def)
  next
    case False
    obtain d' go where I: "loop_iteration (env i) d = (d', go)" by fastforce
    note inv = loop_iteration_inv [OF less.prems I]
    have "loop env i d = (if go then loop env (Suc i) d' else Some d')" by (subst loop.simps) (simp add: I)
    moreover have "k - Suc i < k - i" using False by simp
    ultimately show ?thesis using less.hyps [OF _ inv(1), of "Suc i"] inv(2) inv(1) False by (cases go) auto
  qed
qed

text \<open>C19: When the context is done from some iteration on and nobody else enqueues, the loop of a single worker returns, and not before the queue is
  empty: what is still waiting when the context ends is taken off, one round each, and nothing else happens.\<close>

theorem worker_stops:
  assumes "queue_inv (d_Queue d)" "\<forall>j \<ge> k. le_done (env j)"
  shows "\<exists>d'. loop env i d = Some d' \<and> Queue_Len (d_Queue d') = 0 \<and>
    (k \<le> i \<longrightarrow> (let r = rounds (\<lambda>j. le_deliver (env j)) i (nat (Queue_Len (d_Queue d))) d in
       d' = r \<or> d' = r\<lparr>d_Queue := fst (Queue_Wake (d_Queue r))\<rparr>))"
  using loop_returns [OF assms(1), of k env i] assms(2) by (simp add: Queue_Len_contents waiting_def) blast

section \<open>A worker delivers in order\<close>

text \<open>A mock that succeeds on the next \<open>k\<close> calls, and a channel served by one behind a closed circuit.\<close>

definition mock_sound :: "nat \<Rightarrow> Provider \<Rightarrow> bool" where
  "mock_sound k P = (case P of
     MockProvider m \<Rightarrow> m_Delay m \<le> 0 \<and> m_Failures m \<le> 0 \<and> 0 \<le> m_Calls m \<and> m_Calls m + int k < 2 ^ 63
   | HTTPProvider h \<Rightarrow> False)"

lemma mock_sound_Send:
  assumes "mock_sound (Suc k) P"
  shows "snd (snd (Send env rq P)) = None" "mock_sound k (fst (Send env rq P))" "mock_sound k P"
proof -
  obtain m where m: "P = MockProvider m" "m_Delay m \<le> 0" "m_Failures m \<le> 0" "0 \<le> m_Calls m" "m_Calls m + int (Suc k) < 2 ^ 63"
    using assms by (auto simp: mock_sound_def split: Provider.splits)
  have c: "i64 (m_Calls m + 1) = m_Calls m + 1" using m by (intro i64_id) (simp add: in_i64_def)
  show "snd (snd (Send env rq P)) = None" "mock_sound k (fst (Send env rq P))" "mock_sound k P"
    using m by (simp_all add: Mock_Send_def mock_sound_def Let_def c)
qed

definition steady :: "nat \<Rightarrow> Channel \<Rightarrow> Dispatcher \<Rightarrow> bool" where
  "steady k ch d \<longleftrightarrow> (\<exists>p. closed_first (d_Router d) ch p \<and> mock_sound k (d_Adapters d p))"

definition tokens_left :: "nat \<Rightarrow> time \<Rightarrow> Dispatcher \<Rightarrow> bool" where
  "tokens_left k now d \<longleftrightarrow> bucket_ok (d_Limiter d) \<and> b_last (d_Limiter d) \<le> now \<and> of_nat k \<le> b_tokens (d_Limiter d) \<and> int k \<le> 2 ^ 53"

lemma deliver_steady:
  assumes stored: "s_Notifications (st_data (d_Store d)) (n_ID n) = Some n" "n_Status n = StatusQueued"
    and go: "\<not> expired_at (v_clock v 2) n" "v_io v 1 = IoOk" "v_io v 3 = IoOk"
    and able: "tokens_left (Suc k) (v_clock v 5) d" "steady (Suc k) (n_Channel n) d"
  obtains m p rq where
    "s_Notifications (st_data (d_Store (deliver v n d))) = (s_Notifications (st_data (d_Store d)))(n_ID n \<mapsto> m)" "n_Status m = StatusAccepted"
    "d_Sends (deliver v n d) = d_Sends d @ [(p, rq)]" "n_ID (rq_Notification rq) = n_ID n" "d_Timers (deliver v n d) = d_Timers d"
    "\<And>now. v_clock v 5 \<le> now \<Longrightarrow> tokens_left k now (deliver v n d)" "\<And>ch. steady (Suc k) ch d \<Longrightarrow> steady k ch (deliver v n d)"
proof -
  have B: "bucket_ok (d_Limiter d)" "b_last (d_Limiter d) \<le> v_clock v 5" "of_nat (Suc k) \<le> b_tokens (d_Limiter d)" "int (Suc k) \<le> 2 ^ 53"
    using able(1) by (simp_all add: tokens_left_def)
  obtain p where p: "closed_first (d_Router d) (n_Channel n) p" "mock_sound (Suc k) (d_Adapters d p)" using able(2) by (auto simp: steady_def)
  note C = Choose_closed_first [OF p(1)]
  have chosen: "fst (snd (Choose (v_choose v) (v_health v) (d_Adapters d) (n_Channel n) (d_Router d))) = Some p" by (simp add: C)
  obtain m rq where D:
    "s_Notifications (st_data (d_Store (deliver v n d))) = (s_Notifications (st_data (d_Store d)))(n_ID n \<mapsto> m)" "n_Status m = StatusAccepted"
    "d_Sends (deliver v n d) = d_Sends d @ [(p, rq)]" "n_ID (rq_Notification rq) = n_ID n" "d_Timers (deliver v n d) = d_Timers d"
    "d_Limiter (deliver v n d) = fst (Allow (v_clock v 5) 1 (d_Limiter d))"
    "d_Adapters (deliver v n d) = (d_Adapters d)(p := fst (Send (v_send v) rq (d_Adapters d p)))"
    "d_Router (deliver v n d) = Record (v_record v) (v_order v) (d_Adapters (deliver v n d)) p None
       (fst (Choose (v_choose v) (v_health v) (d_Adapters d) (n_Channel n) (d_Router d)))"
    by (rule deliver_accepted [OF stored go(1) tokens_admit(1) [OF B] go(2,3) chosen mock_sound_Send(1) [OF p(2)]])
  show thesis
  proof (rule that [OF D(1-5)])
    show "tokens_left k now (deliver v n d)" if "v_clock v 5 \<le> now" for now
      using Allow_ok [OF B(1,2), of 1] tokens_admit(2) [OF B] B(4) that by (simp add: tokens_left_def D(6))
    show "steady k ch (deliver v n d)" if "steady (Suc k) ch d" for ch
    proof -
      obtain q where q: "closed_first (d_Router d) ch q" "mock_sound (Suc k) (d_Adapters d q)" using \<open>steady (Suc k) ch d\<close> by (auto simp: steady_def)
      have "closed_first (d_Router (deliver v n d)) ch q" unfolding D(8) C fst_conv by (rule Record_closed_first [OF q(1)])
      moreover have "mock_sound k (d_Adapters (deliver v n d) q)" using mock_sound_Send(2,3) [OF q(2)] by (cases "q = p") (simp_all add: D(7))
      ultimately show ?thesis by (auto simp: steady_def)
    qed
  qed
qed

text \<open>A waiting notification that nothing holds back in the rounds from \<open>i\<close> on.\<close>

definition ready :: "(nat \<Rightarrow> deliver_env) \<Rightarrow> nat \<Rightarrow> nat \<Rightarrow> Dispatcher \<Rightarrow> Notification \<Rightarrow> bool" where
  "ready vs i k d n \<longleftrightarrow> s_Notifications (st_data (d_Store d)) (n_ID n) = Some n \<and> n_Status n = StatusQueued \<and> steady k (n_Channel n) d \<and>
     (\<forall>j \<ge> i. due_now (v_clock (vs j) 0) n \<and> \<not> expired_at (v_clock (vs j) 2) n)"

definition calm :: "(nat \<Rightarrow> deliver_env) \<Rightarrow> nat \<Rightarrow> bool" where
  "calm vs i \<longleftrightarrow> (\<forall>j \<ge> i. v_io (vs j) 1 = IoOk \<and> v_io (vs j) 3 = IoOk \<and> v_clock (vs j) 5 \<le> v_clock (vs (Suc j)) 5)"

abbreviation sent_ids :: "Dispatcher \<Rightarrow> string list" where
  "sent_ids d \<equiv> map (\<lambda>x. n_ID (rq_Notification (snd x))) (d_Sends d)"

lemma rounds_deliver:
  assumes "queue_inv (d_Queue d)" "waiting (d_Queue d) = mset ns" "length ns = k" "distinct (map n_ID ns)"
    and "\<forall>n \<in> set ns. ready vs i k d n" "calm vs i" "tokens_left k (v_clock (vs i) 5) d"
  shows "sent_ids (rounds vs i k d) = sent_ids d @ map (\<lambda>e. n_ID (fst e)) (drain queue_deq k (d_Queue d)) \<and>
    (\<forall>n \<in> set ns. \<exists>m. s_Notifications (st_data (d_Store (rounds vs i k d))) (n_ID n) = Some m \<and> n_Status m = StatusAccepted) \<and>
    (\<forall>x. x \<notin> n_ID ` set ns \<longrightarrow> s_Notifications (st_data (d_Store (rounds vs i k d))) x = s_Notifications (st_data (d_Store d)) x) \<and>
    d_Timers (rounds vs i k d) = d_Timers d"
  using assms
proof (induction k arbitrary: i d ns)
  case (Suc k)
  let ?v = "vs i"
  have "waiting (d_Queue d) \<noteq> {#}" using Suc.prems(2,3) by auto
  then obtain e q where Q: "queue_deq (d_Queue d) = Some (e, q)"
    using queue.deq_None_iff [OF Suc.prems(1)] by (auto simp: waiting_def)
  let ?n = "fst e"
  have D: "Dequeue (d_Queue d) = (q, Some ?n)" using Q by (simp add: Dequeue_deq)
  note W = Dequeue_waiting [OF Suc.prems(1) D]
  have n: "?n \<in> set ns" using W(2) Suc.prems(2) by (metis set_mset_mset union_single_eq_member)
  then have R: "ready vs i (Suc k) d ?n" using Suc.prems(5) by blast
  let ?d = "d\<lparr>d_Queue := q\<rparr>"
  have round: "loop_round ?v d = deliver ?v ?n ?d"
    using R by (auto simp: loop_round_def D loop_schedule_def ready_def due_now_def split: option.splits)
  obtain m p rq where S:
    "s_Notifications (st_data (d_Store (deliver ?v ?n ?d))) = (s_Notifications (st_data (d_Store d)))(n_ID ?n \<mapsto> m)" "n_Status m = StatusAccepted"
    "d_Sends (deliver ?v ?n ?d) = d_Sends d @ [(p, rq)]" "n_ID (rq_Notification rq) = n_ID ?n" "d_Timers (deliver ?v ?n ?d) = d_Timers d"
    "\<And>now. v_clock ?v 5 \<le> now \<Longrightarrow> tokens_left k now (deliver ?v ?n ?d)" "\<And>ch. steady (Suc k) ch d \<Longrightarrow> steady k ch (deliver ?v ?n ?d)"
    by (rule deliver_steady [of ?d ?n ?v k])
      (use R Suc.prems(6,7) in \<open>auto simp: ready_def calm_def steady_def tokens_left_def\<close>)
  let ?ns = "remove1 ?n ns"
  have ids: "set ns = insert ?n (set ?ns)" "n_ID ?n \<notin> n_ID ` set ?ns" "distinct (map n_ID ?ns)"
    using n Suc.prems(4) by (auto simp: set_remove1_eq distinct_map inj_on_def distinct_remove1)
  have "\<forall>x \<in> set ?ns. ready vs (Suc i) k (deliver ?v ?n ?d) x"
  proof
    fix x
    assume x: "x \<in> set ?ns"
    moreover have "n_ID x \<noteq> n_ID ?n" using x ids(2) by (metis imageI)
    ultimately have "ready vs i (Suc k) d x" "n_ID x \<noteq> n_ID ?n" using Suc.prems(5) ids(1) by auto
    then show "ready vs (Suc i) k (deliver ?v ?n ?d) x" using S(1,7) by (auto simp: ready_def)
  qed
  moreover have "waiting q = mset ?ns" "length ?ns = k" using W(2) Suc.prems(2,3) n by (auto simp: length_remove1)
  moreover have "calm vs (Suc i)" "tokens_left k (v_clock (vs (Suc i)) 5) (deliver ?v ?n ?d)" using Suc.prems(6) S(6) by (auto simp: calm_def)
  ultimately have IH: "sent_ids (rounds vs (Suc i) k (deliver ?v ?n ?d)) = sent_ids (deliver ?v ?n ?d) @ map (\<lambda>e. n_ID (fst e)) (drain queue_deq k q)"
    "\<forall>n \<in> set ?ns. \<exists>m. s_Notifications (st_data (d_Store (rounds vs (Suc i) k (deliver ?v ?n ?d)))) (n_ID n) = Some m \<and> n_Status m = StatusAccepted"
    "\<forall>x. x \<notin> n_ID ` set ?ns \<longrightarrow> s_Notifications (st_data (d_Store (rounds vs (Suc i) k (deliver ?v ?n ?d)))) x = s_Notifications (st_data (d_Store (deliver ?v ?n ?d))) x"
    "d_Timers (rounds vs (Suc i) k (deliver ?v ?n ?d)) = d_Timers (deliver ?v ?n ?d)"
    using Suc.IH [of "deliver ?v ?n ?d" ?ns "Suc i"] W(1) ids(3) by simp_all
  show ?case
    using IH S(1-5) ids(1,2) by (simp add: round Q)
qed simp

lemma ordered_deliveries:
  assumes "queue_inv (d_Queue d)" "waiting (d_Queue d) = mset ns" "distinct (map n_ID ns)"
    and "\<forall>n \<in> set ns. ready vs i (length ns) d n" "calm vs i" "tokens_left (length ns) (v_clock (vs i) 5) d"
  shows "\<exists>es. let d' = rounds vs i (length ns) d in
    mset es = queue_contents (d_Queue d) \<and> sorted_by item_before es \<and>
    sent_ids d' = sent_ids d @ map (\<lambda>e. n_ID (fst e)) es \<and>
    (\<forall>n \<in> set ns. \<exists>m. Store_Get (n_ID n) (d_Store d') = (m, None) \<and> n_Status m = StatusAccepted) \<and>
    Queue_Len (d_Queue d') = 0 \<and> d_Timers d' = d_Timers d"
proof -
  have k: "size (waiting (d_Queue d)) = length ns" "size (queue_contents (d_Queue d)) \<le> length ns"
    using assms(2) by (simp_all add: waiting_def) (metis order_refl size_image_mset size_mset)
  note R = rounds_deliver [OF assms(1,2) refl assms(3-6)]
  have acc: "\<forall>n \<in> set ns. \<exists>m. Store_Get (n_ID n) (d_Store (rounds vs i (length ns) d)) = (m, None) \<and> n_Status m = StatusAccepted"
    using R by (fastforce simp: Store_Get_def)
  have "Queue_Len (d_Queue (rounds vs i (length ns) d)) = 0"
    using rounds_drain [OF assms(1) k(1), of vs i] by (simp add: Queue_Len_contents waiting_def)
  then show ?thesis
    using R queue.drain_all [OF assms(1) k(2)] acc
    by (intro exI [of _ "drain queue_deq (length ns) (d_Queue d)"]) (simp add: Let_def)
qed

text \<open>C5: A worker that is not disturbed sends what is waiting in the order of the queue, higher priority first and
  earlier first among equals, one notification per round, and each of them is accepted, when every channel concerned has a mock
  provider without failures behind a closed circuit (as \<open>main\<close> sets them up), the bucket holds a token for each, and the file can be
  written.\<close>

theorem delivered_in_priority_order:
  assumes "queue_inv (d_Queue d)" "waiting (d_Queue d) = mset ns" "distinct (map n_ID ns)"
    and "\<forall>n \<in> set ns. ready vs i (length ns) d n" "calm vs i" "tokens_left (length ns) (v_clock (vs i) 5) d"
  shows "\<exists>es. let d' = rounds vs i (length ns) d in
    mset es = queue_contents (d_Queue d) \<and> sorted_by item_before es \<and>
    sent_ids d' = sent_ids d @ map (\<lambda>e. n_ID (fst e)) es \<and>
    (\<forall>n \<in> set ns. \<exists>m. Store_Get (n_ID n) (d_Store d') = (m, None) \<and> n_Status m = StatusAccepted) \<and>
    Queue_Len (d_Queue d') = 0 \<and> d_Timers d' = d_Timers d"
  by (rule ordered_deliveries [OF assms])

section \<open>Sends that fail\<close>

text \<open>Rounds of a worker, each followed by the first pending timer.\<close>

fun attempt_run :: "(nat \<Rightarrow> deliver_env) \<Rightarrow> (nat \<Rightarrow> time) \<Rightarrow> nat \<Rightarrow> Dispatcher \<Rightarrow> Dispatcher" where
  "attempt_run vs ts 0 d = d"
| "attempt_run vs ts (Suc k) d = timer_fires (ts k) 0 (loop_round (vs k) (attempt_run vs ts k d))"

text \<open>A round in which the schedule, the bucket and the circuits let the notification through to a provider.\<close>

definition open_round :: "deliver_env \<Rightarrow> Notification \<Rightarrow> Dispatcher \<Rightarrow> bool" where
  "open_round v n d \<longleftrightarrow> due_now (v_clock v 0) n \<and> snd (Allow (v_clock v 5) 1 (d_Limiter d)) \<and>
     fst (snd (Choose (v_choose v) (v_health v) (d_Adapters d) (n_Channel n) (d_Router d))) \<noteq> None"

definition queue_holds :: "Notification multiset \<Rightarrow> Dispatcher \<Rightarrow> bool" where
  "queue_holds w d \<longleftrightarrow> queue_inv (d_Queue d) \<and> 0 < q_max (d_Queue d) \<and> waiting (d_Queue d) = w"

definition in_flight :: "Notification \<Rightarrow> Dispatcher \<Rightarrow> bool" where
  "in_flight m d \<longleftrightarrow> queue_holds {#m#} d \<and> d_Timers d = [] \<and> s_Notifications (st_data (d_Store d)) (n_ID m) = Some m \<and> n_Status m = StatusQueued"

definition ended :: "Notification \<Rightarrow> Dispatcher \<Rightarrow> bool" where
  "ended m d \<longleftrightarrow> queue_holds {#} d \<and> d_Timers d = [] \<and> s_Notifications (st_data (d_Store d)) (n_ID m) = Some m \<and> n_Status m = StatusFailed"

lemma timer_requeues:
  assumes "queue_holds {#} d" "d_Timers d = [(t, m)]"
  shows "queue_holds {#m#} (timer_fires now 0 d)" "d_Timers (timer_fires now 0 d) = []" "d_Store (timer_fires now 0 d) = d_Store d"
    "d_Sends (timer_fires now 0 d) = d_Sends d" "d_MaxAttempts (timer_fires now 0 d) = d_MaxAttempts d"
proof -
  have inv: "queue_inv (d_Queue d)" "0 < q_max (d_Queue d)" "waiting (d_Queue d) = {#}" using assms(1) by (simp_all add: queue_holds_def)
  obtain q where "Enqueue now m (d_Queue d) = (q, None)" "queue_inv q" "q_max q = q_max (d_Queue d)" "waiting q = {#m#}"
    by (rule Enqueue_waiting [OF inv(1), of now m]) (use inv(2,3) in auto)
  then show "queue_holds {#m#} (timer_fires now 0 d)" "d_Timers (timer_fires now 0 d) = []" "d_Store (timer_fires now 0 d) = d_Store d"
    "d_Sends (timer_fires now 0 d) = d_Sends d" "d_MaxAttempts (timer_fires now 0 d) = d_MaxAttempts d"
    using inv(2) assms(2) by (simp_all add: timer_fires_def queue_holds_def)
qed

lemma no_timer: "d_Timers d = [] \<Longrightarrow> timer_fires now 0 d = d"
  by (simp add: timer_fires_def)

lemma take_single:
  assumes "queue_holds {#m#} d"
  obtains q where "Dequeue (d_Queue d) = (q, Some m)" "queue_holds {#} (d\<lparr>d_Queue := q\<rparr>)"
proof -
  have inv: "queue_inv (d_Queue d)" "waiting (d_Queue d) = {#m#}" using assms by (simp_all add: queue_holds_def)
  then obtain e q where Q: "queue_deq (d_Queue d) = Some (e, q)" using queue.deq_None_iff [OF inv(1)] by (auto simp: waiting_def)
  have D: "Dequeue (d_Queue d) = (q, Some (fst e))" using Q by (simp add: Dequeue_deq)
  from Dequeue_waiting [OF inv(1) D] inv(2) have "fst e = m" "waiting q = {#}" "queue_inv q" by (auto simp: add_mset_eq_single)
  then show thesis using that D assms queue.deq_bounded(3) [OF inv(1) Q] by (simp add: queue_holds_def)
qed

text \<open>What a round and the timer after it make of a notification in flight.\<close>

definition kept :: "Dispatcher \<Rightarrow> Notification \<Rightarrow> Dispatcher \<Rightarrow> bool" where
  "kept d m' d' \<longleftrightarrow> in_flight m' d' \<and> sent_ids d' = sent_ids d \<and> d_MaxAttempts d' = d_MaxAttempts d"

definition tried_once :: "Dispatcher \<Rightarrow> Notification \<Rightarrow> Dispatcher \<Rightarrow> bool" where
  "tried_once d m' d' \<longleftrightarrow> (if n_Attempts m' < d_MaxAttempts d then in_flight m' d' else ended m' d') \<and>
     sent_ids d' = sent_ids d @ [n_ID m'] \<and> d_MaxAttempts d' = d_MaxAttempts d"

lemma requeued:
  assumes "queue_holds {#} d'" "d_Timers d' = [(t, m')]" "s_Notifications (st_data (d_Store d')) (n_ID m') = Some m'" "n_Status m' = StatusQueued"
    and "d_Sends d' = d_Sends d" "d_MaxAttempts d' = d_MaxAttempts d"
  shows "kept d m' (timer_fires now 0 d')"
  using timer_requeues [OF assms(1,2), of now] assms(3-6) by (simp add: in_flight_def kept_def)

lemma held_back:
  assumes fl: "in_flight m d" and "n_ExpiresAt m = None"
    and held: "\<not> (due_now (v_clock v 0) m \<and> snd (Allow (v_clock v 5) 1 (d_Limiter d)))"
  shows "kept d m (timer_fires t 0 (loop_round v d))"
proof -
  have m: "s_Notifications (st_data (d_Store d)) (n_ID m) = Some m" "n_Status m = StatusQueued" "d_Timers d = []" "queue_holds {#m#} d"
    using fl by (simp_all add: in_flight_def)
  obtain q where q: "Dequeue (d_Queue d) = (q, Some m)" "queue_holds {#} (d\<lparr>d_Queue := q\<rparr>)" using m(4) by (rule take_single)
  have "\<exists>x b. loop_round v d = AfterFunc x m (d\<lparr>d_Queue := q, d_Limiter := b\<rparr>)"
  proof (cases "due_now (v_clock v 0) m")
    case True
    then have "loop_round v d = deliver v m (d\<lparr>d_Queue := q\<rparr>)"
      by (auto simp: loop_round_def q(1) loop_schedule_def due_now_def split: option.splits)
    then show ?thesis using held True assms(2) by (auto simp: deliver_def deliver_admit_def Let_def)
  next
    case False
    then have "\<exists>x. loop_round v d = AfterFunc x m (d\<lparr>d_Queue := q, d_Limiter := d_Limiter d\<rparr>)"
      by (auto simp: loop_round_def q(1) loop_schedule_def due_now_def split: option.splits)
    then show ?thesis by blast
  qed
  then obtain x b where "loop_round v d = AfterFunc x m (d\<lparr>d_Queue := q, d_Limiter := b\<rparr>)" by blast
  then show ?thesis using q(2) m(1-3) by (intro requeued [of _ x]) (simp_all add: AfterFunc_def queue_holds_def)
qed

lemma admitted_round:
  assumes "in_flight m d" "due_now (v_clock v 0) m"
  obtains q where "loop_round v d = deliver v m (d\<lparr>d_Queue := q\<rparr>)" "queue_holds {#} (d\<lparr>d_Queue := q\<rparr>)"
proof -
  obtain q where q: "Dequeue (d_Queue d) = (q, Some m)" "queue_holds {#} (d\<lparr>d_Queue := q\<rparr>)"
    by (rule take_single [of m d]) (use assms(1) in \<open>simp_all add: in_flight_def\<close>)
  moreover have "loop_round v d = deliver v m (d\<lparr>d_Queue := q\<rparr>)"
    using assms(2) by (auto simp: loop_round_def q(1) loop_schedule_def due_now_def split: option.splits)
  ultimately show thesis using that by blast
qed

lemma unroutable_round:
  assumes fl: "in_flight m d" and m: "n_ExpiresAt m = None" "n_Attempts m < d_MaxAttempts d"
    and v: "v_io v 1 = IoOk" "due_now (v_clock v 0) m" "snd (Allow (v_clock v 5) 1 (d_Limiter d))"
    and none: "fst (snd (Choose (v_choose v) (v_health v) (d_Adapters d) (n_Channel m) (d_Router d))) = None"
  shows "\<exists>m'. same_route m' m \<and> n_Attempts m' = n_Attempts m \<and> kept d m' (timer_fires t 0 (loop_round v d))"
proof -
  obtain q where q: "loop_round v d = deliver v m (d\<lparr>d_Queue := q\<rparr>)" "queue_holds {#} (d\<lparr>d_Queue := q\<rparr>)"
    by (rule admitted_round [OF fl v(2)])
  let ?d = "d\<lparr>d_Queue := q\<rparr>"
  obtain m' where D:
    "s_Notifications (st_data (d_Store (deliver v m ?d))) = (s_Notifications (st_data (d_Store ?d)))(n_ID m \<mapsto> m')"
    "n_Status m' = StatusQueued" "n_Attempts m' = n_Attempts m" "same_route m' m" "d_Queue (deliver v m ?d) = d_Queue ?d"
    "d_Sends (deliver v m ?d) = d_Sends ?d" "d_MaxAttempts (deliver v m ?d) = d_MaxAttempts ?d"
    "d_Timers (deliver v m ?d) = d_Timers ?d @ [(backoff (n_Attempts m), m')]"
    by (rule deliver_unroutable [of ?d m v]) (use fl m v none in \<open>simp_all add: in_flight_def expired_at_def\<close>)
  have "n_ID m' = n_ID m" using D(4) by (simp add: same_route_def)
  then have "kept d m' (timer_fires t 0 (deliver v m ?d))"
    using D fl q(2) by (intro requeued [of _ "backoff (n_Attempts m)"]) (simp_all add: queue_holds_def in_flight_def)
  then show ?thesis using D(3,4) q(1) by auto
qed

lemma failed_round:
  assumes fl: "in_flight m d" and m: "n_ExpiresAt m = None" "0 \<le> n_Attempts m" "n_Attempts m < d_MaxAttempts d" "d_MaxAttempts d < 2 ^ 63"
    and v: "v_io v 1 = IoOk" "due_now (v_clock v 0) m" "snd (Allow (v_clock v 5) 1 (d_Limiter d))"
    and p: "fst (snd (Choose (v_choose v) (v_health v) (d_Adapters d) (n_Channel m) (d_Router d))) = Some p"
    and fails: "\<And>rq. snd (snd (Send (v_send v) rq (d_Adapters d p))) \<noteq> None"
  shows "\<exists>m'. same_route m' m \<and> n_Attempts m' = n_Attempts m + 1 \<and> tried_once d m' (timer_fires t 0 (loop_round v d))"
proof -
  obtain q where q: "loop_round v d = deliver v m (d\<lparr>d_Queue := q\<rparr>)" "queue_holds {#} (d\<lparr>d_Queue := q\<rparr>)"
    by (rule admitted_round [OF fl v(2)])
  let ?d = "d\<lparr>d_Queue := q\<rparr>"
  obtain m' rq where D:
    "s_Notifications (st_data (d_Store (deliver v m ?d))) = (s_Notifications (st_data (d_Store ?d)))(n_ID m \<mapsto> m')"
    "n_Attempts m' = i64 (n_Attempts m + 1)" "same_route m' m" "d_Queue (deliver v m ?d) = d_Queue ?d"
    "d_Sends (deliver v m ?d) = d_Sends ?d @ [(p, rq)]" "n_ID (rq_Notification rq) = n_ID m"
    "d_MaxAttempts (deliver v m ?d) = d_MaxAttempts ?d"
    "if d_MaxAttempts ?d \<le> n_Attempts m' then n_Status m' = StatusFailed \<and> d_Timers (deliver v m ?d) = d_Timers ?d
     else n_Status m' = StatusQueued \<and> d_Timers (deliver v m ?d) = d_Timers ?d @ [(backoff (n_Attempts m'), m')]"
    by (rule deliver_failed [of ?d m v p]) (use fl m(1) v p fails in \<open>simp_all add: in_flight_def expired_at_def\<close>)
  have at: "n_Attempts m' = n_Attempts m + 1" using D(2) m by (simp add: i64_id in_i64_def)
  have id': "n_ID m' = n_ID m" using D(3) by (simp add: same_route_def)
  have H: "queue_holds {#} (deliver v m ?d)" using D(4) q(2) by (simp add: queue_holds_def)
  have T: "d_Timers d = []" using fl by (simp add: in_flight_def)
  have "tried_once d m' (timer_fires t 0 (deliver v m ?d))"
  proof (cases "n_Attempts m' < d_MaxAttempts d")
    case True
    then have "kept (deliver v m ?d) m' (timer_fires t 0 (deliver v m ?d))"
      using D(1,8) id' H T by (intro requeued [of _ "backoff (n_Attempts m')"]) simp_all
    then show ?thesis using True D(5-7) id' by (simp add: kept_def tried_once_def)
  next
    case False
    then show ?thesis using D id' H T by (simp add: tried_once_def ended_def no_timer)
  qed
  then show ?thesis using D(3) at q(1) by auto
qed

lemma failing_round:
  assumes fl: "in_flight m d" and n: "same_route m n" "n_ExpiresAt n = None"
    and a: "0 \<le> n_Attempts m" "n_Attempts m < d_MaxAttempts d" "d_MaxAttempts d < 2 ^ 63"
    and v: "v_io v 1 = IoOk" and fails: "\<And>p rq. snd (snd (Send (v_send v) rq (d_Adapters d p))) \<noteq> None"
  shows "\<exists>m'. same_route m' n \<and>
    (if open_round v n d then n_Attempts m' = n_Attempts m + 1 \<and> tried_once d m' (timer_fires t 0 (loop_round v d))
     else n_Attempts m' = n_Attempts m \<and> kept d m' (timer_fires t 0 (loop_round v d)))"
proof -
  have route: "n_Channel m = n_Channel n" "n_ScheduleAt m = n_ScheduleAt n" "n_ExpiresAt m = None"
    using n by (simp_all add: same_route_def)
  have due: "due_now now n = due_now now m" for now by (simp add: due_now_def route)
  show ?thesis
  proof (cases "due_now (v_clock v 0) m \<and> snd (Allow (v_clock v 5) 1 (d_Limiter d))")
    case False
    then show ?thesis using held_back [OF fl route(3) False] n(1) by (auto simp: open_round_def due)
  next
    case True
    then show ?thesis
      using unroutable_round [OF fl route(3) a(2) v, of t] failed_round [OF fl route(3) a v, of _ t] fails same_route_trans [OF _ n(1)]
      by (cases "fst (snd (Choose (v_choose v) (v_health v) (d_Adapters d) (n_Channel m) (d_Router d)))")
        (auto simp: open_round_def due route)
  qed
qed

lemma ended_stays: "ended m d \<Longrightarrow> timer_fires t 0 (loop_round v d) = d"
  using Dequeue_empty [of "d_Queue d"] by (simp add: ended_def queue_holds_def loop_round_def no_timer)

text \<open>C6: A notification whose sends all fail comes to an end.  In every number of rounds of a worker, each followed by the pending timer, it is
  sent once for each round in which schedule, bucket and circuits let it through, until the maximal number of attempts is
  reached; then it is failed and nothing is left in the queue or in a timer.  Before that exactly one copy waits, the
  stored one; rounds in which no provider is available do not count.\<close>

theorem failing_sends_end:
  assumes "in_flight n d" "n_ExpiresAt n = None" "0 \<le> n_Attempts n" "n_Attempts n < d_MaxAttempts d" "d_MaxAttempts d < 2 ^ 63"
    and "\<forall>j < k. v_io (vs j) 1 = IoOk \<and> (\<forall>p rq. snd (snd (Send (v_send (vs j)) rq (d_Adapters (attempt_run vs ts j d) p))) \<noteq> None)"
  shows "let d' = attempt_run vs ts k d;
       s = min (length (filter (\<lambda>j. open_round (vs j) n (attempt_run vs ts j d)) [0..<k])) (nat (d_MaxAttempts d - n_Attempts n))
     in sent_ids d' = sent_ids d @ replicate s (n_ID n) \<and>
       (\<exists>m. Store_Get (n_ID n) (d_Store d') = (m, None) \<and> n_Attempts m = n_Attempts n + int s \<and> d_Timers d' = [] \<and>
         (if s < nat (d_MaxAttempts d - n_Attempts n) then n_Status m = StatusQueued \<and> waiting (d_Queue d') = {#m#}
          else n_Status m = StatusFailed \<and> waiting (d_Queue d') = {#}))"
proof -
  define M where "M = nat (d_MaxAttempts d - n_Attempts n)"
  define s where "s k = min (length (filter (\<lambda>j. open_round (vs j) n (attempt_run vs ts j d)) [0..<k])) M" for k
  have "sent_ids (attempt_run vs ts k d) = sent_ids d @ replicate (s k) (n_ID n) \<and> d_MaxAttempts (attempt_run vs ts k d) = d_MaxAttempts d \<and>
    (\<exists>m. same_route m n \<and> n_Attempts m = n_Attempts n + int (s k) \<and>
       (if s k < M then in_flight m (attempt_run vs ts k d) else ended m (attempt_run vs ts k d)))"
    using assms(6)
  proof (induction k)
    case 0
    then show ?case using assms(1,4) by (auto simp: s_def M_def intro!: exI [of _ n])
  next
    case (Suc k)
    let ?e = "attempt_run vs ts k d"
    from Suc obtain m where IH: "sent_ids ?e = sent_ids d @ replicate (s k) (n_ID n)" "d_MaxAttempts ?e = d_MaxAttempts d" "same_route m n"
      "n_Attempts m = n_Attempts n + int (s k)" "if s k < M then in_flight m ?e else ended m ?e" by auto
    show ?case
    proof (cases "s k < M")
      case False
      then have "s k = M" by (simp add: s_def)
      then have "s (Suc k) = s k" by (auto simp: s_def)
      then show ?thesis using IH False ended_stays [of m ?e] by auto
    next
      case True
      have fails: "snd (snd (Send (v_send (vs k)) rq (d_Adapters ?e p))) \<noteq> None" for p rq using Suc.prems by simp
      have "s (Suc k) = s k + (if open_round (vs k) n ?e then 1 else 0)" using True by (auto simp: s_def)
      moreover have "n_Attempts m < d_MaxAttempts ?e" using True IH(2,4) assms(4) by (simp add: M_def)
      ultimately show ?thesis
        using failing_round [of m ?e n "vs k" "ts k"] IH True assms(2,3,5) Suc.prems fails
        by (auto simp: kept_def tried_once_def replicate_append_same [symmetric] same_route_def M_def split: if_splits)
    qed
  qed
  then show ?thesis
    unfolding Let_def M_def [symmetric] s_def [symmetric]
    by (auto simp: in_flight_def ended_def queue_holds_def Store_Get_def same_route_def split: if_splits)
qed

section \<open>Samples\<close>

definition urgent_sample :: Notification where
  "urgent_sample = queued_sample\<lparr>n_ID := ''n2'', n_IdempotencyKey := ''invoice-200'', n_Priority := 90\<rparr>"

definition two_waiting :: Dispatcher where
  "two_waiting = sample_dispatcher\<lparr>d_Store := fst (Store_Create 3 4 IoOk urgent_sample sample_store),
     d_Queue := enqueue_all [(queued_sample, 15), (urgent_sample, 16)] (Queue_New 10)\<rparr>"

lemma two_waiting_queue:
  "queue_inv (d_Queue two_waiting)" "queue_contents (d_Queue two_waiting) = mset [(queued_sample, 15), (urgent_sample, 16)]"
  "waiting (d_Queue two_waiting) = mset [queued_sample, urgent_sample]"
proof -
  have "Queue_Len (Queue_New 10) + int (length [(queued_sample, 15), (urgent_sample, 16)]) \<le> q_max (Queue_New 10)"
    by (simp add: Queue_Len_def Queue_New_def)
  from enqueue_all_contents [OF queue_inv_New this]
  have C: "queue_inv (d_Queue two_waiting)" "queue_contents (d_Queue two_waiting) = mset [(queued_sample, 15), (urgent_sample, 16)]"
    by (simp_all add: two_waiting_def) (simp_all add: queue_contents_def Queue_New_def)
  then show "queue_inv (d_Queue two_waiting)" "queue_contents (d_Queue two_waiting) = mset [(queued_sample, 15), (urgent_sample, 16)]"
    "waiting (d_Queue two_waiting) = mset [queued_sample, urgent_sample]" by (simp_all add: waiting_def)
qed

lemma two_waiting_stored:
  "s_Notifications (st_data (d_Store two_waiting)) = [''n1'' \<mapsto> queued_sample, ''n2'' \<mapsto> urgent_sample]"
proof -
  have "s_Idempotency (st_data sample_store) = [idem_key ''acme'' ''invoice-100'' \<mapsto> ''n1'']"
    by (simp add: sample_store_def Store_Create_new empty_snapshot_def sample_notification_def)
  moreover have "n_TenantID urgent_sample = ''acme''" "n_IdempotencyKey urgent_sample = ''invoice-200''" "n_ID urgent_sample = ''n2''"
    by (simp_all add: urgent_sample_def queued_sample_def sample_notification_def)
  moreover have "idem_key ''acme'' ''invoice-200'' \<noteq> idem_key ''acme'' ''invoice-100''" by (simp add: idem_key_def)
  ultimately show ?thesis by (simp add: two_waiting_def Store_Create_new sample_store_n1)
qed

lemma sample_fields:
  "n_ID queued_sample = ''n1''" "n_ID urgent_sample = ''n2''" "n_Status queued_sample = StatusQueued" "n_Status urgent_sample = StatusQueued"
  "n_Channel queued_sample = ChannelEmail" "n_Channel urgent_sample = ChannelEmail" "n_ScheduleAt queued_sample = None" "n_ScheduleAt urgent_sample = None"
  "n_ExpiresAt queued_sample = None" "n_ExpiresAt urgent_sample = None" "n_Priority queued_sample = 80" "n_Priority urgent_sample = 90"
  "n_Attempts queued_sample = 0"
  by (simp_all add: urgent_sample_def queued_sample_def sample_notification_def empty_Notification_def)

lemma two_waiting_ready:
  "\<forall>n \<in> set [queued_sample, urgent_sample]. ready (\<lambda>_. sample_deliver_env) 0 2 two_waiting n" "calm (\<lambda>_. sample_deliver_env) 0"
  "tokens_left 2 (v_clock sample_deliver_env 5) two_waiting"
proof -
  have "closed_first (d_Router two_waiting) ChannelEmail 0"
    by (simp add: two_waiting_def sample_dispatcher_def closed_first_def sample_router_providers)
  moreover have "mock_sound 2 (d_Adapters two_waiting 0)"
    by (simp add: two_waiting_def sample_dispatcher_def mock_sound_def sample_adapters_def sample_mock_def)
  ultimately have "steady 2 ChannelEmail two_waiting" by (auto simp: steady_def)
  then show "\<forall>n \<in> set [queued_sample, urgent_sample]. ready (\<lambda>_. sample_deliver_env) 0 2 two_waiting n"
    by (simp add: ready_def sample_fields two_waiting_stored due_now_def expired_at_def)
  show "calm (\<lambda>_. sample_deliver_env) 0" by (simp add: calm_def sample_deliver_env_def)
  show "tokens_left 2 (v_clock sample_deliver_env 5) two_waiting"
    using main_bucket_ok by (simp add: tokens_left_def two_waiting_def sample_dispatcher_def sample_deliver_env_def rate_New_def)
qed

theorem delivered_in_priority_order_witness:
  "sent_ids (rounds (\<lambda>_. sample_deliver_env) 0 2 two_waiting) = [''n2'', ''n1'']"
proof -
  have "distinct (map n_ID [queued_sample, urgent_sample])" by (simp add: sample_fields)
  from delivered_in_priority_order [OF two_waiting_queue(1,3) this, of "\<lambda>_. sample_deliver_env" 0] two_waiting_ready
  obtain es where es: "mset es = mset [(queued_sample, 15), (urgent_sample, 16)]" "sorted_by item_before es"
    "sent_ids (rounds (\<lambda>_. sample_deliver_env) 0 2 two_waiting) = sent_ids two_waiting @ map (\<lambda>e. n_ID (fst e)) es"
    by (auto simp: two_waiting_queue(2) Let_def numeral_2_eq_2)
  have "length es = 2" using arg_cong [OF es(1), of size] by simp
  then obtain a b where ab: "es = [a, b]" by (auto simp: numeral_2_eq_2 length_Suc_conv)
  have "es = [(urgent_sample, 16), (queued_sample, 15)]"
    using es(1,2) by (auto simp: ab add_eq_conv_ex sorted_by_def item_before_def sample_fields)
  moreover have "sent_ids two_waiting = []" by (simp add: two_waiting_def sample_dispatcher_def)
  ultimately show ?thesis by (simp add: es(3) sample_fields)
qed

definition ending_env :: loop_env where
  "ending_env = \<lparr>le_deliver = sample_deliver_env, le_done = True, le_pick = Woken\<rparr>"

theorem worker_stops_witness:
  "\<exists>d'. loop (\<lambda>_. ending_env) 0 two_waiting = Some d' \<and> Queue_Len (d_Queue d') = 0"
  using worker_stops [OF two_waiting_queue(1), of 0 "\<lambda>_. ending_env" 0] by (auto simp: ending_env_def)

definition one_failing :: Dispatcher where
  "one_failing = sample_dispatcher\<lparr>d_Adapters := failing_adapters, d_Queue := enqueue_all [(queued_sample, 15)] (Queue_New 10)\<rparr>"

theorem failing_sends_end_witness:
  "let d' = attempt_run (\<lambda>_. sample_deliver_env) (\<lambda>_. 40) 1 one_failing in
     sent_ids d' = [''n1''] \<and> (\<exists>m. Store_Get ''n1'' (d_Store d') = (m, None) \<and> n_Attempts m = 1 \<and> waiting (d_Queue d') = {#m#})"
proof -
  have "Queue_Len (Queue_New 10) + int (length [(queued_sample, 15)]) \<le> q_max (Queue_New 10)" by (simp add: Queue_Len_def Queue_New_def)
  from enqueue_all_contents [OF queue_inv_New this]
  have Q: "queue_inv (d_Queue one_failing)" "waiting (d_Queue one_failing) = {#queued_sample#}"
    by (simp_all add: one_failing_def waiting_def) (simp_all add: queue_contents_def Queue_New_def)
  moreover have "q_max (d_Queue one_failing) = 10" by (simp add: one_failing_def Enqueue_def Queue_New_def)
  ultimately have fl: "in_flight queued_sample one_failing"
    using sample_store_n1 by (simp add: in_flight_def queue_holds_def sample_fields) (simp add: one_failing_def sample_dispatcher_def)
  have "\<forall>j<1. v_io sample_deliver_env 1 = IoOk \<and>
      (\<forall>p rq. snd (snd (Send (v_send sample_deliver_env) rq (d_Adapters (attempt_run (\<lambda>_. sample_deliver_env) (\<lambda>_. 40) j one_failing) p))) \<noteq> None)"
    by (simp add: sample_deliver_env_def one_failing_def failing_sends)
  note F = failing_sends_end [OF fl sample_fields(9) _ _ _ this]
  have "open_round sample_deliver_env queued_sample one_failing"
    using sample_choose sample_ready(4) by (simp add: open_round_def one_failing_def sample_fields due_now_def sample_dispatcher_def)
  then show ?thesis using F by (auto simp: sample_fields one_failing_def sample_dispatcher_def Let_def)
qed

end
