(* ===== verification/Main_Exit.thy ===== *)
theory Main_Exit
  imports Platform Worker_Loop
begin

text \<open>
  How the two programs of \<open>cmd/\<close> end: the signal or the failing HTTP server that ends the context, the workers that return from
  their loops, \<open>Wait\<close>, and the last statements of both \<open>main\<close>.  The workers take the small steps of theory \<open>Platform\<close> and the wait of
  \<open>Worker_Loop\<close>; timers, requests and receipts go on meanwhile.
\<close>

section \<open>The process\<close>

text \<open>Where \<open>main\<close> is: at \<open>ctx.Done()\<close>, in \<open>srv.Shutdown\<close>, at the wait for the dispatcher, or returned.\<close>

datatype main_state = Serving | Closing | Waiting | Exited

text \<open>The flags of \<open>pr_live\<close> say which loops have not returned; those are what the wait group counts.\<close>

record process =
  pr_p :: platform
  pr_live :: "bool list"
  pr_done :: bool
  pr_main :: main_state

abbreviation queue_of :: "process \<Rightarrow> Queue" where
  "queue_of s \<equiv> d_Queue (pl_d (pr_p s))"

definition main_process :: "platform \<Rightarrow> process" where
  "main_process p = \<lparr>pr_p = p, pr_live = replicate (length (pl_workers p)) True, pr_done = False, pr_main = Serving\<rparr>"

definition Dispatcher_Wait :: "process \<Rightarrow> bool" where
  "Dispatcher_Wait s \<longleftrightarrow> length (filter (\<lambda>b. b) (pr_live s)) = 0"

text \<open>The goroutine of the HTTP server: an error other than \<open>http.ErrServerClosed\<close> ends the context.\<close>

definition ErrServerClosed :: go_error where
  "ErrServerClosed = ''http: Server closed''"

definition serve_ended :: "go_error option \<Rightarrow> process \<Rightarrow> process" where
  "serve_ended e s = (if e \<noteq> None \<and> e \<noteq> Some ErrServerClosed then s\<lparr>pr_done := True\<rparr> else s)"

text \<open>
  The next statement of \<open>main\<close>, or \<open>None\<close> while it blocks.  \<open>srv.Shutdown\<close> returns, with an error that is ignored when its time is over; the
  second program gives up the wait when \<open>timeout\<close> says that its time is over.
\<close>

definition api_main_next :: "bool \<Rightarrow> process \<Rightarrow> main_state option" where
  "api_main_next timeout s =
     (case pr_main s of
        Serving \<Rightarrow> if pr_done s then Some Closing else None
      | Closing \<Rightarrow> Some Waiting
      | Waiting \<Rightarrow> if Dispatcher_Wait s then Some Exited else None
      | Exited \<Rightarrow> None)"

definition worker_main_next :: "bool \<Rightarrow> process \<Rightarrow> main_state option" where
  "worker_main_next timeout s =
     (case pr_main s of
        Serving \<Rightarrow> if pr_done s then Some Waiting else None
      | Closing \<Rightarrow> None
      | Waiting \<Rightarrow> if Dispatcher_Wait s \<or> timeout then Some Exited else None
      | Exited \<Rightarrow> None)"

text \<open>Steps of the program itself: a worker in a round, a worker on an empty queue, \<open>main\<close>.\<close>

inductive own_step :: "(bool \<Rightarrow> process \<Rightarrow> main_state option) \<Rightarrow> process \<Rightarrow> process \<Rightarrow> bool" for main_next where
  round_step: "pr_main s \<noteq> Exited \<Longrightarrow> i < length (pr_live s) \<Longrightarrow> pr_live s ! i \<Longrightarrow>
    worker_step (pl_workers (pr_p s) ! i, pl_d (pr_p s)) (w, d) \<Longrightarrow>
    own_step main_next s (s\<lparr>pr_p := (pr_p s)\<lparr>pl_d := d, pl_workers := (pl_workers (pr_p s))[i := w]\<rparr>\<rparr>)"
| wait_step: "pr_main s \<noteq> Exited \<Longrightarrow> i < length (pr_live s) \<Longrightarrow> pr_live s ! i \<Longrightarrow> pl_workers (pr_p s) ! i = Idle \<Longrightarrow>
    Dequeue (queue_of s) = (q, None) \<Longrightarrow> le_done e = pr_done s \<Longrightarrow> loop_wait e q = (q', go) \<Longrightarrow>
    own_step main_next s (s\<lparr>pr_p := (pr_p s)\<lparr>pl_d := (pl_d (pr_p s))\<lparr>d_Queue := q'\<rparr>\<rparr>, pr_live := (pr_live s)[i := go]\<rparr>)"
| main_step: "main_next timeout s = Some m \<Longrightarrow> own_step main_next s (s\<lparr>pr_main := m\<rparr>)"

text \<open>Steps from outside: signals, the end of the HTTP server, and the steps of the platform other than those of workers.\<close>

inductive outside_step :: "process \<Rightarrow> process \<Rightarrow> bool" where
  signal_step: "pr_main s \<noteq> Exited \<Longrightarrow> outside_step s (s\<lparr>pr_done := True\<rparr>)"
| served_step: "pr_main s \<noteq> Exited \<Longrightarrow> outside_step s (serve_ended e s)"
| platform_step: "pr_main s \<noteq> Exited \<Longrightarrow> platform_step (pr_p s) p \<Longrightarrow> pl_workers p = pl_workers (pr_p s) \<Longrightarrow> outside_step s (s\<lparr>pr_p := p\<rparr>)"

text \<open>Runs, with the number of own steps and of steps from outside.\<close>

inductive process_steps :: "(bool \<Rightarrow> process \<Rightarrow> main_state option) \<Rightarrow> nat \<Rightarrow> nat \<Rightarrow> process \<Rightarrow> process \<Rightarrow> bool" for main_next where
  begin_run: "process_steps main_next 0 0 s s"
| own: "process_steps main_next a b s s' \<Longrightarrow> own_step main_next s' s'' \<Longrightarrow> process_steps main_next (Suc a) b s s''"
| outside: "process_steps main_next a b s s' \<Longrightarrow> outside_step s' s'' \<Longrightarrow> process_steps main_next a (Suc b) s s''"

section \<open>The work that is left\<close>

fun worker_weight :: "worker \<Rightarrow> nat" where
  "worker_weight Idle = 1"
| "worker_weight (Holding n) = 8"
| "worker_weight (Due n) = 7"
| "worker_weight (Admitted n) = 6"
| "worker_weight (Claimed n) = 5"
| "worker_weight (Chosen n p) = 4"
| "worker_weight (Answered n p r e) = 3"
| "worker_weight (Recorded n r e) = 2"

primrec main_weight :: "main_state \<Rightarrow> nat" where
  "main_weight Serving = 3"
| "main_weight Closing = 2"
| "main_weight Waiting = 1"
| "main_weight Exited = 0"

definition live_weight :: "bool list \<Rightarrow> worker list \<Rightarrow> nat" where
  "live_weight bs ws = sum_list (map2 (\<lambda>b w. if b then worker_weight w else 0) bs ws)"

definition queue_weight :: "Queue \<Rightarrow> nat" where
  "queue_weight q = 8 * size (waiting q) + (if q_wake q then 1 else 0)"

definition exit_work :: "process \<Rightarrow> nat" where
  "exit_work s = queue_weight (queue_of s) + live_weight (pr_live s) (pl_workers (pr_p s)) + main_weight (pr_main s)"

text \<open>What holds in every state of a process: one flag per worker, and a worker that has returned holds nothing.\<close>

definition process_inv :: "process \<Rightarrow> bool" where
  "process_inv s \<longleftrightarrow> queue_inv (queue_of s) \<and> length (pr_live s) = length (pl_workers (pr_p s)) \<and>
     (\<forall>i < length (pr_live s). \<not> pr_live s ! i \<longrightarrow> pl_workers (pr_p s) ! i = Idle)"

lemma live_weight_upd:
  assumes "length bs = length ws" "i < length bs"
  shows "live_weight (bs[i := b]) (ws[i := w]) + (if bs ! i then worker_weight (ws ! i) else 0) = live_weight bs ws + (if b then worker_weight w else 0)"
  using assms
proof (induction bs ws arbitrary: i rule: list_induct2)
  case (Cons x xs y ys)
  show ?case
  proof (cases i)
    case (Suc j)
    then show ?thesis using Cons.IH [of j] Cons.prems by (simp add: live_weight_def split del: if_split cong: if_cong)
  qed (simp add: live_weight_def)
qed simp

lemma worker_step_weight:
  assumes "worker_step (w, d) (w', d')"
  shows "(\<exists>n. w = Idle \<and> w' = Holding n \<and> Dequeue (d_Queue d) = (d_Queue d', Some n)) \<or>
    (worker_weight w' < worker_weight w \<and> d_Queue d' = d_Queue d)"
proof -
  have after: "worker_weight (after f out) < k" if "1 < k" "\<And>x. worker_weight (f x) < k" for f :: "'x \<Rightarrow> worker" and out k
    using that by (cases out) auto
  show ?thesis using assms
    by (cases rule: worker_step.cases) (auto simp: segments_queue intro!: after dest: segments_queue(1-5) split: prod.splits)
qed

lemma Dequeue_wake: "Dequeue q = (q', r) \<Longrightarrow> q_wake q' = q_wake q"
  by (auto simp: Dequeue_def queue_pop_def split: if_splits prod.splits option.splits)

lemma round_work:
  assumes "worker_step (w, d) (w', d')" "queue_inv (d_Queue d)"
  shows "queue_inv (d_Queue d')" "queue_weight (d_Queue d') + worker_weight w' < queue_weight (d_Queue d) + worker_weight w"
  using worker_step_weight [OF assms(1)] Dequeue_waiting [OF assms(2)] assms(2) Dequeue_wake [of "d_Queue d"]
  by (fastforce simp: queue_weight_def)+

lemma wait_work:
  assumes "queue_inv q" "Dequeue q = (q0, None)" "loop_wait e q0 = (q', go)"
  shows "queue_inv q'" "le_done e \<Longrightarrow> queue_weight q' + (if go then 1 else 0) < queue_weight q + 1"
proof -
  have q: "q0 = q" "waiting q = {#}" using assms(1,2) Dequeue_None_iff [OF assms(1)] Dequeue_empty [OF assms(1)] by auto
  show "queue_inv q'" "le_done e \<Longrightarrow> queue_weight q' + (if go then 1 else 0) < queue_weight q + 1"
    using assms(1,3) q
    by (auto simp: loop_wait_def loop_select_def queue_weight_def Queue_Wake_def queue_inv_def waiting_def queue_contents_def
        split: select_case.splits if_splits)
qed

lemma main_next_weight:
  "api_main_next timeout s = Some m \<Longrightarrow> main_weight m < main_weight (pr_main s)"
  "worker_main_next timeout s = Some m \<Longrightarrow> main_weight m < main_weight (pr_main s)"
  by (auto simp: api_main_next_def worker_main_next_def split: main_state.splits if_splits)

lemma Enqueue_work:
  assumes "queue_inv q"
  shows "queue_inv (fst (Enqueue now n q))" "queue_weight (fst (Enqueue now n q)) \<le> queue_weight q + 9"
proof -
  have "queue_inv (fst (Enqueue now n q)) \<and> queue_weight (fst (Enqueue now n q)) \<le> queue_weight q + 9"
    by (rule Enqueue_waiting [OF assms, of now n]) (simp_all add: queue_weight_def assms)
  then show "queue_inv (fst (Enqueue now n q))" "queue_weight (fst (Enqueue now n q)) \<le> queue_weight q + 9" by simp_all
qed

lemma platform_step_queue:
  assumes "platform_step p p'" "pl_workers p' = pl_workers p" "queue_inv (d_Queue (pl_d p))"
  shows "queue_inv (d_Queue (pl_d p')) \<and> queue_weight (d_Queue (pl_d p')) \<le> queue_weight (d_Queue (pl_d p)) + 9"
  using assms(1)
proof (cases rule: platform_step.cases)
  case (submit sum256 env n a m created err enq)
  then show ?thesis using Submit_create_effect [OF submit(2)] assms(3) by (simp add: with_app_def)
next
  case (work i w d)
  then have "w = pl_workers p ! i" using assms(2) by (metis nth_list_update_eq platform.select_convs(3) platform.surjective platform.update_convs(3))
  then show ?thesis using work(3) worker_step_weight by fastforce
qed (use assms(3) Enqueue_work in \<open>auto simp: with_app_def Cancel_def Pause_def transition_queue timer_fires_def update_store_effect\<close>)

section \<open>Every step keeps the invariant, and the program's own steps use up the work\<close>

lemma own_step_work:
  assumes "own_step main_next s s'" "process_inv s"
    and "\<And>timeout m. main_next timeout s = Some m \<Longrightarrow> main_weight m < main_weight (pr_main s)"
  shows "process_inv s' \<and> pr_done s' = pr_done s \<and> (pr_done s \<longrightarrow> exit_work s' < exit_work s)"
  using assms(1)
proof (cases rule: own_step.cases)
  case (round_step i w d)
  let ?ws = "pl_workers (pr_p s)"
  have I: "queue_inv (queue_of s)" "length (pr_live s) = length ?ws" using assms(2) by (simp_all add: process_inv_def)
  have "live_weight (pr_live s) (?ws[i := w]) + worker_weight (?ws ! i) = live_weight (pr_live s) ?ws + worker_weight w"
    using live_weight_upd [OF I(2) round_step(3), of True w] round_step(4) by (metis list_update_id)
  then show ?thesis
    using round_work [OF round_step(5) I(1)] assms(2) round_step(1,3,4) by (auto simp: process_inv_def exit_work_def nth_list_update)
next
  case (wait_step i q e q' go)
  let ?ws = "pl_workers (pr_p s)"
  have I: "queue_inv (queue_of s)" "length (pr_live s) = length ?ws" using assms(2) by (simp_all add: process_inv_def)
  have "?ws[i := Idle] = ?ws" using wait_step(5) by (metis list_update_id)
  then have "live_weight ((pr_live s)[i := go]) ?ws + 1 = live_weight (pr_live s) ?ws + (if go then 1 else 0)"
    using live_weight_upd [OF I(2) wait_step(3), of go Idle] wait_step(4,5) by simp
  then show ?thesis
    using wait_work [OF I(1) wait_step(6,8)] assms(2) wait_step(1,3,5,7) by (auto simp: process_inv_def exit_work_def nth_list_update)
next
  case (main_step timeout m)
  then show ?thesis using assms(2,3) by (auto simp: process_inv_def exit_work_def)
qed

lemma outside_step_work:
  assumes "outside_step s s'" "process_inv s"
  shows "process_inv s' \<and> (pr_done s \<longrightarrow> pr_done s') \<and> exit_work s' \<le> exit_work s + 9"
  using assms(1)
proof (cases rule: outside_step.cases)
  case (platform_step p)
  then show ?thesis
    using platform_step_queue [OF platform_step(3,4)] assms(2) by (auto simp: process_inv_def exit_work_def)
qed (use assms(2) in \<open>auto simp: process_inv_def exit_work_def serve_ended_def\<close>)

lemma process_steps_work:
  assumes "process_steps main_next a b s s'" "process_inv s"
    and "\<forall>timeout s m. main_next timeout s = Some m \<longrightarrow> main_weight m < main_weight (pr_main s)"
  shows "process_inv s' \<and> (pr_done s \<longrightarrow> pr_done s' \<and> a + exit_work s' \<le> exit_work s + 9 * b)"
  using assms(1,2)
proof (induction rule: process_steps.induct)
  case (own a b s s' s'')
  then show ?case using own_step_work [OF own(2)] assms(3) by fastforce
next
  case (outside a b s s' s'')
  then show ?case using outside_step_work [OF outside(2)] by fastforce
qed simp

lemma main_process_inv: "queue_inv (d_Queue (pl_d p)) \<Longrightarrow> process_inv (main_process p)"
  by (simp add: process_inv_def main_process_def)

text \<open>The API process does not block before it has exited, and it exits only with all loops returned.\<close>

lemma worker_moves:
  assumes "w \<noteq> Idle"
  shows "\<exists>s'. worker_step (w, d) s'"
proof (cases w)
  case (Holding n)
  then show ?thesis using worker_step.schedule_step by (metis prod.exhaust)
next
  case (Due n)
  then show ?thesis using worker_step.admit_step by (metis prod.exhaust)
next
  case (Admitted n)
  then show ?thesis using worker_step.claim_step by (metis prod.exhaust)
next
  case (Claimed n)
  then show ?thesis using worker_step.choose_step by (metis prod.exhaust)
next
  case (Chosen n p)
  then show ?thesis using worker_step.send_step by (metis prod.exhaust)
qed (use assms in \<open>auto intro: worker_step.intros\<close>)

lemma api_process_moves:
  assumes "process_inv s" "pr_done s" "pr_main s \<noteq> Exited"
  shows "\<exists>s'. own_step api_main_next s s'"
proof (cases "api_main_next False s")
  case (Some m)
  then show ?thesis using own_step.main_step by blast
next
  case None
  then have "\<exists>i < length (pr_live s). pr_live s ! i"
    using assms(2,3) by (cases "pr_main s") (auto simp: api_main_next_def Dispatcher_Wait_def filter_empty_conv in_set_conv_nth split: if_splits)
  then obtain i where i: "i < length (pr_live s)" "pr_live s ! i" by blast
  let ?w = "pl_workers (pr_p s) ! i" and ?d = "pl_d (pr_p s)"
  show ?thesis
  proof (cases "\<exists>w d. worker_step (?w, ?d) (w, d)")
    case True
    then show ?thesis using own_step.round_step [OF assms(3) i] by blast
  next
    case False
    then have "?w = Idle" using worker_moves [of ?w ?d] by auto
    moreover have "\<exists>q. Dequeue (queue_of s) = (q, None)"
      using False \<open>?w = Idle\<close> worker_step.take_step by (cases "Dequeue (queue_of s)"; cases "snd (Dequeue (queue_of s))") force+
    ultimately obtain q where q: "?w = Idle" "Dequeue (queue_of s) = (q, None)" by blast
    obtain q' go where W: "loop_wait \<lparr>le_deliver = undefined, le_done = pr_done s, le_pick = Woken\<rparr> q = (q', go)" by fastforce
    show ?thesis using own_step.wait_step [OF assms(3) i q _ W, where main_next = api_main_next] by auto
  qed
qed

text \<open>What is left of the program's own work, in terms of the queue and the workers.\<close>

lemma exit_work_bound:
  assumes "process_inv s"
  shows "exit_work s \<le> 8 * nat (Queue_Len (queue_of s)) + 8 * length (pl_workers (pr_p s)) + 4"
proof -
  have "live_weight bs ws \<le> 8 * length ws" if "length bs = length ws" for bs ws
    using that
  proof (induction bs ws rule: list_induct2)
    case (Cons b bs w ws)
    have "worker_weight w \<le> 8" by (cases w) simp_all
    then show ?case using Cons by (auto simp: live_weight_def)
  qed (simp add: live_weight_def)
  moreover have "main_weight (pr_main s) \<le> 3" by (cases "pr_main s") simp_all
  moreover have "queue_weight (queue_of s) \<le> 8 * nat (Queue_Len (queue_of s)) + 1" by (simp add: queue_weight_def Queue_Len_contents waiting_def)
  ultimately show ?thesis using assms by (fastforce simp: exit_work_def process_inv_def)
qed

lemma api_exits_idle:
  assumes "process_steps api_main_next a b s s'" "pr_main s = Exited \<longrightarrow> Dispatcher_Wait s"
  shows "pr_main s' = Exited \<longrightarrow> Dispatcher_Wait s'"
  using assms
proof (induction rule: process_steps.induct)
  case (own a b s s' s'')
  from own(2,1,3,4) show ?case
    by (cases rule: own_step.cases) (auto simp: api_main_next_def Dispatcher_Wait_def split: main_state.splits if_splits)
next
  case (outside a b s s' s'')
  from outside(2) show ?case by (cases rule: outside_step.cases) (auto simp: serve_ended_def)
qed simp

lemma waited_idle: "process_inv s \<Longrightarrow> Dispatcher_Wait s \<Longrightarrow> w \<in> set (pl_workers (pr_p s)) \<Longrightarrow> w = Idle"
  by (auto simp: process_inv_def Dispatcher_Wait_def filter_empty_conv in_set_conv_nth)

section \<open>The end of the programs\<close>

text \<open>C7: The API process ends, and no delivery is cut off.  Once the context is done, however workers, \<open>main\<close>, requests, receipts and
  timers interleave, the process takes at most 8 steps per waiting notification and worker, 4 more, and 9 for every step from outside
  (each enqueues at most one notification); as long as \<open>main\<close> has not returned some step of the process
  is possible; and when it returns every worker is idle, so nothing is left claimed.\<close>

theorem api_process_ends:
  assumes "queue_inv (d_Queue (pl_d p))" "process_steps api_main_next a0 b0 (main_process p) s" "pr_done s" "process_steps api_main_next a b s s'"
  shows "a \<le> 8 * nat (Queue_Len (queue_of s)) + 8 * length (pl_workers (pr_p s)) + 4 + 9 * b \<and>
    (if pr_main s' = Exited then \<forall>w \<in> set (pl_workers (pr_p s')). w = Idle else \<exists>s''. own_step api_main_next s' s'')"
proof -
  have down: "\<forall>timeout s m. api_main_next timeout s = Some m \<longrightarrow> main_weight m < main_weight (pr_main s)" by (simp add: main_next_weight)
  have I: "process_inv s" using process_steps_work [OF assms(2) main_process_inv [OF assms(1)] down] by simp
  have W: "process_inv s'" "pr_done s'" "a + exit_work s' \<le> exit_work s + 9 * b" using process_steps_work [OF assms(4) I down] assms(3) by simp_all
  have bound: "a \<le> 8 * nat (Queue_Len (queue_of s)) + 8 * length (pl_workers (pr_p s)) + 4 + 9 * b" using W(3) exit_work_bound [OF I] by simp
  have "pr_main s = Exited \<longrightarrow> Dispatcher_Wait s" by (rule api_exits_idle [OF assms(2)]) (simp add: main_process_def)
  then have E: "pr_main s' = Exited \<longrightarrow> Dispatcher_Wait s'" by (rule api_exits_idle [OF assms(4)])
  show ?thesis
  proof (cases "pr_main s' = Exited")
    case True
    then show ?thesis using bound waited_idle [OF W(1) E [rule_format, OF True]] by simp
  next
    case False
    then show ?thesis using bound api_process_moves [OF W(1,2) False] by simp
  qed
qed

text \<open>
  The other program gives its workers only \<open>ShutdownTimeout\<close>: from every state with the context done it can end at once, whatever its workers hold.  A
  notification that is claimed then stays in processing, and no later start takes it up.
\<close>

lemma worker_process_abandons:
  assumes "pr_done s" "pr_main s = Serving"
  shows "process_steps worker_main_next 2 0 s (s\<lparr>pr_main := Exited\<rparr>)"
proof -
  let ?s = "s\<lparr>pr_main := Waiting\<rparr>"
  note N = own_step.main_step [where main_next = worker_main_next and timeout = True]
  have "own_step worker_main_next s ?s" by (rule N) (simp add: assms worker_main_next_def)
  moreover have "own_step worker_main_next ?s (?s\<lparr>pr_main := Exited\<rparr>)" by (rule N) (simp add: worker_main_next_def)
  ultimately have "process_steps worker_main_next (Suc (Suc 0)) 0 s (?s\<lparr>pr_main := Exited\<rparr>)" by (meson process_steps.begin_run process_steps.own)
  then show ?thesis by (simp add: numeral_2_eq_2)
qed

section \<open>Samples\<close>

text \<open>One worker and an empty queue: the signal, then \<open>main\<close> goes on, the worker returns, \<open>main\<close> returns.\<close>

definition quiet_platform :: platform where
  "quiet_platform = Dispatcher_Run (sample_dispatcher\<lparr>d_Queue := Queue_New 10, d_Concurrency := 1\<rparr>)"

definition quiet_end :: "bool list \<Rightarrow> main_state \<Rightarrow> process" where
  "quiet_end live m = \<lparr>pr_p = quiet_platform, pr_live = live, pr_done = True, pr_main = m\<rparr>"

lemma quiet_parts: "queue_inv (d_Queue (pl_d quiet_platform))" "pl_workers quiet_platform = [Idle]" "d_Queue (pl_d quiet_platform) = Queue_New 10"
  using queue_inv_New [of 10] by (simp_all add: quiet_platform_def Dispatcher_Run_def)

lemma quiet_run:
  "process_steps api_main_next 0 1 (main_process quiet_platform) (quiet_end [True] Serving)"
  "process_steps api_main_next 4 0 (quiet_end [True] Serving) (quiet_end [False] Exited)"
proof -
  have "outside_step (main_process quiet_platform) (main_process quiet_platform\<lparr>pr_done := True\<rparr>)"
    by (rule outside_step.signal_step) (simp add: main_process_def)
  then show "process_steps api_main_next 0 1 (main_process quiet_platform) (quiet_end [True] Serving)"
    using process_steps.outside [OF process_steps.begin_run] by (simp add: main_process_def quiet_end_def quiet_parts)
  have main: "own_step api_main_next (quiet_end live m) (quiet_end live m')" if "api_main_next False (quiet_end live m) = Some m'" for live m m'
    using own_step.main_step [where main_next = api_main_next, OF that] by (simp add: quiet_end_def)
  have Q: "Dequeue (Queue_New 10) = (Queue_New 10, None)" "loop_wait ending_env (Queue_New 10) = (Queue_New 10, False)" "le_done ending_env"
    by (simp_all add: ending_env_def loop_wait_def loop_select_def Dequeue_def queue_pop_def Queue_New_def)
  have B: "quiet_platform\<lparr>pl_d := (pl_d quiet_platform)\<lparr>d_Queue := Queue_New 10\<rparr>\<rparr> = quiet_platform" by (simp add: quiet_platform_def Dispatcher_Run_def)
  have "own_step api_main_next (quiet_end [True] Waiting) (quiet_end [False] Waiting)"
    using own_step.wait_step [where main_next = api_main_next and s = "quiet_end [True] Waiting" and i = 0 and q = "Queue_New 10"
        and e = ending_env and q' = "Queue_New 10" and go = False]
    by (simp add: quiet_end_def quiet_parts Q B)
  moreover have "own_step api_main_next (quiet_end [True] Serving) (quiet_end [True] Closing)"
    "own_step api_main_next (quiet_end [True] Closing) (quiet_end [True] Waiting)" "own_step api_main_next (quiet_end [False] Waiting) (quiet_end [False] Exited)"
    by (rule main; simp add: api_main_next_def quiet_end_def Dispatcher_Wait_def)+
  ultimately have "process_steps api_main_next (Suc (Suc (Suc (Suc 0)))) 0 (quiet_end [True] Serving) (quiet_end [False] Exited)"
    by (meson process_steps.begin_run process_steps.own)
  then show "process_steps api_main_next 4 0 (quiet_end [True] Serving) (quiet_end [False] Exited)" by (simp add: numeral_eq_Suc)
qed

theorem api_process_ends_witness: "4 \<le> 8 * nat (Queue_Len (queue_of (quiet_end [True] Serving))) + 12 \<and> list_all (\<lambda>w. w = Idle) (pl_workers (pr_p (quiet_end [False] Exited)))"
proof -
  have "pr_done (quiet_end [True] Serving)" by (simp add: quiet_end_def)
  from api_process_ends [OF quiet_parts(1) quiet_run(1) this quiet_run(2)] show ?thesis by (simp add: quiet_end_def list_all_iff)
qed

end
