(* ===== verification/Logging.thy ===== *)
theory Logging
  imports Go_Prelude
begin

text \<open>
  The file \<open>internal/observability/logger.go\<close>: the logger of the programs writes records of level Info and above, and its \<open>ReplaceAttr\<close>
  cuts the time of a record to milliseconds.  Of \<open>log/slog\<close> the model has the attributes a handler passes through
  \<open>ReplaceAttr\<close> (its own time, level and message, then those of the call) and the panic of \<open>Value.Time\<close> on a value of another kind, which
  is \<open>None\<close>; the JSON text is not modelled.  A time is in UTC already.
\<close>

datatype log_value = TimeValue time | StringValue string | IntValue int | AnyValue go_error

record Attr =
  attr_Key :: string
  attr_Value :: log_value

definition TimeKey :: string where
  "TimeKey = ''time''"

definition LevelInfo :: int where
  "LevelInfo = 0"

definition Truncate :: "duration \<Rightarrow> time \<Rightarrow> time" where
  "Truncate d t = (if d \<le> 0 then t else t - t mod d)"

definition ReplaceAttr :: "Attr \<Rightarrow> Attr option" where
  "ReplaceAttr a =
     (if attr_Key a = TimeKey
      then (case attr_Value a of
              TimeValue t \<Rightarrow> Some (a\<lparr>attr_Value := TimeValue (Truncate millisecond t)\<rparr>)
            | _ \<Rightarrow> None)
      else Some a)"

text \<open>What one call of the logger writes: nothing below its level.\<close>

definition Logger :: "int \<Rightarrow> time \<Rightarrow> string \<Rightarrow> Attr list \<Rightarrow> Attr list option" where
  "Logger level now msg attrs =
     (if level < LevelInfo then Some []
      else those (map ReplaceAttr
        (\<lparr>attr_Key = TimeKey, attr_Value = TimeValue now\<rparr> # \<lparr>attr_Key = ''level'', attr_Value = IntValue level\<rparr> #
         \<lparr>attr_Key = ''msg'', attr_Value = StringValue msg\<rparr> # attrs)))"

lemma Truncate_millisecond:
  "Truncate millisecond t \<le> t" "t < Truncate millisecond t + millisecond" "Truncate millisecond t mod millisecond = 0"
  "Truncate millisecond (Truncate millisecond t) = Truncate millisecond t"
  by (simp_all add: Truncate_def millisecond_def mod_diff_eq [symmetric])

text \<open>A call whose attributes do not take the key of the time, as all calls of the programs do, is written with its attributes as they are.\<close>

lemma Logger_writes:
  assumes "LevelInfo \<le> level" "\<forall>a \<in> set attrs. attr_Key a \<noteq> TimeKey"
  shows "Logger level now msg attrs =
    Some (\<lparr>attr_Key = TimeKey, attr_Value = TimeValue (Truncate millisecond now)\<rparr> # \<lparr>attr_Key = ''level'', attr_Value = IntValue level\<rparr> #
          \<lparr>attr_Key = ''msg'', attr_Value = StringValue msg\<rparr> # attrs)"
proof -
  have "those (map ReplaceAttr attrs) = Some attrs" using assms(2) by (induction attrs) (simp_all add: ReplaceAttr_def)
  then show ?thesis using assms(1) by (simp add: Logger_def ReplaceAttr_def TimeKey_def)
qed

text \<open>A call that uses the key of the time for another kind of value panics.\<close>

lemma Logger_panics: "LevelInfo \<le> level \<Longrightarrow> Logger level now msg [\<lparr>attr_Key = ''time'', attr_Value = StringValue s\<rparr>] = None"
  by (simp add: Logger_def ReplaceAttr_def TimeKey_def)

end
