(* ===== verification/Config_Loader.thy ===== *)
theory Config_Loader
  imports Go_Strconv
begin

text \<open>
  The package \<open>internal/config\<close>: defaults, a file of \<open>key: value\<close> lines, environment variables on top, and the
  final check.  Reading the file and looking up the environment are arguments.  Values that do not parse are
  taken as the value that comes with the parser's error.
\<close>

record Config =
  cfg_HTTPAddr :: string
  cfg_DataFile :: string
  cfg_WebhookSecret :: string
  cfg_WorkerConcurrency :: int
  cfg_QueueCapacity :: int
  cfg_ProviderTimeout :: duration
  cfg_MaxAttempts :: int
  cfg_ShutdownTimeout :: duration

definition default_Config :: Config where
  "default_Config = \<lparr>cfg_HTTPAddr = '':8080'', cfg_DataFile = ''data/store.json'', cfg_WebhookSecret = [], cfg_WorkerConcurrency = 4,
     cfg_QueueCapacity = 10000, cfg_ProviderTimeout = 3 * second, cfg_MaxAttempts = 5, cfg_ShutdownTimeout = 10 * second\<rparr>"

definition config_apply :: "string \<Rightarrow> string \<Rightarrow> Config \<Rightarrow> Config" where
  "config_apply k v c =
     (if k = ''http_addr'' then c\<lparr>cfg_HTTPAddr := v\<rparr>
      else if k = ''data_file'' then c\<lparr>cfg_DataFile := v\<rparr>
      else if k = ''webhook_secret'' then c\<lparr>cfg_WebhookSecret := v\<rparr>
      else if k = ''worker_concurrency'' then c\<lparr>cfg_WorkerConcurrency := fst (Atoi v)\<rparr>
      else if k = ''queue_capacity'' then c\<lparr>cfg_QueueCapacity := fst (Atoi v)\<rparr>
      else if k = ''max_attempts'' then c\<lparr>cfg_MaxAttempts := fst (Atoi v)\<rparr>
      else if k = ''provider_timeout'' then c\<lparr>cfg_ProviderTimeout := fst (ParseDuration v)\<rparr>
      else if k = ''shutdown_timeout'' then c\<lparr>cfg_ShutdownTimeout := fst (ParseDuration v)\<rparr>
      else c)"

definition quotes :: "char set" where
  "quotes = {CHR 0x22, CHR 0x27}"

definition apply_line :: "string \<Rightarrow> Config \<Rightarrow> Config" where
  "apply_line line c =
     (case SplitN_2 (CHR '':'') (TrimSpace line) of
        [k, v] \<Rightarrow> config_apply (TrimSpace k) (strings_Trim quotes (TrimSpace v)) c
      | _ \<Rightarrow> c)"

definition env_keys :: "(string \<times> string) list" where
  "env_keys = [(''NOTIFY_HTTP_ADDR'', ''http_addr''), (''NOTIFY_DATA_FILE'', ''data_file''), (''NOTIFY_WEBHOOK_SECRET'', ''webhook_secret''),
     (''NOTIFY_WORKER_CONCURRENCY'', ''worker_concurrency''), (''NOTIFY_QUEUE_CAPACITY'', ''queue_capacity''),
     (''NOTIFY_PROVIDER_TIMEOUT'', ''provider_timeout''), (''NOTIFY_MAX_ATTEMPTS'', ''max_attempts'')]"

definition apply_env :: "(string \<rightharpoonup> string) \<Rightarrow> string \<times> string \<Rightarrow> Config \<Rightarrow> Config" where
  "apply_env getenv x c = (case getenv (fst x) of None \<Rightarrow> c | Some v \<Rightarrow> config_apply (snd x) v c)"

definition load_checked :: "(string \<rightharpoonup> string) \<Rightarrow> Config \<Rightarrow> Config \<times> go_error option" where
  "load_checked getenv c =
     (let c = fold (apply_env getenv) env_keys c in
      if cfg_WorkerConcurrency c < 1 \<or> cfg_QueueCapacity c < 1 \<or> cfg_MaxAttempts c < 1
      then (c, Some ''numeric configuration must be positive'') else (c, None))"

definition Load :: "(string \<Rightarrow> go_error + string) \<Rightarrow> (string \<rightharpoonup> string) \<Rightarrow> string \<Rightarrow> Config \<times> go_error option" where
  "Load readFile getenv path =
     (if path = [] then load_checked getenv default_Config
      else case readFile path of
        Inl e \<Rightarrow> (default_Config, Some e)
      | Inr b \<Rightarrow> load_checked getenv (fold apply_line (strings_Split (CHR 0x0A) b) default_Config))"

section \<open>Ranges\<close>

definition config_ints :: "Config \<Rightarrow> bool" where
  "config_ints c \<longleftrightarrow> in_i64 (cfg_WorkerConcurrency c) \<and> in_i64 (cfg_QueueCapacity c) \<and> in_i64 (cfg_MaxAttempts c)"

lemma config_apply_ints: "config_ints c \<Longrightarrow> config_ints (config_apply k v c)"
  by (simp add: config_apply_def config_ints_def Atoi_in_i64)

lemma fold_ints: "(\<And>x c. config_ints c \<Longrightarrow> config_ints (f x c)) \<Longrightarrow> config_ints c \<Longrightarrow> config_ints (fold f xs c)"
  by (induction xs arbitrary: c) auto

lemma apply_line_ints: "config_ints c \<Longrightarrow> config_ints (apply_line l c)"
  by (auto simp: apply_line_def config_apply_ints split: list.splits)

lemma apply_env_ints: "config_ints c \<Longrightarrow> config_ints (apply_env getenv x c)"
  by (auto simp: apply_env_def config_apply_ints split: option.splits)

lemma Load_ok:
  assumes "Load readFile getenv path = (c, None)"
  shows "1 \<le> cfg_WorkerConcurrency c" "1 \<le> cfg_QueueCapacity c" "1 \<le> cfg_MaxAttempts c" "cfg_MaxAttempts c < 2 ^ 63"
proof -
  obtain c0 where c0: "load_checked getenv c0 = (c, None)" "config_ints c0"
  proof (cases "path = []")
    case True
    then show ?thesis using that [of default_Config] assms by (simp add: Load_def config_ints_def default_Config_def in_i64_def)
  next
    case False
    then obtain b where "readFile path = Inr b" using assms by (auto simp: Load_def split: sum.splits)
    moreover have "config_ints (fold apply_line (strings_Split (CHR 0x0A) b) default_Config)"
      by (intro fold_ints apply_line_ints) (simp_all add: config_ints_def default_Config_def in_i64_def)
    ultimately show ?thesis using that assms False by (simp add: Load_def)
  qed
  have "c = fold (apply_env getenv) env_keys c0" using c0(1) by (auto simp: load_checked_def Let_def split: if_splits)
  then have "config_ints c" using c0(2) by (simp add: fold_ints apply_env_ints)
  then show "cfg_MaxAttempts c < 2 ^ 63" by (simp add: config_ints_def in_i64_def)
  show "1 \<le> cfg_WorkerConcurrency c" "1 \<le> cfg_QueueCapacity c" "1 \<le> cfg_MaxAttempts c"
    using c0(1) by (auto simp: load_checked_def Let_def split: if_splits)
qed

section \<open>Writing a configuration file\<close>

text \<open>A file with one line per setting, texts in quotes and durations in nanoseconds.\<close>

definition quoted :: "string \<Rightarrow> string" where
  "quoted v = CHR 0x22 # v @ [CHR 0x22]"

definition config_entries :: "Config \<Rightarrow> (string \<times> string) list" where
  "config_entries c =
     [(''http_addr'', quoted (cfg_HTTPAddr c)), (''data_file'', quoted (cfg_DataFile c)), (''webhook_secret'', quoted (cfg_WebhookSecret c)),
      (''worker_concurrency'', fmt_d (cfg_WorkerConcurrency c)), (''queue_capacity'', fmt_d (cfg_QueueCapacity c)),
      (''provider_timeout'', fmt_d (cfg_ProviderTimeout c) @ ''ns''), (''max_attempts'', fmt_d (cfg_MaxAttempts c)),
      (''shutdown_timeout'', fmt_d (cfg_ShutdownTimeout c) @ ''ns'')]"

definition entry_line :: "string \<times> string \<Rightarrow> string" where
  "entry_line e = fst e @ '': '' @ snd e"

definition config_file :: "Config \<Rightarrow> string" where
  "config_file c = concat (map (\<lambda>e. entry_line e @ [CHR 0x0A]) (config_entries c))"

text \<open>Texts that fit into one quoted line, and settings in their ranges.\<close>

definition plain_text :: "string \<Rightarrow> bool" where
  "plain_text v \<longleftrightarrow> CHR 0x0A \<notin> set v \<and> (v = [] \<or> hd v \<notin> quotes \<and> last v \<notin> quotes)"

definition writable :: "Config \<Rightarrow> bool" where
  "writable c \<longleftrightarrow> plain_text (cfg_HTTPAddr c) \<and> plain_text (cfg_DataFile c) \<and> plain_text (cfg_WebhookSecret c) \<and>
     1 \<le> cfg_WorkerConcurrency c \<and> 1 \<le> cfg_QueueCapacity c \<and> 1 \<le> cfg_MaxAttempts c \<and> config_ints c \<and>
     0 \<le> cfg_ProviderTimeout c \<and> cfg_ProviderTimeout c < 2 ^ 63 \<and> 0 \<le> cfg_ShutdownTimeout c \<and> cfg_ShutdownTimeout c < 2 ^ 63"

lemma trim_ends:
  assumes "w \<noteq> []" "\<not> P (hd w)" "\<not> P (last w)"
  shows "rev (dropWhile P (rev (dropWhile P w))) = w"
proof -
  have "dropWhile P w = w" using assms by (cases w) auto
  moreover have "dropWhile P (rev w) = rev w" using assms by (cases "rev w") (auto simp: last_rev hd_rev)
  ultimately show ?thesis by simp
qed

text \<open>A value as it stands in a line: no space at its ends.\<close>

definition tight :: "string \<Rightarrow> bool" where
  "tight w \<longleftrightarrow> w \<noteq> [] \<and> \<not> is_space (hd w) \<and> \<not> is_space (last w)"

lemma TrimSpace_tight: "tight w \<Longrightarrow> TrimSpace w = w" "tight w \<Longrightarrow> TrimSpace (CHR '' '' # w) = w"
  using trim_ends [of w is_space] by (simp_all add: tight_def TrimSpace_def is_space_def)

lemma apply_line_entry:
  assumes "tight k" "tight w" "CHR '':'' \<notin> set k"
  shows "apply_line (entry_line (k, w)) c = config_apply k (strings_Trim quotes w) c"
proof -
  have "tight (k @ '': '' @ w)" using assms(1,2) by (simp add: tight_def)
  then have "SplitN_2 (CHR '':'') (TrimSpace (entry_line (k, w))) = [k, CHR '' '' # w]"
    using SplitN_2_sep [OF assms(3)] by (simp add: TrimSpace_tight entry_line_def)
  then show ?thesis using assms(1,2) by (simp add: apply_line_def TrimSpace_tight)
qed

lemma strings_Trim_quoted: "plain_text v \<Longrightarrow> strings_Trim quotes (quoted v) = v"
proof (cases "v = []")
  case True
  then show ?thesis by (simp add: strings_Trim_def quoted_def quotes_def)
next
  case False
  assume "plain_text v"
  with False have e: "hd v \<notin> quotes" "last v \<notin> quotes" by (simp_all add: plain_text_def)
  have "dropWhile (\<lambda>c. c \<in> quotes) (quoted v) = v @ [CHR 0x22]"
    using False e(1) by (cases v) (auto simp: quoted_def quotes_def)
  moreover have "dropWhile (\<lambda>c. c \<in> quotes) (CHR 0x22 # rev v) = rev v"
    using False e(2) by (cases "rev v") (auto simp: quotes_def hd_rev [symmetric])
  ultimately show ?thesis by (simp add: strings_Trim_def)
qed

lemma strings_Trim_plain: "w \<noteq> [] \<Longrightarrow> hd w \<notin> quotes \<Longrightarrow> last w \<notin> quotes \<Longrightarrow> strings_Trim quotes w = w"
  using trim_ends [of w "\<lambda>c. c \<in> quotes"] by (simp add: strings_Trim_def)

lemma fmt_d_digits: "0 \<le> n \<Longrightarrow> list_all is_digit (fmt_d n) \<and> fmt_d n \<noteq> []"
  using prepend_digits_digits [of "[]" n] prepend_digits_pos [of n] by (auto simp: fmt_d_def is_digit_def)

lemma digit_not: "is_digit c \<Longrightarrow> c \<notin> quotes \<and> \<not> is_space c \<and> c \<noteq> CHR 0x0A"
  by (auto simp: is_digit_def quotes_def is_space_def)

lemma fmt_d_value:
  assumes "0 \<le> n"
  shows "tight (fmt_d n)" "strings_Trim quotes (fmt_d n) = fmt_d n" "tight (fmt_d n @ ''ns'')" "strings_Trim quotes (fmt_d n @ ''ns'') = fmt_d n @ ''ns''"
    "CHR 0x0A \<notin> set (fmt_d n)"
proof -
  have D: "list_all is_digit (fmt_d n)" "fmt_d n \<noteq> []" using fmt_d_digits [OF assms] by simp_all
  then have "is_digit (hd (fmt_d n))" "is_digit (last (fmt_d n))" by (simp_all add: list_all_iff)
  then have E: "hd (fmt_d n) \<notin> quotes" "\<not> is_space (hd (fmt_d n))" "last (fmt_d n) \<notin> quotes" "\<not> is_space (last (fmt_d n))"
    using digit_not by blast+
  show "tight (fmt_d n)" "tight (fmt_d n @ ''ns'')" using D E by (simp_all add: tight_def is_space_def)
  show "strings_Trim quotes (fmt_d n) = fmt_d n" using D E by (simp add: strings_Trim_plain)
  show "strings_Trim quotes (fmt_d n @ ''ns'') = fmt_d n @ ''ns''" using D E by (intro strings_Trim_plain) (simp_all add: quotes_def)
  show "CHR 0x0A \<notin> set (fmt_d n)" using D digit_not by (auto simp: list_all_iff)
qed

lemma quoted_value: "tight (quoted v)" "plain_text v \<Longrightarrow> CHR 0x0A \<notin> set (quoted v)"
  by (simp_all add: tight_def quoted_def is_space_def plain_text_def)

lemma Split_lines: "(\<forall>l \<in> set ls. CHR 0x0A \<notin> set l) \<Longrightarrow> strings_Split (CHR 0x0A) (concat (map (\<lambda>l. l @ [CHR 0x0A]) ls)) = ls @ [[]]"
  by (induction ls) (simp_all add: strings_Split_sep)

text \<open>C20: A configuration whose texts fit into a quoted line and whose numbers are positive and in range can be written as a file
  that is loaded back as it was, when the environment sets nothing; and a configuration that is loaded without
  error has positive numbers, whatever the file and the environment contain.\<close>

theorem Load_roundtrip:
  assumes "writable c" "path \<noteq> []" "readFile path = Inr (config_file c)"
  shows "Load readFile Map.empty path = (c, None) \<and>
    (\<forall>readFile getenv path d. Load readFile getenv path = (d, None) \<longrightarrow>
       1 \<le> cfg_WorkerConcurrency d \<and> 1 \<le> cfg_QueueCapacity d \<and> 1 \<le> cfg_MaxAttempts d \<and> cfg_MaxAttempts d < 2 ^ 63)"
proof -
  have ints: "1 \<le> cfg_WorkerConcurrency c" "1 \<le> cfg_QueueCapacity c" "1 \<le> cfg_MaxAttempts c" "config_ints c"
    and durs: "0 \<le> cfg_ProviderTimeout c" "cfg_ProviderTimeout c < 2 ^ 63" "0 \<le> cfg_ShutdownTimeout c" "cfg_ShutdownTimeout c < 2 ^ 63"
    and texts: "plain_text (cfg_HTTPAddr c)" "plain_text (cfg_DataFile c)" "plain_text (cfg_WebhookSecret c)"
    using assms(1) by (simp_all add: writable_def)
  then have nn: "0 \<le> cfg_WorkerConcurrency c" "0 \<le> cfg_QueueCapacity c" "0 \<le> cfg_MaxAttempts c" by simp_all
  note V = fmt_d_value [OF nn(1)] fmt_d_value [OF nn(2)] fmt_d_value [OF nn(3)] fmt_d_value [OF durs(1)] fmt_d_value [OF durs(3)]
  have "\<forall>l \<in> set (map entry_line (config_entries c)). CHR 0x0A \<notin> set l"
    using V quoted_value(2) [OF texts(1)] quoted_value(2) [OF texts(2)] quoted_value(2) [OF texts(3)] by (simp add: config_entries_def entry_line_def)
  from Split_lines [OF this] have lines: "strings_Split (CHR 0x0A) (config_file c) = map entry_line (config_entries c) @ [[]]"
    by (simp add: config_file_def comp_def)
  have keys: "tight ''http_addr''" "tight ''data_file''" "tight ''webhook_secret''" "tight ''worker_concurrency''" "tight ''queue_capacity''"
    "tight ''provider_timeout''" "tight ''max_attempts''" "tight ''shutdown_timeout''" by (simp_all add: tight_def is_space_def)
  have empty: "apply_line [] d = d" for d by (simp add: apply_line_def TrimSpace_def SplitN_2_def)
  have "fold apply_line (map entry_line (config_entries c) @ [[]]) default_Config = c"
    using V ints(4) durs texts keys
    by (simp add: config_entries_def empty apply_line_entry quoted_value(1) strings_Trim_quoted config_apply_def Atoi_fmt_d ParseDuration_ns config_ints_def
        default_Config_def)
  then have "Load readFile Map.empty path = (c, None)"
    using assms(2,3) ints by (simp add: Load_def lines load_checked_def env_keys_def apply_env_def)
  then show ?thesis using Load_ok by blast
qed

theorem Load_roundtrip_witness:
  "Load (\<lambda>_. Inr (config_file default_Config)) Map.empty ''configs/app.yaml'' = (default_Config, None)"
proof -
  have "writable default_Config"
    by (simp add: writable_def plain_text_def default_Config_def quotes_def config_ints_def in_i64_def second_def)
  from Load_roundtrip [OF this, of "''configs/app.yaml''" "\<lambda>_. Inr (config_file default_Config)"] show ?thesis by simp
qed

text \<open>A timeout that does not parse is taken as zero: every call of a provider then ends at once.\<close>

lemma Load_bad_timeout:
  "cfg_ProviderTimeout (fst (Load readFile [''NOTIFY_PROVIDER_TIMEOUT'' \<mapsto> ''3''] [])) = 0"
proof -
  have "parse_term ''3'' = None" by (simp add: parse_term_def parse_fraction_def is_digit_def digit_value_def Let_def)
  then have "ParseDuration ''3'' = (0, False)" by (simp add: ParseDuration_def parse_terms.simps [of 0 "''3''"])
  then show ?thesis by (simp add: Load_def load_checked_def env_keys_def apply_env_def config_apply_def Let_def)
qed

end
