(* ===== verification/Metrics.thy ===== *)
theory Metrics
  imports Go_Prelude
begin

text \<open>
  The package \<open>internal/observability\<close>: counters of 64 unsigned bits, histograms with a bounded list of samples, and the registry
  that hands out pointers to them by name.  The registry keeps the cells its pointers refer to, so that two
  callers of the same name share a cell.  The in-place insertion sort is modelled loop by loop and shown to be
  the sort of the library; the quantiles of a snapshot are shown to have their rank.  The registry refines a
  map from names to totals.
\<close>

section \<open>Counters and histograms\<close>

record Counter =
  ct_value :: "64 word"

definition Counter_Inc :: "Counter \<Rightarrow> Counter" where
  "Counter_Inc c = c\<lparr>ct_value := ct_value c + 1\<rparr>"

definition Counter_Add :: "64 word \<Rightarrow> Counter \<Rightarrow> Counter" where
  "Counter_Add n c = c\<lparr>ct_value := ct_value c + n\<rparr>"

definition Counter_Value :: "Counter \<Rightarrow> 64 word" where
  "Counter_Value c = ct_value c"

record Histogram =
  hg_samples :: "duration list"

definition Observe :: "duration \<Rightarrow> Histogram \<Rightarrow> Histogram" where
  "Observe d h =
     (let n = length (hg_samples h) in
      if n < 10000 then h\<lparr>hg_samples := hg_samples h @ [d]\<rparr>
      else h\<lparr>hg_samples := (hg_samples h)[n mod 10000 := d]\<rparr>)"

text \<open>The inner loop moves \<open>v[j]\<close> down, the outer loop runs over the positions.\<close>

fun sink :: "duration list \<Rightarrow> nat \<Rightarrow> duration list" where
  "sink v 0 = v"
| "sink v (Suc j) = (if v ! Suc j < v ! j then sink (v[Suc j := v ! j, j := v ! Suc j]) j else v)"

lemma length_sink [simp]: "length (sink v j) = length v"
  by (induction v j rule: sink.induct) auto

function sort_from :: "nat \<Rightarrow> duration list \<Rightarrow> duration list" where
  "sort_from i v = (if i < length v then sort_from (Suc i) (sink v i) else v)"
  by pat_completeness auto
termination
  by (relation "measure (\<lambda>(i, v). length v - i)") auto

declare sort_from.simps [simp del]

definition sortDurations :: "duration list \<Rightarrow> duration list" where
  "sortDurations v = sort_from 1 v"

definition Histogram_Snapshot :: "Histogram \<Rightarrow> string \<rightharpoonup> duration" where
  "Histogram_Snapshot h =
     (if hg_samples h = [] then Map.empty
      else let s = sortDurations (hg_samples h); n = length s
           in [''p50'' \<mapsto> s ! (n div 2), ''p95'' \<mapsto> s ! (n * 95 div 100), ''p99'' \<mapsto> s ! (n * 99 div 100)])"

section \<open>The registry\<close>

record MetricsRegistry =
  mr_counters :: "string \<rightharpoonup> nat"
  mr_histograms :: "string \<rightharpoonup> nat"
  mr_cells :: "Counter list"
  mr_hists :: "Histogram list"

definition Metrics_NewRegistry :: MetricsRegistry where
  "Metrics_NewRegistry = \<lparr>mr_counters = Map.empty, mr_histograms = Map.empty, mr_cells = [], mr_hists = []\<rparr>"

definition Registry_Counter :: "string \<Rightarrow> MetricsRegistry \<Rightarrow> MetricsRegistry \<times> nat" where
  "Registry_Counter name r =
     (case mr_counters r name of
        Some p \<Rightarrow> (r, p)
      | None \<Rightarrow>
          let p = length (mr_cells r)
          in (r\<lparr>mr_counters := (mr_counters r)(name \<mapsto> p), mr_cells := mr_cells r @ [\<lparr>ct_value = 0\<rparr>]\<rparr>, p))"

definition Registry_Histogram :: "string \<Rightarrow> MetricsRegistry \<Rightarrow> MetricsRegistry \<times> nat" where
  "Registry_Histogram name r =
     (case mr_histograms r name of
        Some p \<Rightarrow> (r, p)
      | None \<Rightarrow>
          let p = length (mr_hists r)
          in (r\<lparr>mr_histograms := (mr_histograms r)(name \<mapsto> p), mr_hists := mr_hists r @ [\<lparr>hg_samples = []\<rparr>]\<rparr>, p))"

text \<open>A method call on the counter a pointer refers to.\<close>

definition at_counter :: "nat \<Rightarrow> (Counter \<Rightarrow> Counter) \<Rightarrow> MetricsRegistry \<Rightarrow> MetricsRegistry" where
  "at_counter p f r = r\<lparr>mr_cells := (mr_cells r)[p := f (mr_cells r ! p)]\<rparr>"

text \<open>\<^verbatim>\<open>fmt.Sprintf("notification_%s %d\n", n, c.Value())\<close> for every counter, in the order \<open>ks\<close> of the iteration.\<close>

definition metric_line :: "string \<Rightarrow> 64 word \<Rightarrow> string" where
  "metric_line n v = ''notification_'' @ n @ '' '' @ fmt_d (uint v) @ [CHR 0x0A]"

definition Prometheus :: "string list \<Rightarrow> MetricsRegistry \<Rightarrow> string" where
  "Prometheus ks r =
     concat (map (\<lambda>n. case mr_counters r n of None \<Rightarrow> [] | Some p \<Rightarrow> metric_line n (Counter_Value (mr_cells r ! p))) ks)"

section \<open>Sorting and quantiles\<close>

lemma insort_above: "x < y \<Longrightarrow> sorted (xs @ [y]) \<Longrightarrow> insort x (xs @ [y]) = insort (x :: int) xs @ [y]"
  by (induction xs) auto

lemma insort_end: "sorted (xs @ [x]) \<Longrightarrow> insort (x :: int) xs = xs @ [x]"
  by (induction xs) (auto simp: insort_is_Cons)

lemma sink_insort:
  "i < length v \<Longrightarrow> sorted (take i v) \<Longrightarrow> sink v i = insort (v ! i) (take i v) @ drop (Suc i) v"
proof (induction v i rule: sink.induct)
  case (1 v)
  then show ?case by (cases v) auto
next
  case (2 v j)
  let ?x = "v ! Suc j" and ?y = "v ! j"
  let ?w = "v[Suc j := ?y, j := ?x]"
  have t: "take (Suc j) v = take j v @ [?y]" using 2(2) by (simp add: take_Suc_conv_app_nth)
  have d: "drop (Suc j) v = ?x # drop (Suc (Suc j)) v" using 2(2) by (simp add: Cons_nth_drop_Suc)
  show ?case
  proof (cases "?x < ?y")
    case True
    have w: "take j ?w = take j v" "?w ! j = ?x" "drop (Suc j) ?w = ?y # drop (Suc (Suc j)) v"
      using 2(2) by (simp_all add: drop_update_swap flip: Cons_nth_drop_Suc)
    have "sink ?w j = insort ?x (take j v) @ ?y # drop (Suc (Suc j)) v"
      using 2(1) [OF True] 2(2,3) w t by (simp add: sorted_append)
    then show ?thesis using True t insort_above [OF True] 2(3) by simp
  next
    case False
    then have "sorted (take (Suc j) v @ [?x])" using 2(3) t by (auto simp: sorted_append)
    then show ?thesis using False d insort_end by (metis append.assoc append_Cons append_Nil append_take_drop_id sink.simps(2))
  qed
qed

lemma sort_from_sorts:
  "sorted (take i v) \<Longrightarrow> i \<le> length v \<Longrightarrow> sorted (sort_from i v) \<and> mset (sort_from i v) = mset v"
proof (induction i v rule: sort_from.induct)
  case (1 i v)
  show ?case
  proof (cases "i < length v")
    case True
    note S = sink_insort [OF True 1(2)]
    have "length (insort (v ! i) (take i v)) = Suc i" using True by simp
    then have "take (Suc i) (sink v i) = insort (v ! i) (take i v)" using S by simp
    then have so: "sorted (take (Suc i) (sink v i))" using 1(2) by (simp add: sorted_insort)
    have "mset v = mset (take i v @ v ! i # drop (Suc i) v)" using id_take_nth_drop [OF True] by simp
    then have "mset (sink v i) = mset v" by (simp add: S)
    moreover have "Suc i \<le> length (sink v i)" using True by simp
    ultimately show ?thesis using 1(1) [OF True so] True by (simp add: sort_from.simps [of i v])
  next
    case False
    then show ?thesis using 1(2,3) by (subst (1 2) sort_from.simps) simp
  qed
qed

text \<open>The in-place sort is the sort of the library.\<close>

lemma sortDurations_sort: "sortDurations v = sort v"
proof -
  have "sorted (sortDurations v) \<and> mset (sortDurations v) = mset v"
  proof (cases v)
    case Nil
    then show ?thesis by (simp add: sortDurations_def sort_from.simps)
  next
    case (Cons x xs)
    then show ?thesis unfolding sortDurations_def by (intro sort_from_sorts) simp_all
  qed
  then show ?thesis by (metis properties_for_sort)
qed

lemma rank_below:
  assumes "sorted s" "k < length s"
  shows "Suc k \<le> length (filter (\<lambda>x. x \<le> s ! k) s)"
proof -
  have "filter (\<lambda>x. x \<le> s ! k) (take (Suc k) s) = take (Suc k) s"
    using assms by (auto simp: filter_id_conv in_set_conv_nth sorted_nth_mono)
  then have "length (filter (\<lambda>x. x \<le> s ! k) (take (Suc k) s)) = Suc k" using assms(2) by simp
  then show ?thesis by (metis append_take_drop_id filter_append le_add1 length_append)
qed

lemma rank_above:
  assumes "sorted s" "k < length s"
  shows "length s - k \<le> length (filter (\<lambda>x. s ! k \<le> x) s)"
proof -
  have "filter (\<lambda>x. s ! k \<le> x) (drop k s) = drop k s"
    using assms by (auto simp: filter_id_conv in_set_conv_nth sorted_nth_mono)
  then have "length (filter (\<lambda>x. s ! k \<le> x) (drop k s)) = length s - k" by simp
  then show ?thesis by (metis append_take_drop_id filter_append le_add2 length_append)
qed

lemma filter_sort_length: "length (filter P (sort v)) = length (filter P (v :: int list))"
  by (metis mset_filter mset_sort size_mset)

definition has_rank :: "duration \<Rightarrow> nat \<Rightarrow> duration list \<Rightarrow> bool" where
  "has_rank x k v \<longleftrightarrow> x \<in> set v \<and> k < length (filter (\<lambda>y. y \<le> x) v) \<and> length v - k \<le> length (filter (\<lambda>y. x \<le> y) v)"

lemma sort_nth_rank: "k < length v \<Longrightarrow> has_rank (sort v ! k) k v"
  using rank_below [of "sort v" k] rank_above [of "sort v" k] nth_mem [of k "sort v"]
  by (auto simp: has_rank_def filter_sort_length)

text \<open>C21: The three quantiles of a histogram with samples are samples of the rank their name says: for \<open>p95\<close> of \<open>n\<close> samples, more than
  \<open>95 n / 100\<close> (rounded down) samples are not above it and at least the remaining ones are not below it, and the three are in order.  The
  snapshot of an empty histogram is empty.\<close>

theorem Snapshot_quantiles:
  "if hg_samples h = [] then Histogram_Snapshot h = Map.empty
   else \<exists>a b c. Histogram_Snapshot h = [''p50'' \<mapsto> a, ''p95'' \<mapsto> b, ''p99'' \<mapsto> c] \<and> a \<le> b \<and> b \<le> c \<and>
     has_rank a (length (hg_samples h) div 2) (hg_samples h) \<and> has_rank b (length (hg_samples h) * 95 div 100) (hg_samples h) \<and>
     has_rank c (length (hg_samples h) * 99 div 100) (hg_samples h)"
proof (cases "hg_samples h = []")
  case True
  then show ?thesis by (simp add: Histogram_Snapshot_def)
next
  case False
  let ?v = "hg_samples h"
  let ?n = "length ?v"
  have n: "?n div 2 < ?n" "?n * 95 div 100 < ?n" "?n * 99 div 100 < ?n" "?n div 2 \<le> ?n * 95 div 100" "?n * 95 div 100 \<le> ?n * 99 div 100"
    using False by (cases ?n; simp; fail)+
  have "sort ?v ! (?n div 2) \<le> sort ?v ! (?n * 95 div 100)" "sort ?v ! (?n * 95 div 100) \<le> sort ?v ! (?n * 99 div 100)"
    using n by (auto intro: sorted_nth_mono)
  then show ?thesis
    using False sort_nth_rank [OF n(1)] sort_nth_rank [OF n(2)] sort_nth_rank [OF n(3)]
    by (auto simp: Histogram_Snapshot_def sortDurations_sort Let_def)
qed

text \<open>A histogram that is full keeps only the first sample's place in motion: every further sample overwrites it.\<close>

lemma Observe_full:
  "length (hg_samples h) = 10000 \<Longrightarrow> ds \<noteq> [] \<Longrightarrow> fold Observe ds h = h\<lparr>hg_samples := (hg_samples h)[0 := last ds]\<rparr>"
proof (induction ds arbitrary: h)
  case (Cons d ds)
  have O: "Observe d h = h\<lparr>hg_samples := (hg_samples h)[0 := d]\<rparr>" using Cons.prems(1) by (simp add: Observe_def)
  then show ?case using Cons by (cases "ds = []") simp_all
qed simp

section \<open>The registry refines a map of totals\<close>

definition registry_inv :: "MetricsRegistry \<Rightarrow> bool" where
  "registry_inv r \<longleftrightarrow> inj_on (mr_counters r) (dom (mr_counters r)) \<and> (\<forall>p \<in> ran (mr_counters r). p < length (mr_cells r))"

definition totals :: "MetricsRegistry \<Rightarrow> string \<rightharpoonup> 64 word" where
  "totals r n = map_option (\<lambda>p. Counter_Value (mr_cells r ! p)) (mr_counters r n)"

text \<open>\<open>r.Counter(name).Add(k)\<close>, and the same with \<open>Inc\<close>.\<close>

definition count_up :: "string \<Rightarrow> 64 word \<Rightarrow> MetricsRegistry \<Rightarrow> MetricsRegistry" where
  "count_up name k r = (let out = Registry_Counter name r in at_counter (snd out) (Counter_Add k) (fst out))"

definition total_plus :: "64 word \<Rightarrow> 64 word option \<Rightarrow> 64 word" where
  "total_plus k v = (case v of None \<Rightarrow> 0 | Some x \<Rightarrow> x) + k"

lemma Counter_Inc_Add: "Counter_Inc = Counter_Add 1"
  by (simp add: fun_eq_iff Counter_Inc_def Counter_Add_def)

lemma Registry_Counter_inv:
  assumes "registry_inv r" "Registry_Counter name r = (r', p)"
  shows "registry_inv r'" "mr_counters r' name = Some p" "totals r' = (totals r)(name \<mapsto> total_plus 0 (totals r name))"
proof -
  have ran: "mr_counters r n = Some q \<Longrightarrow> q < length (mr_cells r)" for n q using assms(1) by (auto simp: registry_inv_def ran_def)
  show "registry_inv r'" "mr_counters r' name = Some p"
    using assms ran by (auto simp: Registry_Counter_def registry_inv_def inj_on_def ran_def Let_def less_Suc_eq dom_def split: option.splits if_splits)
      (metis less_irrefl)+
  show "totals r' = (totals r)(name \<mapsto> total_plus 0 (totals r name))"
  proof
    fix n
    show "totals r' n = ((totals r)(name \<mapsto> total_plus 0 (totals r name))) n"
      using assms(2) ran [of n]
      by (cases "mr_counters r name"; cases "mr_counters r n")
        (auto simp: Registry_Counter_def totals_def total_plus_def nth_append Let_def Counter_Value_def)
  qed
qed

lemma count_refines:
  assumes "registry_inv r"
  shows "registry_inv (count_up name k r)" "totals (count_up name k r) = (totals r)(name \<mapsto> total_plus k (totals r name))"
proof -
  obtain r' p where R: "Registry_Counter name r = (r', p)" by (cases "Registry_Counter name r")
  note I = Registry_Counter_inv [OF assms R]
  have p: "p < length (mr_cells r')" using I(1,2) by (auto simp: registry_inv_def ran_def)
  have other: "mr_counters r' n \<noteq> Some p" if "n \<noteq> name" for n
    using I(1,2) that by (auto simp: registry_inv_def inj_on_def dom_def)
  show "registry_inv (count_up name k r)" using I(1) by (simp add: count_up_def R at_counter_def registry_inv_def)
  have "totals (count_up name k r) n = ((totals r')(name \<mapsto> total_plus k (totals r' name))) n" for n
    using p other [of n] I(2)
    by (cases "n = name"; cases "mr_counters r' n")
      (auto simp: count_up_def R at_counter_def totals_def total_plus_def Counter_Value_def Counter_Add_def)
  then show "totals (count_up name k r) = (totals r)(name \<mapsto> total_plus k (totals r name))"
    by (auto simp: fun_eq_iff I(3) total_plus_def)
qed

fun counted :: "(string \<times> 64 word) list \<Rightarrow> MetricsRegistry \<Rightarrow> MetricsRegistry" where
  "counted [] r = r"
| "counted ((n, k) # xs) r = counted xs (count_up n k r)"

definition sum_of :: "string \<Rightarrow> (string \<times> 64 word) list \<Rightarrow> 64 word" where
  "sum_of n xs = sum_list (map snd (filter (\<lambda>x. fst x = n) xs))"

lemma counted_totals:
  "registry_inv r \<Longrightarrow> registry_inv (counted xs r) \<and>
   totals (counted xs r) n = (if n \<in> fst ` set xs then Some (total_plus (sum_of n xs) (totals r n)) else totals r n)"
proof (induction xs arbitrary: r)
  case (Cons x xs)
  obtain m k where x: "x = (m, k)" by (cases x)
  note C = count_refines [OF Cons.prems, of m k]
  have "registry_inv (counted xs (count_up m k r))"
    "totals (counted xs (count_up m k r)) n =
      (if n \<in> fst ` set xs then Some (total_plus (sum_of n xs) (totals (count_up m k r) n)) else totals (count_up m k r) n)"
    using Cons.IH [OF C(1)] by blast+
  moreover have "sum_of n xs = 0" if "n \<notin> fst ` set xs"
  proof -
    have "filter (\<lambda>x. fst x = n) xs = []" using that by (auto simp: filter_empty_conv)
    then show ?thesis by (simp add: sum_of_def)
  qed
  ultimately show ?case using C(2) by (auto simp: x sum_of_def total_plus_def ac_simps split: option.splits)
qed simp

text \<open>C22: However often and in whatever order counters are asked for and raised, the exported text has exactly one line for each name that was used, with
  the sum of what was added under that name, modulo \<open>2 ^ 64\<close>: names never share a counter and a name never has two.\<close>

theorem Prometheus_totals:
  assumes "r = counted xs Metrics_NewRegistry" "iteration_order (mr_counters r) ks"
  shows "set ks = fst ` set xs \<and> distinct ks \<and> Prometheus ks r = concat (map (\<lambda>n. metric_line n (sum_of n xs)) ks)"
proof -
  have "registry_inv Metrics_NewRegistry" by (simp add: registry_inv_def Metrics_NewRegistry_def)
  from counted_totals [OF this, of xs] have T: "totals r n = (if n \<in> fst ` set xs then Some (sum_of n xs) else None)" for n
    by (auto simp: assms(1) total_plus_def totals_def Metrics_NewRegistry_def)
  have "dom (mr_counters r) = {n. totals r n \<noteq> None}" by (auto simp: totals_def)
  then have ks: "set ks = fst ` set xs" "distinct ks" using assms(2) T by (auto simp: iteration_order_def)
  have "(case mr_counters r n of None \<Rightarrow> [] | Some p \<Rightarrow> metric_line n (Counter_Value (mr_cells r ! p))) = metric_line n (sum_of n xs)" if "n \<in> set ks" for n
    using T [of n] that ks(1) by (auto simp: totals_def split: option.splits)
  then have "Prometheus ks r = concat (map (\<lambda>n. metric_line n (sum_of n xs)) ks)"
    unfolding Prometheus_def by (intro arg_cong [where f = concat] map_cong) simp_all
  then show ?thesis using ks by simp
qed

theorem Prometheus_totals_witness:
  "Prometheus [''sent''] (counted [(''sent'', 2), (''sent'', - 1)] Metrics_NewRegistry) = ''notification_sent '' @ fmt_d 1 @ [CHR 0x0A]"
proof -
  have "mr_counters (counted [(''sent'', 2), (''sent'', - 1)] Metrics_NewRegistry) = [''sent'' \<mapsto> 0]"
    by (simp add: count_up_def Registry_Counter_def at_counter_def Metrics_NewRegistry_def Let_def)
  then have "iteration_order (mr_counters (counted [(''sent'', 2), (''sent'', - 1)] Metrics_NewRegistry)) [''sent'']"
    by (simp add: iteration_order_def)
  from Prometheus_totals [OF refl this] show ?thesis
    by (simp add: metric_line_def sum_of_def)
qed

end
