(* ===== verification/Provider_Registry.thy ===== *)
theory Provider_Registry
  imports Notification_Domain Optimistic_Concurrency
begin

text \<open>
  The package \<open>internal/provider\<close>, file \<open>registry.go\<close>: provider configurations under a mutex, with a
  version for optimistic concurrency.  The lemmas show that the registry only ever holds valid
  configurations, that the versions of a configuration count its changes and its creation time is
  kept, that concurrent writers do not overwrite each other, and that a listing is the same whatever
  order the map is visited in.
\<close>

section \<open>Data\<close>

record CredentialReference =
  cr_SecretName :: string
  cr_SecretKey :: string
  cr_Version :: string

record Configuration =
  cf_ID :: string
  cf_TenantID :: string
  cf_Name :: string
  cf_Channel :: Channel
  cf_Region :: string
  cf_Priority :: int
  cf_Enabled :: bool
  cf_Credentials :: CredentialReference
  cf_RatePerSec :: int
  cf_Concurrency :: int
  cf_CreatedAt :: time
  cf_UpdatedAt :: time
  cf_Version :: int

definition empty_Configuration :: Configuration where
  "empty_Configuration = \<lparr>cf_ID = [], cf_TenantID = [], cf_Name = [], cf_Channel = [], cf_Region = [], cf_Priority = 0,
     cf_Enabled = False, cf_Credentials = \<lparr>cr_SecretName = [], cr_SecretKey = [], cr_Version = []\<rparr>, cf_RatePerSec = 0,
     cf_Concurrency = 0, cf_CreatedAt = 0, cf_UpdatedAt = 0, cf_Version = 0\<rparr>"

type_synonym Registry = "string \<rightharpoonup> Configuration"

definition NewRegistry :: Registry where
  "NewRegistry = Map.empty"

section \<open>Operations\<close>

definition CredentialReference_Validate :: "CredentialReference \<Rightarrow> go_error option" where
  "CredentialReference_Validate r =
     (if TrimSpace (cr_SecretName r) = [] then Some ''secret name is required''
      else if TrimSpace (cr_SecretKey r) = [] then Some ''secret key is required''
      else if strings_Contains (cr_SecretName r) ''..'' \<or> strings_Contains (cr_SecretKey r) ''..''
        then Some ''secret reference contains invalid path component''
      else None)"

definition Configuration_Validate :: "Configuration \<Rightarrow> go_error option" where
  "Configuration_Validate c =
     (if TrimSpace (cf_ID c) = [] \<or> TrimSpace (cf_TenantID c) = [] then Some ''provider id and tenant are required''
      else if cf_Channel c \<noteq> ChannelEmail \<and> cf_Channel c \<noteq> ChannelSMS \<and> cf_Channel c \<noteq> ChannelWebhook \<and> cf_Channel c \<noteq> ChannelPush
        then Some ''unsupported provider channel''
      else if TrimSpace (cf_Region c) = [] then Some ''provider region is required''
      else if cf_Priority c < 0 \<or> cf_Priority c > 1000 then Some ''provider priority must be between 0 and 1000''
      else if cf_RatePerSec c < 1 \<or> cf_Concurrency c < 1 then Some ''provider capacity must be positive''
      else CredentialReference_Validate (cf_Credentials c))"

definition Register :: "time \<Rightarrow> Configuration \<Rightarrow> Registry \<Rightarrow> Registry \<times> go_error option" where
  "Register now c r =
     (case Configuration_Validate c of
        Some e \<Rightarrow> (r, Some e)
      | None \<Rightarrow>
          if r (cf_ID c) \<noteq> None then (r, Some ''provider configuration already exists'')
          else (r(cf_ID c \<mapsto> c\<lparr>cf_CreatedAt := now, cf_UpdatedAt := now, cf_Version := 1\<rparr>), None))"

definition Registry_Update :: "time \<Rightarrow> Configuration \<Rightarrow> int \<Rightarrow> Registry \<Rightarrow> Registry \<times> go_error option" where
  "Registry_Update now c expectedVersion r =
     (case Configuration_Validate c of
        Some e \<Rightarrow> (r, Some e)
      | None \<Rightarrow>
          (case r (cf_ID c) of
             None \<Rightarrow> (r, Some ''provider configuration not found'')
           | Some previous \<Rightarrow>
               if cf_Version previous \<noteq> expectedVersion then (r, Some ''provider configuration version conflict'')
               else (r(cf_ID c \<mapsto> c\<lparr>cf_CreatedAt := cf_CreatedAt previous, cf_UpdatedAt := now,
                        cf_Version := i64 (cf_Version previous + 1)\<rparr>), None)))"

definition SetEnabled :: "time \<Rightarrow> string \<Rightarrow> bool \<Rightarrow> int \<Rightarrow> Registry \<Rightarrow> Registry \<times> go_error option" where
  "SetEnabled now pid enabled expectedVersion r =
     (case r pid of
        None \<Rightarrow> (r, Some ''provider configuration not found'')
      | Some c \<Rightarrow>
          if cf_Version c \<noteq> expectedVersion then (r, Some ''provider configuration version conflict'')
          else (r(pid \<mapsto> c\<lparr>cf_Enabled := enabled, cf_Version := i64 (cf_Version c + 1), cf_UpdatedAt := now\<rparr>), None))"

definition Registry_Get :: "string \<Rightarrow> Registry \<Rightarrow> Configuration \<times> go_error option" where
  "Registry_Get pid r =
     (case r pid of None \<Rightarrow> (empty_Configuration, Some ''provider configuration not found'') | Some c \<Rightarrow> (c, None))"

definition config_before :: "Configuration \<Rightarrow> Configuration \<Rightarrow> bool" where
  "config_before a b =
     (if cf_Priority a = cf_Priority b then cf_ID a < cf_ID b else cf_Priority a < cf_Priority b)"

definition Registry_List :: "string list \<Rightarrow> string \<Rightarrow> Channel \<Rightarrow> Registry \<Rightarrow> Configuration list" where
  "Registry_List ks tenant channel r =
     sort_Slice config_before
       (filter (\<lambda>c. \<not> (tenant \<noteq> [] \<and> cf_TenantID c \<noteq> tenant) \<and> \<not> (channel \<noteq> [] \<and> cf_Channel c \<noteq> channel)) (map_values r ks))"

section \<open>The registry as a transition system\<close>

inductive registry_step :: "Registry \<Rightarrow> Registry \<Rightarrow> bool" where
  register: "registry_step r (fst (Register now c r))"
| update: "registry_step r (fst (Registry_Update now c e r))"
| set_enabled: "registry_step r (fst (SetEnabled now pid b e r))"

definition registry_ok :: "Registry \<Rightarrow> bool" where
  "registry_ok r \<longleftrightarrow> (\<forall>k c. r k = Some c \<longrightarrow> cf_ID c = k \<and> Configuration_Validate c = None)"

lemma Validate_metadata [simp]:
  "Configuration_Validate (c\<lparr>cf_CreatedAt := t, cf_UpdatedAt := u, cf_Version := v\<rparr>) = Configuration_Validate c"
  "Configuration_Validate (c\<lparr>cf_Enabled := b, cf_Version := v, cf_UpdatedAt := u\<rparr>) = Configuration_Validate c"
  by (simp_all add: Configuration_Validate_def)

lemma registry_step_ok: "registry_step r r' \<Longrightarrow> registry_ok r \<Longrightarrow> registry_ok r'"
  by (induction rule: registry_step.induct)
    (auto simp: registry_ok_def Register_def Registry_Update_def SetEnabled_def split: option.splits)

text \<open>What a single call does to one configuration: nothing, or one more version of the same creation.\<close>

definition next_version :: "Configuration option \<Rightarrow> Configuration option \<Rightarrow> bool" where
  "next_version old new \<longleftrightarrow> new = old \<or>
     (case (old, new) of
        (None, Some c) \<Rightarrow> cf_Version c = 1
      | (Some b, Some c) \<Rightarrow> cf_Version c = i64 (cf_Version b + 1) \<and> cf_CreatedAt c = cf_CreatedAt b
      | _ \<Rightarrow> False)"

lemma registry_step_version: "registry_step r r' \<Longrightarrow> next_version (r k) (r' k)"
  by (induction rule: registry_step.induct)
    (auto simp: next_version_def Register_def Registry_Update_def SetEnabled_def split: option.splits)

lemma registry_steps_version:
  assumes "registry_step\<^sup>*\<^sup>* r r'" "r k = Some c"
  shows "\<exists>c'. r' k = Some c' \<and> cf_CreatedAt c' = cf_CreatedAt c"
  using assms
proof (induction rule: rtranclp_induct)
  case (step r1 r2)
  then obtain c1 where "r1 k = Some c1" "cf_CreatedAt c1 = cf_CreatedAt c" by blast
  with registry_step_version [OF step(2), of k] show ?case by (auto simp: next_version_def split: option.splits)
qed simp

lemma config_before_key: "config_before a b \<longleftrightarrow> (cf_Priority a, cf_ID a) < (cf_Priority b, cf_ID b)"
  by (auto simp: config_before_def less_prod_def split: if_splits)

interpretation config_order: weak_order config_before
  by unfold_locales (auto simp: config_before_def split: if_splits)

text \<open>A write request on a configuration: a full update, or switching it on or off.\<close>

datatype registry_request = WriteConfig time Configuration | WriteEnabled time string bool

fun write_key :: "registry_request \<Rightarrow> string" where
  "write_key (WriteConfig now c) = cf_ID c"
| "write_key (WriteEnabled now k b) = k"

fun registry_write :: "registry_request \<Rightarrow> int \<Rightarrow> Registry \<Rightarrow> Registry \<times> go_error option" where
  "registry_write (WriteConfig now c) e r = Registry_Update now c e r"
| "registry_write (WriteEnabled now k b) e r = SetEnabled now k b e r"

fun write_valid :: "int \<Rightarrow> registry_request \<Rightarrow> bool" where
  "write_valid e (WriteConfig now c) = (Configuration_Validate c = None)"
| "write_valid e (WriteEnabled now k b) = True"

interpretation registry: versioned "\<lambda>r. r" cf_Version write_key write_valid registry_write
proof
  fix w e and r :: Registry
  show "r (write_key w) = None \<Longrightarrow> \<exists>err. registry_write w e r = (r, Some err)"
    by (cases w) (auto simp: Registry_Update_def SetEnabled_def split: option.splits)
  show "r (write_key w) = Some old \<Longrightarrow> cf_Version old \<noteq> e \<Longrightarrow> \<exists>err. registry_write w e r = (r, Some err)" for old
    by (cases w) (auto simp: Registry_Update_def SetEnabled_def split: option.splits)
  show "r (write_key w) = Some old \<Longrightarrow> cf_Version old = e \<Longrightarrow> write_valid e w \<Longrightarrow>
      \<exists>new. fst (registry_write w e r) (write_key w) = Some new \<and> cf_Version new \<noteq> e" for old
    by (cases w) (auto simp: Registry_Update_def SetEnabled_def i64_succ_neq)
  show "k \<noteq> write_key w \<Longrightarrow> fst (registry_write w e r) k = r k" for k
    by (cases w) (auto simp: Registry_Update_def SetEnabled_def split: option.splits)
qed

section \<open>Properties\<close>

definition sample_config :: Configuration where
  "sample_config = empty_Configuration\<lparr>cf_ID := ''p1'', cf_TenantID := ''t'', cf_Channel := ChannelEmail, cf_Region := ''eu'',
     cf_Credentials := \<lparr>cr_SecretName = ''s'', cr_SecretKey = ''k'', cr_Version = []\<rparr>, cf_RatePerSec := 1, cf_Concurrency := 1\<rparr>"

definition sample_registry :: Registry where
  "sample_registry = fst (Register 7 sample_config NewRegistry)"

lemma sample_config_valid: "Configuration_Validate sample_config = None"
  by code_simp

lemma sample_registry_eq: "sample_registry = [''p1'' \<mapsto> sample_config\<lparr>cf_CreatedAt := 7, cf_UpdatedAt := 7, cf_Version := 1\<rparr>]"
  by (simp add: sample_registry_def Register_def sample_config_valid NewRegistry_def) (simp add: sample_config_def)

lemma sample_registry_steps: "registry_step\<^sup>*\<^sup>* NewRegistry sample_registry"
  unfolding sample_registry_def by (rule r_into_rtranclp) (rule register)

text \<open>C25: A registry that started empty holds only valid configurations, each under its own identifier, and a
  stored configuration is never lost and keeps its creation time, whatever calls follow; each call that changes
  it raises its version by one.\<close>

theorem registry_history:
  assumes "registry_step\<^sup>*\<^sup>* NewRegistry r" "r k = Some c" "registry_step r r'" "registry_step\<^sup>*\<^sup>* r' r''"
  shows "cf_ID c = k \<and> Configuration_Validate c = None \<and>
     (r' k = Some c \<or> (\<exists>c1. r' k = Some c1 \<and> cf_Version c1 = i64 (cf_Version c + 1))) \<and>
     (\<exists>c2. r'' k = Some c2 \<and> cf_CreatedAt c2 = cf_CreatedAt c \<and> Configuration_Validate c2 = None)"
proof -
  have ok: "registry_ok r" using assms(1)
    by (induction rule: rtranclp_induct) (auto simp: registry_ok_def NewRegistry_def dest: registry_step_ok [unfolded registry_ok_def])
  have steps: "registry_step\<^sup>*\<^sup>* r r''" using assms(3,4) by (rule converse_rtranclp_into_rtranclp)
  then have "registry_ok r''" using ok by (induction rule: rtranclp_induct) (auto dest: registry_step_ok)
  then show ?thesis
    using ok assms(2) registry_step_version [OF assms(3), of k] registry_steps_version [OF steps assms(2)]
    by (auto simp: registry_ok_def next_version_def split: option.splits)
qed

theorem registry_history_witness:
  "\<exists>c2. fst (SetEnabled 9 ''p1'' True 1 sample_registry) ''p1'' = Some c2 \<and> cf_CreatedAt c2 = 7"
  using registry_history [OF sample_registry_steps, where k = "''p1''"
      and r' = "fst (SetEnabled 9 ''p1'' True 1 sample_registry)" and r'' = "fst (SetEnabled 9 ''p1'' True 1 sample_registry)"]
    set_enabled [of sample_registry 9 "''p1''" True 1]
  by (simp add: sample_registry_eq) blast

text \<open>A listing contains exactly the configurations of the tenant and channel asked for (an empty
  filter admits all), ordered by priority and then identifier, and does not depend on the order in which
  the map is visited.\<close>

theorem Registry_List_deterministic:
  assumes "registry_ok r" "iteration_order r ks" "iteration_order r ks'"
  shows "Registry_List ks tenant ch r = Registry_List ks' tenant ch r \<and>
     set (Registry_List ks tenant ch r) = {c \<in> ran r. (tenant = [] \<or> cf_TenantID c = tenant) \<and> (ch = [] \<or> cf_Channel c = ch)} \<and>
     sorted_wrt (\<lambda>a b. cf_Priority a < cf_Priority b \<or> cf_Priority a = cf_Priority b \<and> cf_ID a \<le> cf_ID b) (Registry_List ks tenant ch r)"
proof (intro conjI)
  define P :: "Configuration \<Rightarrow> bool" where "P = (\<lambda>c. \<not> (tenant \<noteq> [] \<and> cf_TenantID c \<noteq> tenant) \<and> \<not> (ch \<noteq> [] \<and> cf_Channel c \<noteq> ch))"
  have L: "Registry_List xs tenant ch r = sort_Slice config_before (filter P (map_values r xs))" for xs
    by (simp add: Registry_List_def P_def)
  have ran: "set (map_values r ks) = ran r" using assms(2) by (rule set_map_values_order)
  have sep: "a = b \<or> config_before a b \<or> config_before b a" if "a \<in> ran r" "b \<in> ran r" for a b
  proof -
    obtain j k where jk: "r j = Some a" "r k = Some b" using \<open>a \<in> ran r\<close> \<open>b \<in> ran r\<close> by (auto simp: ran_def)
    then have "cf_ID a = j" "cf_ID b = k" using assms(1) by (auto simp: registry_ok_def)
    then have "cf_ID a = cf_ID b \<Longrightarrow> a = b" using jk by simp
    then show ?thesis unfolding config_before_key by (metis linorder_neqE prod.inject)
  qed
  show "Registry_List ks tenant ch r = Registry_List ks' tenant ch r"
    unfolding L by (rule config_order.sort_map_values_cong [OF assms(2,3) sep])
  show "set (Registry_List ks tenant ch r) = {c \<in> ran r. (tenant = [] \<or> cf_TenantID c = tenant) \<and> (ch = [] \<or> cf_Channel c = ch)}"
    unfolding L using ran by (auto simp: P_def)
  have "sorted_by config_before (Registry_List ks tenant ch r)" unfolding L by (rule config_order.sort_Slice_sorted)
  then show "sorted_wrt (\<lambda>a b. cf_Priority a < cf_Priority b \<or> cf_Priority a = cf_Priority b \<and> cf_ID a \<le> cf_ID b) (Registry_List ks tenant ch r)"
    unfolding sorted_by_def by (rule sorted_wrt_mono_rel [rotated]) (auto simp: config_before_def split: if_splits)
qed

theorem Registry_List_deterministic_witness:
  "set (Registry_List [''p1''] ''t'' [] sample_registry) = {sample_config\<lparr>cf_CreatedAt := 7, cf_UpdatedAt := 7, cf_Version := 1\<rparr>}"
proof -
  have "registry_ok sample_registry"
    by (simp add: registry_ok_def sample_registry_eq sample_config_valid) (simp add: sample_config_def)
  moreover have "iteration_order sample_registry [''p1'']" by (simp add: iteration_order_def sample_registry_eq)
  ultimately have "set (Registry_List [''p1''] ''t'' [] sample_registry) =
      {c \<in> ran sample_registry. cf_TenantID c = ''t''}"
    using Registry_List_deterministic [of sample_registry "[''p1'']" "[''p1'']" "''t''" "[]"] by simp
  moreover have "ran sample_registry = {sample_config\<lparr>cf_CreatedAt := 7, cf_UpdatedAt := 7, cf_Version := 1\<rparr>}"
    by (simp add: sample_registry_eq)
  moreover have "cf_TenantID sample_config = ''t''" by (simp add: sample_config_def)
  ultimately show ?thesis by (simp add: Collect_conv_if)
qed

text \<open>Of several writers based on the same version of a configuration at most one gets through.\<close>

lemma no_lost_configuration:
  assumes "\<forall>w \<in> set ws. write_key w = k \<and> write_valid e w"
  shows "length (filter (\<lambda>b. b) (snd (run_writers registry_write e ws r))) \<le> 1"
  using assms by (rule registry.at_most_one_writer)

end
