(* ===== verification/Routing_Policy.thy ===== *)
theory Routing_Policy
  imports Notification_Domain
begin

text \<open>
  The package \<open>internal/routing\<close>, file \<open>policy.go\<close>: routing rules with patterns over the attributes of
  a notification, kept under a mutex with versions.  The regular expressions are those of Go's
  \<open>regexp\<close>: \<open>compile\<close> (an error or a compiled expression) and \<open>matches\<close> (\<open>MatchString\<close>) are parameters, and
  no law of them is needed.  The lemmas show that only valid, compiled rules are stored, how versions
  guard changes, and which rules \<open>Select\<close> returns in which order.
  A rule is a value: that its slice of matches, compiled in place before the mutex is taken, stays shared with the caller of \<open>Put\<close> is
  not modelled, so the theorems are about callers that do not touch a rule after they have passed it.
\<close>

section \<open>Data\<close>

record 're Match =
  mt_Subject :: string
  mt_Pattern :: string
  mt_compiled :: "'re option"

record 're Rule =
  rl_ID :: string
  rl_TenantID :: string
  rl_Channel :: Channel
  rl_Priority :: int
  rl_Matches :: "'re Match list"
  rl_ProviderNames :: "string list"
  rl_Weight :: int
  rl_Region :: string
  rl_Enabled :: bool
  rl_Version :: int
  rl_UpdatedAt :: time

type_synonym 're PolicySet = "string \<rightharpoonup> 're Rule"

definition NewPolicySet :: "'re PolicySet" where
  "NewPolicySet = Map.empty"

record Decision =
  de_PolicyID :: string
  de_PolicyVersion :: int
  de_Provider :: string
  de_Reason :: string
  de_EvaluatedAt :: time

section \<open>Operations\<close>

definition Compile :: "(string \<Rightarrow> go_error + 're) \<Rightarrow> 're Match \<Rightarrow> 're Match \<times> go_error option" where
  "Compile compile m =
     (if mt_Subject m \<noteq> ''tenant'' \<and> mt_Subject m \<noteq> ''business_id'' \<and> mt_Subject m \<noteq> ''target''
        then (m, Some ''unsupported match subject'')
      else if length (mt_Pattern m) > 256 then (m, Some ''match pattern too long'')
      else case compile (mt_Pattern m) of
        Inl e \<Rightarrow> (m, Some e)
      | Inr re \<Rightarrow> (m\<lparr>mt_compiled := Some re\<rparr>, None))"

definition Matches :: "('re \<Rightarrow> string \<Rightarrow> bool) \<Rightarrow> 're Match \<Rightarrow> string \<Rightarrow> bool" where
  "Matches matches m value = (case mt_compiled m of None \<Rightarrow> False | Some re \<Rightarrow> matches re value)"

fun compile_all :: "(string \<Rightarrow> go_error + 're) \<Rightarrow> 're Match list \<Rightarrow> 're Match list \<times> go_error option" where
  "compile_all compile [] = ([], None)"
| "compile_all compile (m # ms) =
     (case Compile compile m of
        (m', Some e) \<Rightarrow> (m' # ms, Some e)
      | (m', None) \<Rightarrow> (let rest = compile_all compile ms in (m' # fst rest, snd rest)))"

definition Rule_Validate :: "(string \<Rightarrow> go_error + 're) \<Rightarrow> 're Rule \<Rightarrow> 're Rule \<times> go_error option" where
  "Rule_Validate compile r =
     (if rl_ID r = [] \<or> rl_TenantID r = [] then (r, Some ''rule id and tenant required'')
      else if length (rl_ProviderNames r) = 0 then (r, Some ''at least one provider required'')
      else if rl_Weight r < 1 \<or> rl_Weight r > 1000 then (r, Some ''weight must be positive'')
      else let out = compile_all compile (rl_Matches r) in (r\<lparr>rl_Matches := fst out\<rparr>, snd out))"

definition Put :: "(string \<Rightarrow> go_error + 're) \<Rightarrow> time \<Rightarrow> 're Rule \<Rightarrow> 're PolicySet \<Rightarrow> 're PolicySet \<times> go_error option" where
  "Put compile now r p =
     (case Rule_Validate compile r of
        (_, Some e) \<Rightarrow> (p, Some e)
      | (r, None) \<Rightarrow>
          (case p (rl_ID r) of
             Some old \<Rightarrow>
               if rl_Version old \<noteq> rl_Version r then (p, Some ''policy version conflict'')
               else (p(rl_ID r \<mapsto> r\<lparr>rl_Version := i64 (rl_Version r + 1), rl_UpdatedAt := now\<rparr>), None)
           | None \<Rightarrow> (p(rl_ID r \<mapsto> r\<lparr>rl_Version := 1, rl_UpdatedAt := now\<rparr>), None)))"

definition Policy_Delete :: "string \<Rightarrow> int \<Rightarrow> 're PolicySet \<Rightarrow> 're PolicySet \<times> go_error option" where
  "Policy_Delete pid version p =
     (case p pid of
        None \<Rightarrow> (p, Some ''policy not found'')
      | Some r \<Rightarrow> if rl_Version r \<noteq> version then (p, Some ''policy version conflict'') else (p(pid := None), None))"

definition rule_before :: "'re Rule \<Rightarrow> 're Rule \<Rightarrow> bool" where
  "rule_before a b = (if rl_Priority a = rl_Priority b then rl_ID a < rl_ID b else rl_Priority a < rl_Priority b)"

definition Policy_List :: "string list \<Rightarrow> string \<Rightarrow> 're PolicySet \<Rightarrow> 're Rule list" where
  "Policy_List ks tenant p =
     sort_Slice rule_before (filter (\<lambda>r. tenant = [] \<or> rl_TenantID r = tenant) (map_values p ks))"

text \<open>The lookup of a missing attribute gives the empty string; the inner loop stops at the first pattern that fails.\<close>

fun all_match :: "('re \<Rightarrow> string \<Rightarrow> bool) \<Rightarrow> (string \<rightharpoonup> string) \<Rightarrow> 're Match list \<Rightarrow> bool" where
  "all_match matches attributes [] = True"
| "all_match matches attributes (m # ms) =
     (if \<not> Matches matches m (TrimSpace (case attributes (mt_Subject m) of None \<Rightarrow> [] | Some v \<Rightarrow> v)) then False
      else all_match matches attributes ms)"

definition Select ::
  "('re \<Rightarrow> string \<Rightarrow> bool) \<Rightarrow> string list \<Rightarrow> string \<Rightarrow> Channel \<Rightarrow> (string \<rightharpoonup> string) \<Rightarrow> 're PolicySet \<Rightarrow> 're Rule list" where
  "Select matches ks tenant ch attributes p =
     filter (\<lambda>r. \<not> (\<not> rl_Enabled r \<or> rl_Channel r \<noteq> ch) \<and> all_match matches attributes (rl_Matches r)) (Policy_List ks tenant p)"

definition Explain :: "time \<Rightarrow> 're Rule list \<Rightarrow> string \<Rightarrow> Decision" where
  "Explain now rules provider =
     (let d = \<lparr>de_PolicyID = [], de_PolicyVersion = 0, de_Provider = provider, de_Reason = ''no matching policy'', de_EvaluatedAt = now\<rparr> in
      case rules of
        [] \<Rightarrow> d
      | r # _ \<Rightarrow> d\<lparr>de_PolicyID := rl_ID r, de_PolicyVersion := rl_Version r, de_Reason := ''highest priority matching policy''\<rparr>)"

section \<open>Stored rules are valid and compiled\<close>

definition match_ok :: "(string \<Rightarrow> go_error + 're) \<Rightarrow> 're Match \<Rightarrow> bool" where
  "match_ok compile m \<longleftrightarrow> mt_Subject m \<in> {''tenant'', ''business_id'', ''target''} \<and> length (mt_Pattern m) \<le> 256 \<and>
     (\<exists>re. compile (mt_Pattern m) = Inr re \<and> mt_compiled m = Some re)"

definition rule_ok :: "(string \<Rightarrow> go_error + 're) \<Rightarrow> 're Rule \<Rightarrow> bool" where
  "rule_ok compile r \<longleftrightarrow> rl_ID r \<noteq> [] \<and> rl_TenantID r \<noteq> [] \<and> rl_ProviderNames r \<noteq> [] \<and> 1 \<le> rl_Weight r \<and> rl_Weight r \<le> 1000 \<and>
     (\<forall>m \<in> set (rl_Matches r). match_ok compile m)"

definition policies_ok :: "(string \<Rightarrow> go_error + 're) \<Rightarrow> 're PolicySet \<Rightarrow> bool" where
  "policies_ok compile p \<longleftrightarrow> (\<forall>k r. p k = Some r \<longrightarrow> rl_ID r = k \<and> rule_ok compile r)"

lemma Compile_ok: "Compile compile m = (m', None) \<Longrightarrow> match_ok compile m'"
  by (auto simp: Compile_def match_ok_def split: if_splits sum.splits)

lemma compile_all_ok:
  "snd (compile_all compile ms) = None \<Longrightarrow> m \<in> set (fst (compile_all compile ms)) \<Longrightarrow> match_ok compile m"
proof (induction ms)
  case (Cons a ms)
  obtain a' where "Compile compile a = (a', None)" using Cons.prems by (auto split: prod.splits option.splits)
  with Cons show ?case by (auto simp: Let_def dest: Compile_ok)
qed simp

lemma Rule_Validate_ok:
  "Rule_Validate compile r = (r', None) \<Longrightarrow> rule_ok compile r' \<and> rl_ID r' = rl_ID r \<and> rl_Version r' = rl_Version r"
  by (auto simp: Rule_Validate_def rule_ok_def Let_def split: if_splits dest: compile_all_ok)

inductive policy_step :: "(string \<Rightarrow> go_error + 're) \<Rightarrow> 're PolicySet \<Rightarrow> 're PolicySet \<Rightarrow> bool" for compile where
  put: "policy_step compile p (fst (Put compile now r p))"
| delete: "policy_step compile p (fst (Policy_Delete pid v p))"

lemma rule_ok_metadata [simp]: "rule_ok compile (r\<lparr>rl_Version := v, rl_UpdatedAt := t\<rparr>) = rule_ok compile r"
  by (simp add: rule_ok_def)

lemma policy_step_ok: "policy_step compile p p' \<Longrightarrow> policies_ok compile p \<Longrightarrow> policies_ok compile p'"
  by (induction rule: policy_step.induct)
    (auto simp: policies_ok_def Put_def Policy_Delete_def dest: Rule_Validate_ok split: prod.splits option.splits if_splits)

lemma policy_steps_ok: "(policy_step compile)\<^sup>*\<^sup>* NewPolicySet p \<Longrightarrow> policies_ok compile p"
  by (induction rule: rtranclp_induct) (auto simp: policies_ok_def NewPolicySet_def dest: policy_step_ok [unfolded policies_ok_def])

lemma rule_before_key: "rule_before a b \<longleftrightarrow> (rl_Priority a, rl_ID a) < (rl_Priority b, rl_ID b)"
  by (auto simp: rule_before_def less_prod_def split: if_splits)

interpretation rule_order: weak_order rule_before
  by unfold_locales (auto simp: rule_before_key)

lemma rules_separated:
  assumes "policies_ok compile p" "a \<in> ran p" "b \<in> ran p"
  shows "a = b \<or> rule_before a b \<or> rule_before b a"
proof -
  obtain j k where jk: "p j = Some a" "p k = Some b" using assms(2,3) by (auto simp: ran_def)
  then have "rl_ID a = j" "rl_ID b = k" using assms(1) by (auto simp: policies_ok_def)
  then have "rl_ID a = rl_ID b \<Longrightarrow> a = b" using jk by simp
  then show ?thesis unfolding rule_before_key by (metis linorder_neqE prod.inject)
qed

text \<open>The meaning of a rule's patterns, by the text of each pattern.\<close>

definition attribute :: "(string \<rightharpoonup> string) \<Rightarrow> string \<Rightarrow> string" where
  "attribute attributes k = (case attributes k of None \<Rightarrow> [] | Some v \<Rightarrow> v)"

definition pattern_holds :: "(string \<Rightarrow> go_error + 're) \<Rightarrow> ('re \<Rightarrow> string \<Rightarrow> bool) \<Rightarrow> (string \<rightharpoonup> string) \<Rightarrow> 're Match \<Rightarrow> bool" where
  "pattern_holds compile matches attributes m \<longleftrightarrow>
     (\<exists>re. compile (mt_Pattern m) = Inr re \<and> matches re (TrimSpace (attribute attributes (mt_Subject m))))"

lemma all_match_iff:
  "\<forall>m \<in> set ms. match_ok compile m \<Longrightarrow>
   all_match matches attributes ms \<longleftrightarrow> (\<forall>m \<in> set ms. pattern_holds compile matches attributes m)"
  by (induction ms) (auto simp: Matches_def match_ok_def pattern_holds_def attribute_def split: option.splits)

section \<open>Properties\<close>

text \<open>C26: In a policy set built by its operations, \<open>Select\<close> returns exactly the stored rules of the tenant that are enabled, are for
  the channel and whose every pattern matches the trimmed attribute it names, ordered by priority and then by
  identifier, whatever the order of the map iteration; so \<open>Explain\<close> names the matching rule with the least priority number.\<close>

theorem Select_spec:
  assumes "(policy_step compile)\<^sup>*\<^sup>* NewPolicySet p" "iteration_order p ks" "iteration_order p ks'"
  shows "let out = Select matches ks tenant ch attributes p in
     out = Select matches ks' tenant ch attributes p \<and>
     set out = {r \<in> ran p. (tenant = [] \<or> rl_TenantID r = tenant) \<and> rl_Enabled r \<and> rl_Channel r = ch \<and>
                  (\<forall>m \<in> set (rl_Matches r). pattern_holds compile matches attributes m)} \<and>
     sorted_wrt (\<lambda>a b. (rl_Priority a, rl_ID a) \<le> (rl_Priority b, rl_ID b)) out \<and>
     (\<forall>r \<in> set out. \<exists>best \<in> set out. de_PolicyID (Explain now out provider) = rl_ID best \<and> rl_Priority best \<le> rl_Priority r)"
proof -
  have ok: "policies_ok compile p" using assms(1) by (rule policy_steps_ok)
  have am: "all_match matches attributes (rl_Matches r) \<longleftrightarrow> (\<forall>m \<in> set (rl_Matches r). pattern_holds compile matches attributes m)"
    if "r \<in> ran p" for r
    using that ok by (intro all_match_iff) (auto simp: policies_ok_def rule_ok_def ran_def)
  define out where "out = Select matches ks tenant ch attributes p"
  have "Policy_List ks tenant p = Policy_List ks' tenant p"
    unfolding Policy_List_def by (rule rule_order.sort_map_values_cong [OF assms(2,3) rules_separated [OF ok]])
  then have same: "out = Select matches ks' tenant ch attributes p" by (simp add: out_def Select_def)
  have set: "set out = {r \<in> ran p. (tenant = [] \<or> rl_TenantID r = tenant) \<and> rl_Enabled r \<and> rl_Channel r = ch \<and>
                  (\<forall>m \<in> set (rl_Matches r). pattern_holds compile matches attributes m)}"
    unfolding out_def Select_def Policy_List_def using am set_map_values_order [OF assms(2)] by auto
  have "sorted_by rule_before (Policy_List ks tenant p)" unfolding Policy_List_def by (rule rule_order.sort_Slice_sorted)
  then have "sorted_wrt (\<lambda>a b. (rl_Priority a, rl_ID a) \<le> (rl_Priority b, rl_ID b)) (Policy_List ks tenant p)"
    unfolding sorted_by_def rule_before_key by (simp only: not_less)
  then have sorted: "sorted_wrt (\<lambda>a b. (rl_Priority a, rl_ID a) \<le> (rl_Priority b, rl_ID b)) out"
    unfolding out_def Select_def by (rule sorted_wrt_filter)
  have "\<exists>best \<in> set out. de_PolicyID (Explain now out provider) = rl_ID best \<and> rl_Priority best \<le> rl_Priority r" if "r \<in> set out" for r
    using that sorted by (cases out) (auto simp: Explain_def Let_def)
  then show ?thesis using same set sorted unfolding Let_def out_def [symmetric] by blast
qed

text \<open>Patterns that match when the value contains their text, as an instance of the parameters.\<close>

definition sample_rule :: "string Rule" where
  "sample_rule = \<lparr>rl_ID = ''r1'', rl_TenantID = ''t'', rl_Channel = ChannelEmail, rl_Priority = 5,
     rl_Matches = [\<lparr>mt_Subject = ''business_id'', mt_Pattern = ''inv'', mt_compiled = None\<rparr>], rl_ProviderNames = [''a''],
     rl_Weight = 1, rl_Region = [], rl_Enabled = True, rl_Version = 0, rl_UpdatedAt = 0\<rparr>"

definition sample_policies :: "string PolicySet" where
  "sample_policies = fst (Put Inr 7 sample_rule NewPolicySet)"

lemma sample_policies_eq:
  "sample_policies = [''r1'' \<mapsto> sample_rule\<lparr>rl_Matches := [\<lparr>mt_Subject = ''business_id'', mt_Pattern = ''inv'', mt_compiled = Some ''inv''\<rparr>],
     rl_Version := 1, rl_UpdatedAt := 7\<rparr>]"
  by (simp add: sample_policies_def Put_def Rule_Validate_def Compile_def sample_rule_def NewPolicySet_def)

definition contains_text :: "string \<Rightarrow> string \<Rightarrow> bool" where
  "contains_text re v = strings_Contains v re"

theorem Select_spec_witness:
  "\<exists>r \<in> set (Select contains_text [''r1''] ''t'' ChannelEmail [''business_id'' \<mapsto> ''inv-7''] sample_policies). rl_ID r = ''r1''"
proof -
  have steps: "(policy_step Inr)\<^sup>*\<^sup>* NewPolicySet sample_policies"
    unfolding sample_policies_def by (rule r_into_rtranclp) (rule put)
  have order: "iteration_order sample_policies [''r1'']" by (simp add: iteration_order_def sample_policies_eq)
  have "TrimSpace ''inv-7'' = ''inv-7''" "strings_Contains ''inv-7'' ''inv''" by code_simp+
  then have "pattern_holds Inr contains_text [''business_id'' \<mapsto> ''inv-7''] \<lparr>mt_Subject = ''business_id'', mt_Pattern = ''inv'', mt_compiled = Some ''inv''\<rparr>"
    by (simp add: pattern_holds_def attribute_def contains_text_def)
  then show ?thesis
    using Select_spec [OF steps order order, where matches = contains_text and tenant = "''t''" and ch = ChannelEmail
        and attributes = "[''business_id'' \<mapsto> ''inv-7'']"]
    by (simp add: sample_policies_eq sample_rule_def Let_def)
qed

text \<open>Versions guard the rules: a valid new rule is stored with version one; a change of a stored rule is
  accepted only with the stored version and then raises it, so a second change based on the same version is
  refused; a deletion needs the stored version.  A refused call changes nothing.\<close>

theorem Put_Delete_versions:
  assumes "Rule_Validate compile r = (v, None)"
  shows "(p (rl_ID r) = None \<longrightarrow> Put compile now r p = (p(rl_ID r \<mapsto> v\<lparr>rl_Version := 1, rl_UpdatedAt := now\<rparr>), None)) \<and>
     (\<forall>old. p (rl_ID r) = Some old \<longrightarrow>
        (if rl_Version old = rl_Version r
         then Put compile now r p = (p(rl_ID r \<mapsto> v\<lparr>rl_Version := i64 (rl_Version old + 1), rl_UpdatedAt := now\<rparr>), None) \<and>
              Put compile now' r (fst (Put compile now r p)) = (fst (Put compile now r p), Some ''policy version conflict'') \<and>
              Policy_Delete (rl_ID r) (rl_Version r) (fst (Put compile now r p)) = (fst (Put compile now r p), Some ''policy version conflict'') \<and>
              Policy_Delete (rl_ID r) (rl_Version r) p = (p(rl_ID r := None), None)
         else Put compile now r p = (p, Some ''policy version conflict'') \<and>
              Policy_Delete (rl_ID r) (rl_Version r) p = (p, Some ''policy version conflict'')))"
  using Rule_Validate_ok [OF assms] i64_succ_neq assms
  by (auto simp: Put_def Policy_Delete_def)

theorem Put_Delete_versions_witness:
  "snd (Put Inr 9 (sample_rule\<lparr>rl_Version := 1\<rparr>) sample_policies) = None \<and>
   Put Inr 9 (sample_rule\<lparr>rl_Version := 4\<rparr>) sample_policies = (sample_policies, Some ''policy version conflict'')"
proof -
  have valid: "\<exists>v. Rule_Validate Inr (sample_rule\<lparr>rl_Version := n\<rparr>) = (v, None)" for n
    by (simp add: Rule_Validate_def Compile_def sample_rule_def)
  then obtain v w where "Rule_Validate Inr (sample_rule\<lparr>rl_Version := 1\<rparr>) = (v, None)" "Rule_Validate Inr (sample_rule\<lparr>rl_Version := 4\<rparr>) = (w, None)"
    by metis
  then show ?thesis
    using Put_Delete_versions [where r = "sample_rule\<lparr>rl_Version := 1\<rparr>" and compile = Inr and p = sample_policies and now = 9]
      Put_Delete_versions [where r = "sample_rule\<lparr>rl_Version := 4\<rparr>" and compile = Inr and p = sample_policies and now = 9]
    by (simp add: sample_policies_eq sample_rule_def)
qed

end
