(* ===== verification/Quota_Ledger.thy ===== *)
theory Quota_Ledger
  imports Go_Prelude
begin

text \<open>
  The package \<open>internal/rate\<close>, file \<open>quota.go\<close>: tenants reserve, commit and roll back units of a
  daily, a monthly and a burst quota.  Every method runs under the ledger's mutex and reads the clock
  at most once; the reading is an argument.  The arithmetic is 64-bit with wrap-around.  The lemmas show that
  what a tenant has reserved is the sum of its open reservations and that the limits are kept as long
  as no sum leaves the 64-bit range, and what happens when one does.
\<close>

section \<open>Calendar\<close>

text \<open>
  \<open>Time.Format\<close> with the layouts \<open>2006-01-02\<close> and \<open>2006-01\<close>: the civil date of the proleptic Gregorian
  calendar from the number of days since January 1, year 1, counted in eras of 400 years that begin on
  March 1.
\<close>

definition civil_date :: "int \<Rightarrow> int \<times> int \<times> int" where
  "civil_date days =
     (let z = days + 306;
          era = z div 146097; doe = z mod 146097;
          yoe = (doe - doe div 1460 + doe div 36524 - doe div 146096) div 365;
          doy = doe - (365 * yoe + yoe div 4 - yoe div 100);
          mp = (5 * doy + 2) div 153;
          d = doy - (153 * mp + 2) div 5 + 1;
          m = (if mp < 10 then mp + 3 else mp - 9)
      in (yoe + era * 400 + (if m \<le> 2 then 1 else 0), m, d))"

definition pad_left :: "nat \<Rightarrow> string \<Rightarrow> string" where
  "pad_left w s = replicate (w - length s) (CHR ''0'') @ s"

definition days_of :: "time \<Rightarrow> int" where
  "days_of t = t div (86400 * second)"

definition Format_month :: "time \<Rightarrow> string" where
  "Format_month t =
     (case civil_date (days_of t) of (y, m, d) \<Rightarrow>
        pad_left 4 (prepend_digits y []) @ ''-'' @ pad_left 2 (prepend_digits m []))"

definition Format_day :: "time \<Rightarrow> string" where
  "Format_day t =
     (case civil_date (days_of t) of (y, m, d) \<Rightarrow>
        pad_left 4 (prepend_digits y []) @ ''-'' @ pad_left 2 (prepend_digits m []) @ ''-'' @ pad_left 2 (prepend_digits d []))"

section \<open>Data\<close>

record Quota =
  qu_TenantID :: string
  qu_DailyLimit :: int
  qu_MonthlyLimit :: int
  qu_BurstLimit :: int
  qu_UpdatedAt :: time

record Usage =
  us_TenantID :: string
  us_Day :: string
  us_Month :: string
  us_DailyUsed :: int
  us_MonthlyUsed :: int
  us_Reserved :: int
  us_Committed :: int
  us_LastModified :: time

definition empty_Usage :: Usage where
  "empty_Usage = \<lparr>us_TenantID = [], us_Day = [], us_Month = [], us_DailyUsed = 0, us_MonthlyUsed = 0,
     us_Reserved = 0, us_Committed = 0, us_LastModified = 0\<rparr>"

record Reservation =
  rs_ID :: string
  rs_TenantID :: string
  rs_Amount :: int
  rs_CreatedAt :: time
  rs_ExpiresAt :: time
  rs_Committed :: bool

definition empty_Reservation :: Reservation where
  "empty_Reservation = \<lparr>rs_ID = [], rs_TenantID = [], rs_Amount = 0, rs_CreatedAt = 0, rs_ExpiresAt = 0, rs_Committed = False\<rparr>"

record Ledger =
  l_quotas :: "string \<rightharpoonup> Quota"
  l_usage :: "string \<rightharpoonup> Usage"
  l_reservations :: "string \<rightharpoonup> Reservation"

definition NewLedger :: Ledger where
  "NewLedger = \<lparr>l_quotas = Map.empty, l_usage = Map.empty, l_reservations = Map.empty\<rparr>"

section \<open>Operations\<close>

definition usage_of :: "Ledger \<Rightarrow> string \<Rightarrow> Usage" where
  "usage_of l tenant = (case l_usage l tenant of None \<Rightarrow> empty_Usage | Some u \<Rightarrow> u)"

definition currentUsageLocked :: "string \<Rightarrow> time \<Rightarrow> Ledger \<Rightarrow> Usage" where
  "currentUsageLocked tenant now l =
     (let u = usage_of l tenant; day = Format_day now; month = Format_month now;
          u = (if us_Day u \<noteq> day then u\<lparr>us_DailyUsed := 0, us_Day := day\<rparr> else u);
          u = (if us_Month u \<noteq> month then u\<lparr>us_MonthlyUsed := 0, us_Month := month\<rparr> else u)
      in u\<lparr>us_TenantID := tenant\<rparr>)"

definition releaseLocked :: "Reservation \<Rightarrow> time \<Rightarrow> Ledger \<Rightarrow> Ledger" where
  "releaseLocked r now l =
     (let u = currentUsageLocked (rs_TenantID r) now l;
          res = i64 (us_Reserved u - rs_Amount r);
          u = u\<lparr>us_Reserved := (if res < 0 then 0 else res), us_LastModified := now\<rparr>
      in l\<lparr>l_usage := (l_usage l)(rs_TenantID r \<mapsto> u), l_reservations := (l_reservations l)(rs_ID r := None)\<rparr>)"

text \<open>The loop over the reservations, in the order \<open>ks\<close>; it deletes what it releases as it goes.\<close>

fun expireLocked :: "time \<Rightarrow> string list \<Rightarrow> Ledger \<Rightarrow> Ledger" where
  "expireLocked now [] l = l"
| "expireLocked now (k # ks) l =
     (case l_reservations l k of
        None \<Rightarrow> expireLocked now ks l
      | Some r \<Rightarrow>
          if \<not> rs_Committed r \<and> now > rs_ExpiresAt r then expireLocked now ks (releaseLocked r now l)
          else expireLocked now ks l)"

definition Configure :: "time \<Rightarrow> Quota \<Rightarrow> Ledger \<Rightarrow> Ledger \<times> go_error option" where
  "Configure now q l =
     (if qu_TenantID q = [] then (l, Some ''tenant is required'')
      else if qu_DailyLimit q < 1 \<or> qu_MonthlyLimit q < qu_DailyLimit q \<or> qu_BurstLimit q < 1
        then (l, Some ''invalid quota limits'')
      else (l\<lparr>l_quotas := (l_quotas l)(qu_TenantID q \<mapsto> q\<lparr>qu_UpdatedAt := now\<rparr>)\<rparr>, None))"

definition Reserve ::
  "time \<Rightarrow> string list \<Rightarrow> string \<Rightarrow> string \<Rightarrow> int \<Rightarrow> duration \<Rightarrow> Ledger \<Rightarrow> Ledger \<times> Reservation \<times> go_error option" where
  "Reserve now ks rid tenant amount ttl l =
     (if rid = [] \<or> tenant = [] \<or> amount < 1
      then (l, empty_Reservation, Some ''reservation id, tenant and positive amount required'')
      else case l_reservations l rid of
        Some existing \<Rightarrow> (l, existing, None)
      | None \<Rightarrow>
          (case l_quotas l tenant of
             None \<Rightarrow> (l, empty_Reservation, Some ''quota not configured'')
           | Some q \<Rightarrow>
               (let l = expireLocked now ks l; u = currentUsageLocked tenant now l in
                if i64 (i64 (us_DailyUsed u + us_Reserved u) + amount) > qu_DailyLimit q
                  then (l, empty_Reservation, Some ''daily quota exceeded'')
                else if i64 (i64 (us_MonthlyUsed u + us_Reserved u) + amount) > qu_MonthlyLimit q
                  then (l, empty_Reservation, Some ''monthly quota exceeded'')
                else if i64 (us_Reserved u + amount) > qu_BurstLimit q
                  then (l, empty_Reservation, Some ''burst quota exceeded'')
                else
                  let r = \<lparr>rs_ID = rid, rs_TenantID = tenant, rs_Amount = amount, rs_CreatedAt = now,
                           rs_ExpiresAt = now + ttl, rs_Committed = False\<rparr>;
                      u = u\<lparr>us_Reserved := i64 (us_Reserved u + amount), us_LastModified := now\<rparr>
                  in (l\<lparr>l_usage := (l_usage l)(tenant \<mapsto> u), l_reservations := (l_reservations l)(rid \<mapsto> r)\<rparr>, r, None))))"

definition Commit :: "time \<Rightarrow> string \<Rightarrow> Ledger \<Rightarrow> Ledger \<times> go_error option" where
  "Commit now rid l =
     (case l_reservations l rid of
        None \<Rightarrow> (l, Some ''reservation not found'')
      | Some r \<Rightarrow>
          if rs_Committed r then (l, None)
          else if now > rs_ExpiresAt r then (releaseLocked r now l, Some ''reservation expired'')
          else
            let u = currentUsageLocked (rs_TenantID r) now l;
                u = u\<lparr>us_Reserved := i64 (us_Reserved u - rs_Amount r),
                      us_DailyUsed := i64 (us_DailyUsed u + rs_Amount r),
                      us_MonthlyUsed := i64 (us_MonthlyUsed u + rs_Amount r),
                      us_Committed := i64 (us_Committed u + rs_Amount r),
                      us_LastModified := now\<rparr>
            in (l\<lparr>l_usage := (l_usage l)(rs_TenantID r \<mapsto> u),
                  l_reservations := (l_reservations l)(rid \<mapsto> r\<lparr>rs_Committed := True\<rparr>)\<rparr>, None))"

definition Rollback :: "time \<Rightarrow> string \<Rightarrow> Ledger \<Rightarrow> Ledger \<times> go_error option" where
  "Rollback now rid l =
     (case l_reservations l rid of
        None \<Rightarrow> (l, Some ''reservation not found'')
      | Some r \<Rightarrow>
          if rs_Committed r then (l, Some ''committed reservation cannot be rolled back'')
          else (releaseLocked r now l, None))"

definition Ledger_Usage :: "time \<Rightarrow> string list \<Rightarrow> string \<Rightarrow> Ledger \<Rightarrow> Ledger \<times> Usage" where
  "Ledger_Usage now ks tenant l =
     (let l = expireLocked now ks l in (l, currentUsageLocked tenant now l))"

lemma calendar_examples:
  "Format_day (time_Unix 0) = ''1970-01-01''" "Format_day (time_Unix 1709251199) = ''2024-02-29''"
  "Format_month (time_Unix 1735689599) = ''2024-12''"
  by code_simp+

section \<open>Open reservations\<close>

definition map_total :: "('v option \<Rightarrow> int) \<Rightarrow> ('k \<rightharpoonup> 'v) \<Rightarrow> int" where
  "map_total h m = (\<Sum>k \<in> dom m. h (m k))"

lemma map_total_upd:
  assumes "finite (dom m)" "h None = 0"
  shows "map_total h (m(k := x)) = map_total h m - h (m k) + h x"
proof -
  have ext: "map_total h m' = (\<Sum>j \<in> insert k (dom m). h (m' j))" if "dom m' \<subseteq> insert k (dom m)" for m'
    unfolding map_total_def
  proof (rule sum.mono_neutral_left)
    show "\<forall>j \<in> insert k (dom m) - dom m'. h (m' j) = 0"
      using assms(2) by (simp add: domIff)
  qed (use assms(1) that in auto)
  have "map_total h (m(k := x)) = (\<Sum>j \<in> insert k (dom m). h ((m(k := x)) j))" by (rule ext) auto
  also have "\<dots> = h x + (\<Sum>j \<in> dom m - {k}. h (m j))"
    using assms(1) by (simp add: sum.insert_remove)
  also have "\<dots> = h x - h (m k) + (\<Sum>j \<in> insert k (dom m). h (m j))"
    using assms(1) by (simp add: sum.insert_remove)
  also have "(\<Sum>j \<in> insert k (dom m). h (m j)) = map_total h m" by (rule ext [symmetric]) auto
  finally show ?thesis by linarith
qed

definition open_amount :: "string \<Rightarrow> Reservation option \<Rightarrow> int" where
  "open_amount t x =
     (case x of None \<Rightarrow> 0 | Some r \<Rightarrow> if \<not> rs_Committed r \<and> rs_TenantID r = t then rs_Amount r else 0)"

definition outstanding :: "Ledger \<Rightarrow> string \<Rightarrow> int" where
  "outstanding l t = map_total (open_amount t) (l_reservations l)"

lemma open_amount_None [simp]: "open_amount t None = 0"
  by (simp add: open_amount_def)

text \<open>
  Ceilings for the limits of the tenants: what the limits of a tenant never exceed, however they are raised and lowered.  Up to \<open>2 ^ 61\<close> the sums
  of the code stay within 64 bits.
\<close>

definition ceilings :: "(string \<Rightarrow> Quota) \<Rightarrow> bool" where
  "ceilings C \<longleftrightarrow> (\<forall>t. 0 \<le> qu_DailyLimit (C t) \<and> qu_DailyLimit (C t) \<le> 2 ^ 61 \<and> 0 \<le> qu_MonthlyLimit (C t) \<and> qu_MonthlyLimit (C t) \<le> 2 ^ 61 \<and>
     0 \<le> qu_BurstLimit (C t))"

definition below :: "Quota \<Rightarrow> Quota \<Rightarrow> bool" where
  "below q c \<longleftrightarrow> qu_DailyLimit q \<le> qu_DailyLimit c \<and> qu_MonthlyLimit q \<le> qu_MonthlyLimit c \<and> qu_BurstLimit q \<le> qu_BurstLimit c"

definition usage_ok :: "Quota \<Rightarrow> Usage \<Rightarrow> bool" where
  "usage_ok c u \<longleftrightarrow> 0 \<le> us_DailyUsed u \<and> 0 \<le> us_MonthlyUsed u \<and> 0 \<le> us_Reserved u \<and>
     us_DailyUsed u + us_Reserved u \<le> qu_DailyLimit c \<and> us_MonthlyUsed u + us_Reserved u \<le> qu_MonthlyLimit c \<and> us_Reserved u \<le> qu_BurstLimit c"

definition ledger_inv :: "(string \<Rightarrow> Quota) \<Rightarrow> Ledger \<Rightarrow> bool" where
  "ledger_inv C l \<longleftrightarrow>
     finite (dom (l_reservations l)) \<and>
     (\<forall>k r. l_reservations l k = Some r \<longrightarrow> rs_ID r = k \<and> 1 \<le> rs_Amount r) \<and>
     (\<forall>t. us_Reserved (usage_of l t) = outstanding l t) \<and>
     (\<forall>t. usage_ok (C t) (usage_of l t)) \<and> (\<forall>t q. l_quotas l t = Some q \<longrightarrow> below q (C t))"

lemma ledger_inv_New: "ceilings C \<Longrightarrow> ledger_inv C NewLedger"
  by (simp add: ceilings_def ledger_inv_def NewLedger_def usage_of_def empty_Usage_def outstanding_def map_total_def usage_ok_def)

lemma current_Reserved [simp]: "us_Reserved (currentUsageLocked t now l) = us_Reserved (usage_of l t)"
  by (simp add: currentUsageLocked_def Let_def)

lemma current_bounds:
  assumes "usage_ok c (usage_of l t)"
  shows "usage_ok c (currentUsageLocked t now l)"
    "us_DailyUsed (currentUsageLocked t now l) \<le> us_DailyUsed (usage_of l t)"
    "us_MonthlyUsed (currentUsageLocked t now l) \<le> us_MonthlyUsed (usage_of l t)"
  using assms by (auto simp: usage_ok_def currentUsageLocked_def Let_def)

lemma open_amount_nonneg:
  assumes "ledger_inv C l"
  shows "0 \<le> open_amount t (l_reservations l x)"
proof (cases "l_reservations l x")
  case (Some r)
  then have "1 \<le> rs_Amount r" using assms by (auto simp: ledger_inv_def)
  with Some show ?thesis by (simp add: open_amount_def)
qed (simp add: open_amount_def)

lemma outstanding_ge:
  assumes "ledger_inv C l" "l_reservations l k = Some r" "\<not> rs_Committed r"
  shows "rs_Amount r \<le> us_Reserved (usage_of l (rs_TenantID r))"
proof -
  have "open_amount (rs_TenantID r) (l_reservations l k) \<le> outstanding l (rs_TenantID r)"
    unfolding outstanding_def map_total_def
  proof (rule member_le_sum)
    show "k \<in> dom (l_reservations l)" "finite (dom (l_reservations l))" using assms by (auto simp: ledger_inv_def)
    fix x
    show "0 \<le> open_amount (rs_TenantID r) (l_reservations l x)" by (rule open_amount_nonneg [OF assms(1)])
  qed
  then show ?thesis using assms by (simp add: ledger_inv_def open_amount_def)
qed

text \<open>The range of the numbers in play, from the ceilings.\<close>

lemma usage_range:
  assumes "usage_ok (C t) u" "ceilings C"
  shows "0 \<le> us_Reserved u" "us_Reserved u \<le> 2 ^ 61" "0 \<le> us_DailyUsed u" "us_DailyUsed u \<le> 2 ^ 61"
    "0 \<le> us_MonthlyUsed u" "us_MonthlyUsed u \<le> 2 ^ 61"
proof -
  have "qu_DailyLimit (C t) \<le> 2 ^ 61" "qu_MonthlyLimit (C t) \<le> 2 ^ 61" using assms(2) by (simp_all add: ceilings_def)
  then show "0 \<le> us_Reserved u" "us_Reserved u \<le> 2 ^ 61" "0 \<le> us_DailyUsed u" "us_DailyUsed u \<le> 2 ^ 61"
    "0 \<le> us_MonthlyUsed u" "us_MonthlyUsed u \<le> 2 ^ 61"
    using assms(1) unfolding usage_ok_def by linarith+
qed

lemma releaseLocked_eq:
  assumes inv: "ledger_inv C l" and r: "l_reservations l (rs_ID r) = Some r" "\<not> rs_Committed r"
    and B: "ceilings C"
  shows "releaseLocked r now l =
    l\<lparr>l_usage := (l_usage l)(rs_TenantID r \<mapsto> (currentUsageLocked (rs_TenantID r) now l)
        \<lparr>us_Reserved := us_Reserved (usage_of l (rs_TenantID r)) - rs_Amount r, us_LastModified := now\<rparr>),
      l_reservations := (l_reservations l)(rs_ID r := None)\<rparr>"
proof -
  have ok: "usage_ok (C (rs_TenantID r)) (usage_of l (rs_TenantID r))" using inv by (simp add: ledger_inv_def)
  have "1 \<le> rs_Amount r" using inv r by (auto simp: ledger_inv_def)
  then have "in_i64 (us_Reserved (usage_of l (rs_TenantID r)) - rs_Amount r)"
    "0 \<le> us_Reserved (usage_of l (rs_TenantID r)) - rs_Amount r"
    using outstanding_ge [OF inv r] usage_range [OF ok B] by (auto simp: in_i64_def)
  then show ?thesis by (simp add: releaseLocked_def Let_def)
qed

lemma usage_of_upd [simp]:
  "usage_of (l\<lparr>l_usage := (l_usage l')(t \<mapsto> u), l_reservations := rs\<rparr>) t' = (if t' = t then u else usage_of l' t')"
  by (simp add: usage_of_def)

lemma outstanding_upd:
  "finite (dom m) \<Longrightarrow>
   outstanding (l\<lparr>l_usage := x, l_reservations := m(k := v)\<rparr>) t =
     map_total (open_amount t) m - open_amount t (m k) + open_amount t v"
  by (simp add: outstanding_def map_total_upd)

text \<open>
  One reservation and the usage record of one tenant change: what has to be checked to keep the
  invariant.
\<close>

lemma ledger_inv_upd:
  assumes inv: "ledger_inv C l"
    and own: "\<And>r. v = Some r \<Longrightarrow> rs_ID r = k \<and> 1 \<le> rs_Amount r"
    and other: "\<And>t'. t' \<noteq> t \<Longrightarrow> open_amount t' v = open_amount t' (l_reservations l k)"
    and res: "us_Reserved u = us_Reserved (usage_of l t) - open_amount t (l_reservations l k) + open_amount t v"
    and ok: "usage_ok (C t) u"
  shows "ledger_inv C (l\<lparr>l_usage := (l_usage l)(t \<mapsto> u), l_reservations := (l_reservations l)(k := v)\<rparr>)"
proof -
  let ?l = "l\<lparr>l_usage := (l_usage l)(t \<mapsto> u), l_reservations := (l_reservations l)(k := v)\<rparr>"
  have fin: "finite (dom (l_reservations l))" and sum: "us_Reserved (usage_of l t') = outstanding l t'" for t'
    using inv by (auto simp: ledger_inv_def)
  have "us_Reserved (usage_of ?l t') = outstanding ?l t'" for t'
    using sum [of t'] sum [of t] res other [of t'] fin
    by (simp add: outstanding_upd) (simp add: outstanding_def)
  moreover have "\<forall>j r. ((l_reservations l)(k := v)) j = Some r \<longrightarrow> rs_ID r = j \<and> 1 \<le> rs_Amount r"
    using inv own by (simp add: ledger_inv_def)
  moreover have "usage_ok (C t') (usage_of ?l t')" for t'
    using inv ok by (simp add: ledger_inv_def)
  moreover have "finite (dom ((l_reservations l)(k := v)))" using fin by (simp add: dom_fun_upd)
  moreover have "\<forall>t q. l_quotas l t = Some q \<longrightarrow> below q (C t)" using inv by (simp add: ledger_inv_def)
  ultimately show ?thesis by (simp add: ledger_inv_def)
qed

lemma releaseLocked_inv:
  assumes inv: "ledger_inv C l" and r: "l_reservations l (rs_ID r) = Some r" "\<not> rs_Committed r"
    and B: "ceilings C"
  shows "ledger_inv C (releaseLocked r now l)"
proof -
  let ?t = "rs_TenantID r"
  have fin: "finite (dom (l_reservations l))" using inv by (simp add: ledger_inv_def)
  have amt: "1 \<le> rs_Amount r" "rs_Amount r \<le> us_Reserved (usage_of l ?t)"
    using inv r outstanding_ge [OF inv r] by (auto simp: ledger_inv_def)
  have cur: "usage_ok (C ?t) (currentUsageLocked ?t now l)"
    using inv by (intro current_bounds) (simp add: ledger_inv_def)
  then have "usage_ok (C ?t) ((currentUsageLocked ?t now l)
      \<lparr>us_Reserved := us_Reserved (usage_of l ?t) - rs_Amount r, us_LastModified := now\<rparr>)"
    using amt by (auto simp: usage_ok_def split: option.splits)
  moreover have "open_amount t (Some r) = (if t = ?t then rs_Amount r else 0)" for t
    using r by (simp add: open_amount_def)
  ultimately show ?thesis
    unfolding releaseLocked_eq [OF inv r B] using inv r fin
    by (intro ledger_inv_upd) (simp_all add: usage_of_upd)
qed

lemma releaseLocked_frame [simp]:
  "l_quotas (releaseLocked r now l) = l_quotas l"
  "l_reservations (releaseLocked r now l) = (l_reservations l)(rs_ID r := None)"
  by (simp_all add: releaseLocked_def Let_def)

lemma expireLocked_inv:
  assumes "ledger_inv C l" "ceilings C"
  shows "ledger_inv C (expireLocked now ks l) \<and> l_quotas (expireLocked now ks l) = l_quotas l"
  using assms(1)
proof (induction ks arbitrary: l)
  case (Cons k ks)
  show ?case
  proof (cases "l_reservations l k")
    case (Some r)
    then have "rs_ID r = k" using Cons.prems by (simp add: ledger_inv_def)
    then show ?thesis
      using Cons Some releaseLocked_inv [of C l r now] assms(2) by simp
  qed (use Cons in simp)
qed simp

lemma expireLocked_subset: "l_reservations (expireLocked now ks l) \<subseteq>\<^sub>m l_reservations l"
proof (induction ks arbitrary: l)
  case (Cons k ks)
  have le: "l_reservations (expireLocked now ks (releaseLocked r now l)) \<subseteq>\<^sub>m l_reservations l" for r
    by (rule map_le_trans [OF Cons]) (auto simp: map_le_def domIff)
  show ?case using le Cons by (simp split: option.splits)
qed simp

text \<open>The loop releases exactly the open reservations that are past their time.\<close>

definition lapsed :: "time \<Rightarrow> Reservation \<Rightarrow> bool" where
  "lapsed now r \<longleftrightarrow> \<not> rs_Committed r \<and> now > rs_ExpiresAt r"

definition live :: "time \<Rightarrow> Ledger \<Rightarrow> string \<rightharpoonup> Reservation" where
  "live now l k = (case l_reservations l k of None \<Rightarrow> None | Some r \<Rightarrow> if lapsed now r then None else Some r)"

lemma expireLocked_lookup:
  assumes "\<And>k r. l_reservations l k = Some r \<Longrightarrow> rs_ID r = k"
  shows "l_reservations (expireLocked now ks l) k = (if k \<in> set ks then live now l k else l_reservations l k)"
  using assms
proof (induction ks arbitrary: l)
  case (Cons j ks)
  show ?case
  proof (cases "l_reservations l j")
    case None
    with Cons show ?thesis by (simp add: live_def)
  next
    case (Some r)
    then have id: "rs_ID r = j" by (rule Cons.prems)
    have "l_reservations (expireLocked now ks (releaseLocked r now l)) k =
        (if k \<in> set ks then live now (releaseLocked r now l) k else l_reservations (releaseLocked r now l) k)"
      by (rule Cons.IH) (auto simp: Cons.prems split: if_splits)
    with Cons Some id show ?thesis by (auto simp: live_def lapsed_def)
  qed
qed simp

lemma expireLocked_live:
  assumes "\<And>k r. l_reservations l k = Some r \<Longrightarrow> rs_ID r = k" "iteration_order (l_reservations l) ks"
  shows "l_reservations (expireLocked now ks l) = live now l"
proof
  fix k
  show "l_reservations (expireLocked now ks l) k = live now l k"
    using expireLocked_lookup [OF assms(1), where now = now and ks = ks and k = k] assms(2)
    by (cases "l_reservations l k") (auto simp: iteration_order_def live_def)
qed

section \<open>The invariant of the operations\<close>

lemma sum3_range:
  assumes "0 \<le> a" "a \<le> 2 ^ 61" "0 \<le> b" "b \<le> 2 ^ 61" "0 \<le> c" "c \<le> (2 ^ 61 :: int)"
  shows "in_i64 (a + b + c)" "in_i64 (a + b)" "in_i64 (b + c)"
  using assms by (simp_all add: in_i64_def)

definition fits :: "Quota \<Rightarrow> Usage \<Rightarrow> int \<Rightarrow> bool" where
  "fits q u n \<longleftrightarrow> us_DailyUsed u + us_Reserved u + n \<le> qu_DailyLimit q \<and>
     us_MonthlyUsed u + us_Reserved u + n \<le> qu_MonthlyLimit q \<and> us_Reserved u + n \<le> qu_BurstLimit q"

definition granted :: "string \<Rightarrow> string \<Rightarrow> int \<Rightarrow> duration \<Rightarrow> time \<Rightarrow> Reservation" where
  "granted rid tenant amount ttl now =
     \<lparr>rs_ID = rid, rs_TenantID = tenant, rs_Amount = amount, rs_CreatedAt = now,
      rs_ExpiresAt = now + ttl, rs_Committed = False\<rparr>"

text \<open>Within the range, a new reservation is decided by the true sums.\<close>

lemma Reserve_new:
  assumes inv: "ledger_inv C l" and B: "ceilings C" and n: "1 \<le> n" "n \<le> 2 ^ 61"
    and new: "rid \<noteq> []" "t \<noteq> []" "l_reservations l rid = None" and q: "l_quotas l t = Some q"
  shows "let l' = expireLocked now ks l; u = currentUsageLocked t now l';
             out = Reserve now ks rid t n ttl l
         in if fits q u n
            then out = (l'\<lparr>l_usage := (l_usage l')(t \<mapsto> u\<lparr>us_Reserved := us_Reserved u + n, us_LastModified := now\<rparr>),
                           l_reservations := (l_reservations l')(rid \<mapsto> granted rid t n ttl now)\<rparr>,
                        granted rid t n ttl now, None)
            else fst out = l' \<and> snd (snd out) \<in> {Some ''daily quota exceeded'', Some ''monthly quota exceeded'', Some ''burst quota exceeded''}"
proof -
  define l' where "l' = expireLocked now ks l"
  define u where "u = currentUsageLocked t now l'"
  have "ledger_inv C l'" "l_quotas l' t = Some q" using expireLocked_inv [OF inv B] q by (simp_all add: l'_def)
  then have ok: "usage_ok (C t) u"
    unfolding u_def ledger_inv_def by (metis current_bounds(1))
  note r = usage_range [OF ok B]
  have n': "0 \<le> n" "n \<le> 2 ^ 61" using n by auto
  note sums = sum3_range [OF r(3,4) r(1,2) n'] sum3_range [OF r(5,6) r(1,2) n']
  have "\<not> n < 1" using n by simp
  then show ?thesis
    unfolding Let_def l'_def [symmetric] u_def [symmetric]
    using new q by (simp add: Reserve_def Let_def l'_def [symmetric] u_def [symmetric] sums fits_def granted_def
      del: current_Reserved)
qed

lemma Reserve_inv:
  assumes inv: "ledger_inv C l" and B: "ceilings C" and n: "n \<le> 2 ^ 61"
  shows "ledger_inv C (fst (Reserve now ks rid t n ttl l))"
proof (cases "rid = [] \<or> t = [] \<or> n < 1 \<or> l_reservations l rid \<noteq> None \<or> l_quotas l t = None")
  case True
  then show ?thesis using inv by (auto simp: Reserve_def split: option.splits)
next
  case False
  then obtain q where q: "l_quotas l t = Some q" and new: "rid \<noteq> []" "t \<noteq> []" "l_reservations l rid = None" "1 \<le> n"
    by auto
  define l' where "l' = expireLocked now ks l"
  define u where "u = currentUsageLocked t now l'"
  have inv': "ledger_inv C l'" and q': "l_quotas l' t = Some q" using expireLocked_inv [OF inv B] q by (simp_all add: l'_def)
  then have ok: "usage_ok (C t) u"
    unfolding u_def ledger_inv_def by (metis current_bounds(1))
  have "below q (C t)" using inv' q' by (simp add: ledger_inv_def)
  have none: "l_reservations l' rid = None"
    using expireLocked_subset [of now ks l] new(3) unfolding l'_def map_le_def by (metis domIff)
  note R = Reserve_new [OF inv B new(4) n new(1-3) q, unfolded Let_def, where now = now and ks = ks and ttl = ttl,
      folded l'_def, folded u_def]
  show ?thesis
  proof (cases "fits q u n")
    case True
    have "ledger_inv C (l'\<lparr>l_usage := (l_usage l')(t \<mapsto> u\<lparr>us_Reserved := us_Reserved u + n, us_LastModified := now\<rparr>),
        l_reservations := (l_reservations l')(rid \<mapsto> granted rid t n ttl now)\<rparr>)"
      using ok new(4) True q' none \<open>below q (C t)\<close>
      by (intro ledger_inv_upd [OF inv']) (auto simp: granted_def open_amount_def u_def usage_ok_def fits_def below_def)
    with R True show ?thesis by simp
  next
    case False
    with R inv' show ?thesis by simp
  qed
qed

lemma Commit_inv:
  assumes inv: "ledger_inv C l" and B: "ceilings C"
  shows "ledger_inv C (fst (Commit now rid l))"
proof (cases "l_reservations l rid")
  case None
  then show ?thesis using inv by (simp add: Commit_def)
next
  case (Some r)
  then have id: "rs_ID r = rid" and amt: "1 \<le> rs_Amount r" using inv by (auto simp: ledger_inv_def)
  let ?t = "rs_TenantID r"
  define u where "u = currentUsageLocked ?t now l"
  have ok: "usage_ok (C ?t) u"
    unfolding u_def using inv by (intro current_bounds) (simp add: ledger_inv_def)
  note R = usage_range [OF ok B]
  show ?thesis
  proof (cases "rs_Committed r \<or> now > rs_ExpiresAt r")
    case True
    then show ?thesis using inv Some id releaseLocked_inv [OF inv _ _ B, of r] by (auto simp: Commit_def)
  next
    case False
    then have le: "rs_Amount r \<le> us_Reserved u" using outstanding_ge [OF inv Some] by (simp add: u_def)
    have wrap: "i64 (us_Reserved u - rs_Amount r) = us_Reserved u - rs_Amount r"
      "i64 (us_DailyUsed u + rs_Amount r) = us_DailyUsed u + rs_Amount r"
      "i64 (us_MonthlyUsed u + rs_Amount r) = us_MonthlyUsed u + rs_Amount r"
      using R le amt by (simp_all add: in_i64_def)
    have "ledger_inv C (l\<lparr>l_usage := (l_usage l)(?t \<mapsto> u\<lparr>us_Reserved := us_Reserved u - rs_Amount r,
        us_DailyUsed := us_DailyUsed u + rs_Amount r, us_MonthlyUsed := us_MonthlyUsed u + rs_Amount r,
        us_Committed := i64 (us_Committed u + rs_Amount r), us_LastModified := now\<rparr>),
        l_reservations := (l_reservations l)(rid \<mapsto> r\<lparr>rs_Committed := True\<rparr>)\<rparr>)"
      using ok amt le False id Some
      by (intro ledger_inv_upd [OF inv])
        (auto simp: open_amount_def u_def usage_ok_def split: option.splits)
    with Some False show ?thesis by (simp add: Commit_def Let_def u_def [symmetric] wrap)
  qed
qed

lemma Rollback_inv:
  assumes inv: "ledger_inv C l" and B: "ceilings C"
  shows "ledger_inv C (fst (Rollback now rid l))"
proof (cases "l_reservations l rid")
  case (Some r)
  then have "rs_ID r = rid" using inv by (auto simp: ledger_inv_def)
  with Some show ?thesis using inv releaseLocked_inv [OF inv _ _ B, of r] by (auto simp: Rollback_def)
qed (use inv in \<open>simp add: Rollback_def\<close>)

lemma Configure_inv:
  assumes inv: "ledger_inv C l" and q: "below q (C (qu_TenantID q))"
  shows "ledger_inv C (fst (Configure now q l))"
proof -
  have "below (q\<lparr>qu_UpdatedAt := now\<rparr>) (C (qu_TenantID q))" using q by (simp add: below_def)
  with inv show ?thesis by (auto simp: Configure_def ledger_inv_def usage_of_def outstanding_def)
qed

section \<open>The ledger as a transition system\<close>

text \<open>
  The steps are the public methods, each atomic under the mutex.  Two assumptions on the callers: no limit of a tenant exceeds its
  ceiling, and no amount exceeds \<open>2 ^ 61\<close>.  Limits may be lowered, also below what is in use.
\<close>

inductive ledger_step :: "(string \<Rightarrow> Quota) \<Rightarrow> Ledger \<Rightarrow> Ledger \<Rightarrow> bool" for C where
  configure: "below q (C (qu_TenantID q)) \<Longrightarrow> ledger_step C l (fst (Configure now q l))"
| reserve: "iteration_order (l_reservations l) ks \<Longrightarrow> amount \<le> 2 ^ 61 \<Longrightarrow>
    ledger_step C l (fst (Reserve now ks rid tenant amount ttl l))"
| commit: "ledger_step C l (fst (Commit now rid l))"
| rollback: "ledger_step C l (fst (Rollback now rid l))"
| usage: "iteration_order (l_reservations l) ks \<Longrightarrow> ledger_step C l (fst (Ledger_Usage now ks tenant l))"

lemma ledger_step_inv:
  assumes "ledger_step C l l'" "ledger_inv C l" "ceilings C"
  shows "ledger_inv C l'"
  using assms
proof (cases rule: ledger_step.cases)
  case (usage ks now tenant)
  then show ?thesis using expireLocked_inv [OF assms(2,3)] by (simp add: Ledger_Usage_def Let_def)
qed (auto intro: Configure_inv Reserve_inv Commit_inv Rollback_inv)

lemma ledger_steps_inv: "(ledger_step C)\<^sup>*\<^sup>* NewLedger l \<Longrightarrow> ceilings C \<Longrightarrow> ledger_inv C l"
  by (induction rule: rtranclp_induct) (auto dest: ledger_step_inv intro: ledger_inv_New)

section \<open>Properties\<close>

text \<open>C38: After any sequence of calls on a new ledger in which no amount exceeds \<open>2 ^ 61\<close> and the limits of a tenant, however they are raised and
  lowered, never exceed some ceilings (daily and monthly ones of at most \<open>2 ^ 61\<close>), what the tenant holds reserved is exactly
  the sum of its open reservations, and used plus reserved units do not exceed the daily and the monthly ceiling, nor the reserved ones
  the burst ceiling.  For a tenant whose limits are never lowered the ceilings are its limits.\<close>

theorem ledger_within_quota:
  assumes "(ledger_step C)\<^sup>*\<^sup>* NewLedger l" "ceilings C"
  shows "let u = currentUsageLocked tenant now l in
         us_Reserved u = outstanding l tenant \<and> 0 \<le> us_Reserved u \<and>
         us_DailyUsed u + us_Reserved u \<le> qu_DailyLimit (C tenant) \<and>
         us_MonthlyUsed u + us_Reserved u \<le> qu_MonthlyLimit (C tenant) \<and> us_Reserved u \<le> qu_BurstLimit (C tenant)"
proof -
  have inv: "ledger_inv C l" using ledger_steps_inv [OF assms] .
  then have "usage_ok (C tenant) (currentUsageLocked tenant now l)" unfolding ledger_inv_def by (metis current_bounds(1))
  with inv show ?thesis by (simp add: Let_def usage_ok_def ledger_inv_def)
qed

definition sample_quota :: Quota where
  "sample_quota = \<lparr>qu_TenantID = ''t'', qu_DailyLimit = 100, qu_MonthlyLimit = 1000, qu_BurstLimit = 10, qu_UpdatedAt = 0\<rparr>"

definition sample_ledger :: Ledger where
  "sample_ledger = fst (Configure 7 sample_quota NewLedger)"

lemma sample_ledger_simps [simp]:
  "l_quotas sample_ledger ''t'' = Some (sample_quota\<lparr>qu_UpdatedAt := 7\<rparr>)"
  "l_reservations sample_ledger = Map.empty" "l_usage sample_ledger = Map.empty"
  by (simp_all add: sample_ledger_def Configure_def sample_quota_def NewLedger_def)

abbreviation sample_ceilings :: "string \<Rightarrow> Quota" where
  "sample_ceilings \<equiv> (\<lambda>_. sample_quota)"

lemma sample_ledger_steps: "(ledger_step sample_ceilings)\<^sup>*\<^sup>* NewLedger sample_ledger" "ceilings sample_ceilings"
proof -
  have "ledger_step sample_ceilings NewLedger sample_ledger"
    unfolding sample_ledger_def by (rule configure) (simp add: below_def)
  then show "(ledger_step sample_ceilings)\<^sup>*\<^sup>* NewLedger sample_ledger" by simp
  show "ceilings sample_ceilings" by (simp add: ceilings_def sample_quota_def)
qed

lemma sample_ledger_inv: "ledger_inv sample_ceilings sample_ledger"
  by (rule ledger_steps_inv [OF sample_ledger_steps])

theorem ledger_within_quota_witness:
  "us_Reserved (currentUsageLocked ''t'' 9 sample_ledger) = outstanding sample_ledger ''t'' \<and> us_Reserved (currentUsageLocked ''t'' 9 sample_ledger) \<le> 10"
  using ledger_within_quota [OF sample_ledger_steps, of "''t''" 9] by (simp add: Let_def sample_quota_def)

text \<open>C39: On a ledger that was reached with amounts, daily and monthly limits of at most \<open>2 ^ 61\<close>, a fresh reservation of at most \<open>2 ^ 61\<close>
  units is granted exactly when it fits: the units the tenant has used in the current
  day and month, plus those of its reservations that have not lapsed, plus the requested ones, stay within the
  three limits as they are now configured.  Lapsed reservations are released first whatever the outcome, and an admitted one
  is stored under its id with its deadline.\<close>

theorem Reserve_grants_iff_fits:
  assumes "(ledger_step C)\<^sup>*\<^sup>* NewLedger l" "ceilings C" "1 \<le> n" "n \<le> 2 ^ 61" "iteration_order (l_reservations l) ks"
    and "rid \<noteq> []" "t \<noteq> []" "l_reservations l rid = None" "l_quotas l t = Some q"
  shows "case Reserve now ks rid t n ttl l of (l', r, err) \<Rightarrow>
     (err = None \<longleftrightarrow>
        (let used = currentUsageLocked t now (expireLocked now ks l); held = map_total (open_amount t) (live now l) in
         us_DailyUsed used + held + n \<le> qu_DailyLimit q \<and> us_MonthlyUsed used + held + n \<le> qu_MonthlyLimit q \<and>
         held + n \<le> qu_BurstLimit q)) \<and>
     (if err = None
      then r = granted rid t n ttl now \<and> l_reservations l' = (live now l)(rid \<mapsto> r) \<and> outstanding l' t = map_total (open_amount t) (live now l) + n
      else l_reservations l' = live now l)"
proof -
  define l' where "l' = expireLocked now ks l"
  have inv0: "ledger_inv C l" by (rule ledger_steps_inv [OF assms(1,2)])
  then have "rs_ID r = k" if "l_reservations l k = Some r" for k r
    using that by (simp add: ledger_inv_def)
  then have lv: "l_reservations l' = live now l" unfolding l'_def by (rule expireLocked_live [OF _ assms(5)])
  have inv: "ledger_inv C l'" using expireLocked_inv [OF inv0 assms(2)] by (simp add: l'_def)
  then have held: "us_Reserved (usage_of l' t) = map_total (open_amount t) (live now l)"
    by (simp add: ledger_inv_def outstanding_def lv)
  have fin: "finite (dom (live now l))" using inv by (simp add: ledger_inv_def lv)
  have none: "live now l rid = None" using assms(8) by (simp add: live_def)
  show ?thesis
    using Reserve_new [OF inv0 assms(2-4,6-9), where now = now and ks = ks and ttl = ttl, folded l'_def]
      held fin none
    unfolding l'_def [symmetric]
    by (auto simp: Let_def fits_def lv outstanding_upd granted_def open_amount_def split: if_splits prod.splits)
qed

theorem Reserve_grants_iff_fits_witness:
  "(case Reserve 9 [] ''r1'' ''t'' 5 60 sample_ledger of (l', r, err) \<Rightarrow> err = None \<and> outstanding l' ''t'' = 5) \<and>
   snd (snd (Reserve 9 [] ''r1'' ''t'' 11 60 sample_ledger)) \<noteq> None"
proof -
  have lv: "live 9 sample_ledger = Map.empty" by (rule ext) (simp add: live_def)
  have 0: "map_total (open_amount ''t'') (live 9 sample_ledger) = 0" by (simp add: lv map_total_def)
  have u: "us_DailyUsed (currentUsageLocked ''t'' 9 sample_ledger) = 0" "us_MonthlyUsed (currentUsageLocked ''t'' 9 sample_ledger) = 0"
    by (simp_all add: currentUsageLocked_def usage_of_def empty_Usage_def Let_def)
  show ?thesis
    using Reserve_grants_iff_fits [OF sample_ledger_steps, where n = 5 and ks = "[]" and rid = "''r1''" and t = "''t''" and now = 9 and ttl = 60]
      Reserve_grants_iff_fits [OF sample_ledger_steps, where n = 11 and ks = "[]" and rid = "''r1''" and t = "''t''" and now = 9 and ttl = 60]
    by (simp add: iteration_order_def 0 u sample_quota_def Let_def split: prod.splits if_splits)
qed

text \<open>C40: The sums are not guarded against overflow: a tenant that already holds a unit is granted a
  reservation of the largest 64-bit amount, whatever its limits, and its reserved count turns negative.\<close>

theorem Reserve_overflow_bypasses_quota:
  assumes "rid \<noteq> []" "t \<noteq> []" "l_reservations l rid = None" "l_quotas l t = Some q"
    and "1 \<le> qu_DailyLimit q" "qu_DailyLimit q \<le> qu_MonthlyLimit q" "1 \<le> qu_BurstLimit q"
    and "ledger_inv C (expireLocked now ks l)" "ceilings C"
    and "1 \<le> us_Reserved (usage_of (expireLocked now ks l) t)"
  shows "case Reserve now ks rid t max_i64 ttl l of (l', r, err) \<Rightarrow>
           err = None \<and> rs_Amount r = max_i64 \<and> us_Reserved (usage_of l' t) < 0"
proof -
  define l' where "l' = expireLocked now ks l"
  define u where "u = currentUsageLocked t now l'"
  have "usage_ok (C t) u" unfolding u_def using assms(8)
    by (intro current_bounds) (simp add: ledger_inv_def l'_def)
  note R = usage_range [OF this assms(9)]
  have one: "1 \<le> us_Reserved u" using assms(10) by (simp add: u_def l'_def)
  have wrap: "i64 (x + max_i64) < 0" if "1 \<le> x" "x \<le> 2 ^ 62" for x
  proof -
    have "i64 (x + max_i64) = i64 (x + max_i64 - 2 ^ 64)" by (simp only: i64_minus_period)
    also have "\<dots> = x + max_i64 - 2 ^ 64" using that by (simp add: max_i64_def in_i64_def)
    finally show ?thesis using that by (simp add: max_i64_def)
  qed
  have "i64 (us_DailyUsed u + us_Reserved u) = us_DailyUsed u + us_Reserved u"
    "i64 (us_MonthlyUsed u + us_Reserved u) = us_MonthlyUsed u + us_Reserved u"
    using R by (simp_all add: in_i64_def)
  then have "i64 (i64 (us_DailyUsed u + us_Reserved u) + max_i64) < 0" "i64 (i64 (us_MonthlyUsed u + us_Reserved u) + max_i64) < 0"
    "i64 (us_Reserved u + max_i64) < 0"
    using R one wrap by simp_all
  then show ?thesis
    using assms(1-7)
    by (simp add: Reserve_def Let_def l'_def [symmetric] u_def [symmetric] max_i64_def del: current_Reserved)
qed

definition held_ledger :: Ledger where
  "held_ledger = fst (Reserve 9 [] ''r1'' ''t'' 1 60 sample_ledger)"

theorem Reserve_overflow_bypasses_quota_witness:
  "snd (snd (Reserve 10 [''r1''] ''r2'' ''t'' max_i64 60 held_ledger)) = None"
proof -
  have inv: "ledger_inv sample_ceilings held_ledger"
    unfolding held_ledger_def by (rule Reserve_inv [OF sample_ledger_inv sample_ledger_steps(2)]) simp
  have u: "usage_of sample_ledger ''t'' = empty_Usage" by (simp add: usage_of_def)
  have "currentUsageLocked ''t'' 9 sample_ledger = \<lparr>us_TenantID = ''t'', us_Day = Format_day 9, us_Month = Format_month 9,
      us_DailyUsed = 0, us_MonthlyUsed = 0, us_Reserved = 0, us_Committed = 0, us_LastModified = 0\<rparr>"
    by (auto simp: currentUsageLocked_def u empty_Usage_def Let_def)
  then have held: "l_reservations held_ledger = [''r1'' \<mapsto> granted ''r1'' ''t'' 1 60 9]"
    "l_quotas held_ledger ''t'' = Some (sample_quota\<lparr>qu_UpdatedAt := 7\<rparr>)" "us_Reserved (usage_of held_ledger ''t'') = 1"
    by (simp_all add: held_ledger_def Reserve_def sample_quota_def i64_def granted_def usage_of_def Let_def del: current_Reserved)
  then have "expireLocked 10 [''r1''] held_ledger = held_ledger" by (simp add: granted_def)
  then show ?thesis
    using Reserve_overflow_bypasses_quota [where l = held_ledger and rid = "''r2''" and t = "''t''"
        and q = "sample_quota\<lparr>qu_UpdatedAt := 7\<rparr>" and C = sample_ceilings and now = 10 and ks = "[''r1'']" and ttl = 60]
      held inv sample_ledger_steps(2) by (simp add: sample_quota_def split: prod.splits)
qed

text \<open>
  A known id returns what is stored, whoever asks and whether or not it has lapsed; a commit moves
  the units from reserved to used, and a rollback gives them back.
\<close>

lemma Reserve_known_id:
  "rid \<noteq> [] \<Longrightarrow> t \<noteq> [] \<Longrightarrow> 1 \<le> n \<Longrightarrow> l_reservations l rid = Some r \<Longrightarrow> Reserve now ks rid t n ttl l = (l, r, None)"
  by (simp add: Reserve_def)

lemma Rollback_frees:
  assumes inv: "ledger_inv C l" and B: "ceilings C"
    and r: "l_reservations l rid = Some r" "\<not> rs_Committed r"
  shows "snd (Rollback now rid l) = None"
    "l_reservations (fst (Rollback now rid l)) = (l_reservations l)(rid := None)"
    "outstanding (fst (Rollback now rid l)) (rs_TenantID r) = outstanding l (rs_TenantID r) - rs_Amount r"
proof -
  have id: "rs_ID r = rid" "finite (dom (l_reservations l))" using inv r by (auto simp: ledger_inv_def)
  show "snd (Rollback now rid l) = None" "l_reservations (fst (Rollback now rid l)) = (l_reservations l)(rid := None)"
    using r id by (simp_all add: Rollback_def)
  then show "outstanding (fst (Rollback now rid l)) (rs_TenantID r) = outstanding l (rs_TenantID r) - rs_Amount r"
    using r id by (simp add: outstanding_def map_total_upd open_amount_def)
qed

end
