(* ===== verification/Spec2Isabelle.thy ===== *)
theory Spec2Isabelle
  imports API_Runs Main_Exit Logging Config_Loader Metrics Provider_Registry Routing_Policy Quota_Ledger
begin

text \<open>
  Verification of the multichannel notification platform, a Go service under \<open>src/\<close>.

  \<^bold>\<open>The program.\<close>  Clients submit notifications (email, SMS, webhook, push) over HTTP.  The application service validates them, refuses suppressed
  targets, stores them once per tenant and idempotency key and puts those that are due into a bounded priority queue.  Workers take them out, respect
  their schedule, their expiry and a token bucket, claim them in the store by a version check, choose a provider behind
  a circuit breaker, send, and store the outcome; a failed attempt comes back by a timer with an exponential delay until the attempts are used up.
  Providers report delivery by receipts, which change the stored status.  Beside this path there are templates, routing
  policies, a registry of provider configurations, a quota ledger, a delay queue, metrics and the configuration.

  \<^bold>\<open>Theories and sources.\<close>
  \<^item> \<open>Go_Prelude\<close>, \<open>Go_Strconv\<close>, \<open>Go_Float\<close>, \<open>Go_Heap\<close>: what the program uses of the language and its library: strings, time, 64-bit integers with
    wrap-around, sorting, number and duration parsing, \<open>float64\<close> rounding, \<open>container/heap\<close>.
  \<^item> \<open>Notification_Domain\<close>: \<open>notification/domain/models.go\<close>; \<open>Validate\<close> and the status machine of \<open>Transition\<close>.
  \<^item> \<open>Priority_Queue\<close>: \<open>queue/priority.go\<close> and \<open>queue/delay.go\<close>, two heaps behind the interface \<open>bounded_pqueue\<close>.
  \<^item> \<open>Security\<close>: \<open>security/security.go\<close>; hashing, signatures, redaction.
  \<^item> \<open>Optimistic_Concurrency\<close>: the interface \<open>versioned\<close>, interpreted by the store and by the registry.
  \<^item> \<open>Store_Repository\<close>: \<open>repository/store.go\<close>; the record \<open>Store\<close> has the path, the snapshot in memory and the disk.
  \<^item> \<open>Receipt_Service\<close>: \<open>receipt/service.go\<close>.
  \<^item> \<open>Quota_Ledger\<close>, \<open>Token_Bucket\<close>: \<open>rate/quota.go\<close>, \<open>rate/limiter.go\<close>.
  \<^item> \<open>Provider\<close>, \<open>Provider_Registry\<close>: \<open>provider/provider.go\<close> (interface \<open>sender\<close>), \<open>provider/registry.go\<close>.
  \<^item> \<open>Circuit_Router\<close>, \<open>Routing_Policy\<close>: \<open>routing/router.go\<close>, \<open>routing/policy.go\<close>.
  \<^item> \<open>Application_Service\<close>: \<open>application/service.go\<close>.
  \<^item> \<open>Dispatcher\<close>: \<open>worker/dispatcher.go\<close>, cut into its segments between two accesses to shared state; \<open>Worker_Loop\<close>: the loop of one worker over many
    rounds; \<open>Platform\<close>: the interleaving of any number of workers with the API, receipts and timers as a step relation.
  \<^item> \<open>Main_Exit\<close>: how the programs of \<open>cmd/\<close> end: signals, the wait for the workers, the last statements of \<open>main\<close>.
  \<^item> \<open>Template_Service\<close>, \<open>Metrics\<close>, \<open>Logging\<close>, \<open>Config_Loader\<close>: \<open>template/service.go\<close>, \<open>observability/metrics.go\<close>,
    \<open>observability/logger.go\<close>, \<open>config/config.go\<close>.
  \<^item> \<open>HTTP_API\<close>: \<open>transport/httpapi/server.go\<close> with the routes of \<open>http.ServeMux\<close>; \<open>API_Runs\<close>: requests as runs of the platform.
  \<^item> this theory: the start of the two programs in \<open>cmd/\<close> and the properties of the whole.

  \<^bold>\<open>Correspondence.\<close>  A Go struct is a record whose fields carry a short prefix, an operation is a function of the same name (with the type as
  prefix where two packages share a name) from the state to the new state and the results; \<open>(T, error)\<close> is a pair with \<open>None\<close> for
  \<open>nil\<close>, an error is its message, a run-time panic is a value of its own.  Each operation that holds a mutex is one
  step.  Clock readings, random bytes, the order of map iterations and the outcomes of system calls are arguments, so the
  theorems hold for all of them.

  \<^bold>\<open>What is shown.\<close>
  \<^item> The whole (this theory, \<open>Platform\<close>, \<open>API_Runs\<close>): after a start from a consistent file, in every interleaving of HTTP requests, receipts, timers and workers in which
    the clients keep to \<open>request_ok\<close> (see below), a notification is sent at most as often as configured and has at most one copy in flight; a canceled one that is not claimed is
    never sent; a due submission is accepted by the next round of a worker; after a restart what was waiting is sent once each.  Once the context is
    done the API process ends, in a number of steps that the queue, the workers and the steps from outside bound, with no delivery cut off.  A
    claimed notification that is paused is sent again (a defect of \<open>retry\<close>).
  \<^item> Submission and API: idempotent submission, suppression by what the data file lists, resubmission over HTTP, GET without effect, reading what was created; that receipts
    are not authenticated and that suppressions entered over HTTP have no effect (defects of the code).
  \<^item> Delivery: an undisturbed worker sends in the order of the queue; a notification whose sends all fail is sent up to the maximum and then failed; a loop
    whose context is done returns after working off the queue; the outcome of a failing delivery on both branches, the life of a circuit, the bound on what the token bucket
    grants up to the rounding of \<open>float64\<close>.
  \<^item> Data: validation accepts exactly the well-formed notifications, the life cycle of the status, heaps and their order (a stable priority sort), release of delayed
    notifications while the target has room, saving that a kill cannot tear, append-only history, consistency of every reachable store, lost updates, paging, receipts.
  \<^item> The rest: quotas under changing limits and what an overflow does to them, registry history, selection of rules, publication, redaction as
    non-interference, the round trip of configurations, quantiles, metric totals, signatures.

  \<^bold>\<open>Bounds.\<close>  Loops over data are structural recursion or have a termination proof.  \<open>DelayQueue_Run\<close> follows the delay loop until it
  returns or blocks, with the number of rounds as fuel; the theorem says how many are enough, when the clock does not go back and the target has room.  The
  \<open>loop\<close> of a worker need not end: it is a partial function whose value \<open>None\<close> says that it does not return, and \<open>worker_stops\<close> shows
  when it does.  Versions are 64-bit: the theorems on runs ask that the versions on disk and two per step stay below \<open>2 ^ 63\<close>.  The theorems on
  quotas ask for amounts and daily and monthly limits of at most \<open>2 ^ 61\<close>; beyond them the sums overflow, which is a theorem as well.

  \<^bold>\<open>Assumption on clients.\<close>  \<open>request_ok\<close> (theory \<open>API_Runs\<close>): a submission with a new key has no identifier or one that is not stored, and an
  attempt count from zero to below the maximum; the server's random identifiers are fresh.  The code takes identifier and attempts from the request and checks
  neither, so without the assumption the theorems on runs are false: a submission can replace a stored notification, and negative
  attempts buy more sends.

  \<^bold>\<open>Not modelled.\<close>  The network side of the HTTP server (listening, connections, its timeouts: signals and the ends of \<open>ListenAndServe\<close> and \<open>Shutdown\<close>
  are steps); the text of log records; the text of JSON documents and \<open>null\<close> for a map of the data file; the JSON decoders of the API, SHA-256, HMAC, \<open>regexp\<close>, the
  engine of \<open>text/template\<close> and the HTTP client of the provider adapter, which are parameters; the sharing of a value that the code returns or keeps after it has passed on a pointer or slice of it (\<open>Submit\<close>, \<open>Put\<close>); letters outside ASCII in \<open>strings.ToLower\<close> and \<open>strings.TrimSpace\<close>;
  infinities and NaN in the token bucket; the SQL migrations, web assets and deployment files, which the Go code does not read.
\<close>

section \<open>The platform in operation\<close>

text \<open>The platform as \<open>main\<close> starts it with a loaded configuration.\<close>

definition main_platform :: "Config \<Rightarrow> Store \<Rightarrow> (nat \<Rightarrow> time) \<Rightarrow> string list \<Rightarrow> time \<Rightarrow> adapters \<Rightarrow> platform" where
  "main_platform c store clock ks now ps =
     Dispatcher_Run (main_dispatcher store (cfg_QueueCapacity c) (cfg_WorkerConcurrency c) (cfg_ProviderTimeout c) (cfg_MaxAttempts c) clock ks now ps)"

text \<open>
  What \<open>main\<close> does before it serves: it ends with a logged error when the configuration or the store cannot be loaded, and otherwise starts
  the workers.  A nil store without an error makes \<open>Recover\<close> dereference it.
\<close>

datatype started = Exits string | Panics | Serves Config platform

definition main_start ::
  "(string \<Rightarrow> go_error + string) \<Rightarrow> (string \<rightharpoonup> string) \<Rightarrow> string \<Rightarrow> go_error option \<Rightarrow> disk \<Rightarrow>
   (nat \<Rightarrow> time) \<Rightarrow> string list \<Rightarrow> time \<Rightarrow> adapters \<Rightarrow> started" where
  "main_start readFile getenv path read_err disk clock ks now ps =
     (case Load readFile getenv path of
        (_, Some e) \<Rightarrow> Exits ''config load failed''
      | (c, None) \<Rightarrow>
          (case Open read_err disk (cfg_DataFile c) of
             OpenError e \<Rightarrow> Exits ''store open failed''
           | OpenNil \<Rightarrow> Panics
           | Opened store \<Rightarrow> Serves c (main_platform c store clock ks now ps)))"

text \<open>The start of \<open>cmd/notification-worker\<close>, which reports the error itself; it serves exactly the same platform.\<close>

definition worker_start ::
  "(string \<Rightarrow> go_error + string) \<Rightarrow> (string \<rightharpoonup> string) \<Rightarrow> string \<Rightarrow> go_error option \<Rightarrow> disk \<Rightarrow>
   (nat \<Rightarrow> time) \<Rightarrow> string list \<Rightarrow> time \<Rightarrow> adapters \<Rightarrow> started" where
  "worker_start readFile getenv path read_err disk clock ks now ps =
     (case Load readFile getenv path of
        (_, Some e) \<Rightarrow> Exits e
      | (c, None) \<Rightarrow>
          (case Open read_err disk (cfg_DataFile c) of
             OpenError e \<Rightarrow> Exits e
           | OpenNil \<Rightarrow> Panics
           | Opened store \<Rightarrow> Serves c (Dispatcher_Run (worker_dispatcher store (cfg_QueueCapacity c) (cfg_WorkerConcurrency c)
               (cfg_ProviderTimeout c) (cfg_MaxAttempts c) clock ks now ps))))"

lemma worker_start_serves:
  "worker_start readFile getenv path read_err disk clock ks now ps = Serves c p \<longleftrightarrow>
   main_start readFile getenv path read_err disk clock ks now ps = Serves c p"
  by (auto simp: worker_start_def main_start_def main_platform_def worker_dispatcher_eq split: prod.splits option.splits open_result.splits)

text \<open>
  A consistent start: every notification on disk has its own identifier and a version from 1 to \<open>k\<close>, the waiting ones have attempts left, and
  the recovery goes through all of them.
\<close>

definition consistent_start :: "int \<Rightarrow> int \<Rightarrow> string list \<Rightarrow> stored_file \<Rightarrow> bool" where
  "consistent_start k M ks f =
     (case f of
        NoFile \<Rightarrow> ks = []
      | Document x \<Rightarrow> let d = Unmarshal x empty_snapshot in
          startable k M \<lparr>st_path = [], st_data = d, st_disk = (\<lambda>_. NoFile)\<rparr> \<and> iteration_order (s_Notifications d) ks
      | _ \<Rightarrow> True)"

lemma main_start_store:
  assumes "main_start readFile getenv path read_err disk clock ks now ps = Serves c p" "consistent_start k (cfg_MaxAttempts c) ks (disk (cfg_DataFile c))"
  obtains store where "startable k (cfg_MaxAttempts c) store" "iteration_order (s_Notifications (st_data store)) ks"
    "p = main_platform c store clock ks now ps"
proof -
  obtain store where S: "Open read_err disk (cfg_DataFile c) = Opened store" "p = main_platform c store clock ks now ps"
    using assms(1) by (auto simp: main_start_def split: prod.splits option.splits open_result.splits)
  have "startable k (cfg_MaxAttempts c) store" "iteration_order (s_Notifications (st_data store)) ks"
    using assms(2) S(1)
    by (auto simp: Open_def consistent_start_def startable_def store_ok_def iteration_order_def empty_snapshot_def Let_def
        split: option.splits stored_file.splits)
  then show thesis using that S(2) by blast
qed

lemma main_start_inv:
  assumes start: "main_start readFile getenv path read_err disk clock ks now ps = Serves c p" "consistent_start k (cfg_MaxAttempts c) ks (disk (cfg_DataFile c))"
  shows "platform_inv k p" "d_MaxAttempts (pl_d p) = cfg_MaxAttempts c"
proof -
  obtain store where S: "startable k (cfg_MaxAttempts c) store" "iteration_order (s_Notifications (st_data store)) ks"
    "p = main_platform c store clock ks now ps" by (rule main_start_store [OF start])
  have "Load readFile getenv path = (c, None)"
    using start(1) by (auto simp: main_start_def split: prod.splits option.splits open_result.splits)
  note I = start_inv [OF S(1,2)] and L = Load_ok [OF this]
  show "platform_inv k p" using I L by (simp add: S(3) main_platform_def)
  show "d_MaxAttempts (pl_d p) = cfg_MaxAttempts c" by (simp add: S(3) main_platform_def Dispatcher_Run_def main_dispatcher_def Let_def)
qed

definition sample_run :: platform where
  "sample_run = main_platform default_Config sample_store (\<lambda>_. 15) [''n1''] 0 main_providers"

definition sample_disk :: disk where
  "sample_disk = st_disk sample_store"

lemma sample_store_on_disk:
  "sample_disk (cfg_DataFile default_Config) = Encoded (st_data sample_store)"
  "Open None sample_disk (cfg_DataFile default_Config) = Opened sample_store"
proof -
  show D: "sample_disk (cfg_DataFile default_Config) = Encoded (st_data sample_store)"
    by (simp add: sample_disk_def sample_store_def Store_Create_def persistLocked_cases empty_store_def empty_snapshot_def default_Config_def)
  have "st_path sample_store = cfg_DataFile default_Config"
    by (simp add: sample_store_def Store_Create_def persistLocked_cases empty_store_def empty_snapshot_def default_Config_def)
  with Open_Encoded [where disk = sample_disk, OF D] show "Open None sample_disk (cfg_DataFile default_Config) = Opened sample_store" by (simp add: sample_disk_def)
qed

lemma sample_start: "main_start readFile Map.empty [] None sample_disk (\<lambda>_. 15) [''n1''] 0 main_providers = Serves default_Config sample_run"
proof -
  have "Load readFile Map.empty [] = (default_Config, None)"
    by (simp add: Load_def load_checked_def env_keys_def apply_env_def default_Config_def)
  then show ?thesis by (simp add: main_start_def sample_store_on_disk sample_run_def)
qed

lemma sample_consistent: "consistent_start 1 (cfg_MaxAttempts default_Config) [''n1''] (sample_disk (cfg_DataFile default_Config))"
proof -
  have "s_Notifications (st_data sample_store) = [''n1'' \<mapsto> queued_sample]" using sample_store_n1 by simp
  then show ?thesis
    using sample_ready(5,7) unfolding sample_store_on_disk
    by (auto simp: consistent_start_def Unmarshal_MarshalIndent startable_def store_ok_def iteration_order_def default_Config_def) (auto simp: queued_sample_def)
qed

lemma sample_run_parts:
  "pl_workers sample_run = replicate 4 Idle" "sends_of (pl_d sample_run) ''n1'' = 0" "stored (pl_d sample_run) = [''n1'' \<mapsto> queued_sample]"
  by (simp_all add: sample_run_def main_platform_def Dispatcher_Run_def main_dispatcher_def default_Config_def Let_def sends_of_def stored_def
      sample_store_n1 Recover_def application_New_def)

lemma api_run_inv:
  assumes start: "main_start readFile getenv path read_err disk clock ks now ps = Serves c p" "consistent_start k (cfg_MaxAttempts c) ks (disk (cfg_DataFile c))"
    and run: "0 \<le> k" "k + 2 * int n < 2 ^ 63" "api_steps secret n (p, t) (s, t')"
  shows "platform_inv (k + 2 * int n) s" "d_MaxAttempts (pl_d s) = cfg_MaxAttempts c"
proof -
  note P = main_start_inv [OF start]
  obtain j where j: "j \<le> 2 * n" "platform_steps j p s" using api_run [OF run(3)] by auto
  have "platform_inv (k + int j) s" "d_MaxAttempts (pl_d s) = cfg_MaxAttempts c"
    using platform_steps_inv [OF j(2) P(1) run(1)] P(2) run(2) j(1) by simp_all
  moreover have "k + int j \<le> k + 2 * int n" using j(1) by simp
  ultimately show "platform_inv (k + 2 * int n) s" "d_MaxAttempts (pl_d s) = cfg_MaxAttempts c"
    using core_mono by (auto simp: platform_inv_def)
qed

text \<open>C1: However HTTP requests, receipts, timers and workers interleave after a start from a consistent store, a
  notification is sent to providers at most as often as the maximal number of attempts since that start, and
  there is at most one copy of it in flight, in the hands of requests, in the queue, in timers and in the hands of workers taken together.  This
  is assumed of the clients (\<open>request_ok\<close>), because the code checks neither: a submission with a new key has no identifier or one that is
  not stored, and counts between zero and maximum minus one attempts.  The identifiers drawn at random are not stored either, and the run is shorter than
  the number of versions of 64 bits.\<close>

theorem at_most_max_attempts:
  assumes "main_start readFile getenv path read_err disk clock ks now ps = Serves c p" "consistent_start k (cfg_MaxAttempts c) ks (disk (cfg_DataFile c))"
    and "0 \<le> k" "k + 2 * int n < 2 ^ 63" "api_steps (cfg_WebhookSecret c) n (p, NewService) (s, t)"
  shows "int (sends_of (pl_d s) i) \<le> cfg_MaxAttempts c \<and>
    size {#x \<in># mset (pl_created s) + pending (pl_d s) + in_hands unsent (pl_workers s) + in_hands answered (pl_workers s). n_ID x = i#} \<le> 1"
  using api_run_inv [OF assms] by (auto simp: platform_inv_def core_inv_def single_def ac_simps)

lemma sample_round:
  assumes "api_steps secret k x (s, t)" "0 < length (pl_workers s)" "pl_workers s ! 0 = Idle"
  shows "\<exists>n \<le> k + 8. api_steps secret n x (s\<lparr>pl_d := loop_round v (pl_d s)\<rparr>, t)"
  using loop_round_run [OF assms(2,3), of v] api_background [OF _ assms(1)] by (metis add_left_mono)

theorem at_most_max_attempts_witness:
  "int (sends_of (pl_d (sample_run\<lparr>pl_d := loop_round sample_deliver_env (pl_d sample_run)\<rparr>)) ''n1'') \<le> 5"
proof -
  have idle: "0 < length (pl_workers sample_run)" "pl_workers sample_run ! 0 = Idle" by (simp_all add: sample_run_parts)
  obtain n where n: "n \<le> 8" "api_steps (cfg_WebhookSecret default_Config) n (sample_run, NewService)
      (sample_run\<lparr>pl_d := loop_round sample_deliver_env (pl_d sample_run)\<rparr>, NewService)"
    using sample_round [OF api_steps.start idle] by fastforce
  have "cfg_MaxAttempts default_Config = 5" by (simp add: default_Config_def)
  then show ?thesis
    using at_most_max_attempts [OF sample_start sample_consistent _ _ n(2)] n(1) by simp
qed

text \<open>C2: Once a client cancels a waiting or paused notification that no worker has claimed, through the HTTP API, no provider is
  called for it again, in whatever order requests, timers and workers go on: every copy in flight is out of date and fails its claim.  Before and
  after the cancellation the clients keep to \<open>request_ok\<close> as in the previous theorem; in particular nobody submits another notification
  under the identifier of the canceled one, which the code would store in its place.\<close>

theorem canceled_never_sent:
  assumes start: "main_start readFile getenv path read_err disk clock ks now ps = Serves c p" "consistent_start k (cfg_MaxAttempts c) ks (disk (cfg_DataFile c))"
    and run: "0 \<le> k" "k + 2 * int n + 2 + 2 * int n' < 2 ^ 63"
      "api_steps (cfg_WebhookSecret c) n (p, NewService) (s, t)"
    and waits: "stored (pl_d s) i = Some m" "n_Status m \<in> {StatusQueued, StatusPaused}"
      "\<forall>x \<in># in_hands claimed (pl_workers s). n_ID x \<noteq> i"
    and cancel: "cancel_request r i"
    and on: "api_steps (cfg_WebhookSecret c) n' (after_request e r t (cfg_WebhookSecret c) s, t) (s', t')"
  shows "sends_of (pl_d s') i = sends_of (pl_d s) i"
proof -
  let ?c = "after_request e r t (cfg_WebhookSecret c) s"
  note C = after_cancel [OF cancel waits(1), of e t "cfg_WebhookSecret c"]
  have inv: "platform_inv (k + 2 * int n) s" using api_run_inv(1) [OF start run(1) _ run(3)] run(2) by simp
  have k: "k + 2 * int n < 2 ^ 63 - 1" using run(2) by simp
  have inv': "platform_inv (k + 2 * int n + 1) ?c"
    unfolding C using platform_step_inv [OF platform_step.cancel inv _ k] run(1) by simp
  have sup: "superseded i ?c" unfolding C using Cancel_supersedes [OF inv k waits(1,2) _ waits(3)] by simp
  obtain j where j: "j \<le> 2 * n'" "platform_steps j ?c s'" using api_run [OF on] by auto
  then have "sends_of (pl_d s') i = sends_of (pl_d ?c) i"
    using platform_steps_superseded [OF j(2) inv' sup] run(1,2) by simp
  then show ?thesis by (simp add: C with_app_def sends_of_def)
qed

lemma sample_cancel: "cancel_request (sample_http ''POST'' ''/api/v1/notifications/n1/cancel'') ''n1''"
  by (simp add: cancel_request_def sample_http_def mux_route_def cleanPath_def path_Clean_def mux_match_def exact_routes_def tree_routes_def TrimPrefix_def)

theorem canceled_never_sent_witness:
  "let c = after_request sample_api_env (sample_http ''POST'' ''/api/v1/notifications/n1/cancel'') NewService (cfg_WebhookSecret default_Config) sample_run in
     sends_of (pl_d (c\<lparr>pl_d := loop_round sample_deliver_env (pl_d c)\<rparr>)) ''n1'' = 0"
proof -
  let ?c = "after_request sample_api_env (sample_http ''POST'' ''/api/v1/notifications/n1/cancel'') NewService (cfg_WebhookSecret default_Config) sample_run"
  have idle: "0 < length (pl_workers ?c)" "pl_workers ?c ! 0 = Idle" by (simp_all add: sample_run_parts after_request_def)
  obtain n where n: "n \<le> 8" "api_steps (cfg_WebhookSecret default_Config) n (?c, NewService) (?c\<lparr>pl_d := loop_round sample_deliver_env (pl_d ?c)\<rparr>, NewService)"
    using sample_round [OF api_steps.start idle] by fastforce
  note C = canceled_never_sent [OF sample_start sample_consistent _ _ api_steps.start _ _ _ sample_cancel n(2)]
  have "sends_of (pl_d (?c\<lparr>pl_d := loop_round sample_deliver_env (pl_d ?c)\<rparr>)) ''n1'' = sends_of (pl_d sample_run) ''n1''"
    by (rule C) (use n(1) sample_run_parts sample_ready(2) in \<open>auto simp: in_hands_def\<close>)
  then show ?thesis by (simp add: sample_run_parts(2) Let_def)
qed

text \<open>C9: A worker that has claimed a notification does not notice that it was paused meanwhile: its failed send puts a
  copy into a timer whose version, after the refused update, is the version the pause has stored, so that copy passes the
  claim and the paused notification is processed again.\<close>

theorem retry_reclaims_paused:
  assumes "stored d (n_ID n) = Some m" "n_Version m = i64 (n_Version n + 1)" "n_Status n = StatusProcessing"
    and "n_Attempts n < d_MaxAttempts d" "v_io v 1 = IoOk"
  shows "let d1 = retry tt tu io n err d in
     stored d1 = stored d \<and>
     (\<exists>copy d2 claim. d_Timers d1 = d_Timers d @ [(backoff (n_Attempts n), copy)] \<and> deliver_claim v copy d1 = (d2, Some claim) \<and>
        n_ID claim = n_ID n \<and> stored d2 (n_ID n) = Some claim \<and> n_Status claim = StatusProcessing)"
proof -
  define copy where "copy = n\<lparr>n_LastError := err, n_Status := StatusQueued, n_Version := i64 (n_Version n + 1), n_UpdatedAt := tt\<rparr>"
  define d1 where "d1 = retry tt tu io n err d"
  have T: "Transition tt StatusQueued (n\<lparr>n_LastError := err\<rparr>) = (copy, None)"
    using assms(3) by (simp add: Transition_def allowed_def copy_def)
  have "\<not> d_MaxAttempts d \<le> n_Attempts n" using assms(4) by simp
  then have R: "d1 = AfterFunc (backoff (n_Attempts n)) copy (fst (update_store tu io copy (n_Version n) d))"
    using T by (simp add: d1_def retry_def Let_def copy_def)
  have id: "n_ID copy = n_ID n" "n_Version copy = n_Version m" "n_Status copy = StatusQueued" using assms(2) by (simp_all add: copy_def)
  have "n_Version m \<noteq> n_Version n" using i64_succ_neq assms(2) by metis
  then have st: "stored d1 = stored d" using assms(1) id(1) by (simp add: R update_store_effect cas_def)
  have "s_Notifications (st_data (d_Store d1)) (n_ID copy) = Some m" using st assms(1) id(1) by (simp add: stored_def)
  from deliver_claim_ok [OF this id(2) [symmetric] id(3) assms(5)] obtain d2 claim where
    C: "deliver_claim v copy d1 = (d2, Some claim)"
      "claim = copy\<lparr>n_Status := StatusProcessing, n_Version := i64 (n_Version copy + 1), n_UpdatedAt := v_clock v 6\<rparr>"
      "st_data (d_Store d2) = update_data (v_clock v 7) claim (st_data (d_Store d1))" by blast
  have "d_Timers d1 = d_Timers d @ [(backoff (n_Attempts n), copy)]" by (simp add: R AfterFunc_def update_store_def Let_def)
  moreover have "stored d2 (n_ID n) = Some claim" "n_ID claim = n_ID n" "n_Status claim = StatusProcessing"
    using id(1) by (simp_all add: C(2,3) stored_def)
  ultimately show ?thesis using st C(1) unfolding Let_def d1_def [symmetric] by blast
qed

theorem retry_reclaims_paused_witness:
  "let claim = the (snd (deliver_claim sample_deliver_env queued_sample sample_dispatcher));
       d = fst (deliver_claim sample_deliver_env queued_sample sample_dispatcher);
       d' = with_app (fst (Pause 40 41 IoOk ''n1'' 0 (app_of d))) d;
       d1 = retry 50 51 IoOk claim ''timeout'' d'
   in n_Status (the (stored d' ''n1'')) = StatusPaused \<and>
      (\<exists>copy d2 c. d_Timers d1 = [(100 * millisecond, copy)] \<and> deliver_claim sample_deliver_env copy d1 = (d2, Some c) \<and>
         stored d2 ''n1'' = Some c \<and> n_Status c = StatusProcessing)"
proof -
  have io: "v_io sample_deliver_env 1 = IoOk" by (simp add: sample_deliver_env_def)
  obtain d claim where C: "deliver_claim sample_deliver_env queued_sample sample_dispatcher = (d, Some claim)"
      "claim = queued_sample\<lparr>n_Status := StatusProcessing, n_Version := i64 (n_Version queued_sample + 1), n_UpdatedAt := v_clock sample_deliver_env 6\<rparr>"
      "d = sample_dispatcher\<lparr>d_Store := d_Store d\<rparr>" "st_data (d_Store d) = update_data (v_clock sample_deliver_env 7) claim (st_data (d_Store sample_dispatcher))"
    using deliver_claim_ok [OF sample_ready(1) refl sample_ready(2) io] by blast
  have n: "n_ID claim = ''n1''" "n_Status claim = StatusProcessing" "n_Version claim = 2" "n_Attempts claim = 0"
    using sample_ready(5,7) by (simp_all add: C(2)) (simp add: queued_sample_def i64_def)
  define d' where "d' = with_app (fst (Pause 40 41 IoOk ''n1'' 0 (app_of d))) d"
  let ?m = "claim\<lparr>n_Status := StatusPaused, n_Version := i64 (n_Version claim + 1), n_UpdatedAt := 40\<rparr>"
  have get: "Store_Get ''n1'' (d_Store d) = (claim, None)" using n(1) by (simp add: Store_Get_def C(4))
  have T: "Transition 40 StatusPaused claim = (?m, None)" using n(2) by (simp add: Transition_def allowed_def)
  have st: "stored d' ''n1'' = Some ?m"
    using n get T by (simp add: d'_def Pause_def transition_def app_of_def with_app_def stored_def Store_Update_def C(4) Let_def)
  have rest: "d_Timers d' = []" "d_MaxAttempts d' = 5" by (simp_all add: d'_def with_app_def) (subst C(3), simp add: sample_dispatcher_def)+
  have "n_Version ?m = i64 (n_Version claim + 1)" by simp
  note R = retry_reclaims_paused [of d' claim ?m sample_deliver_env 50 51 IoOk "''timeout''", OF _ this n(2) _ io]
  have "backoff 0 = 100 * millisecond" by (simp add: backoff_exact)
  then show ?thesis using R st n rest unfolding C(1) Let_def fst_conv snd_conv option.sel d'_def [symmetric] by auto
qed

section \<open>From submission to acceptance\<close>

text \<open>C3: A valid notification that is due and submitted to an empty queue is delivered by the next round of a
  worker, if it has not expired, the limiter admits it and the chosen provider reports no error: the stored notification is accepted, it has been
  sent once with its subject and body, its timeline is complete, and neither the queue nor a timer holds a copy.\<close>

theorem submitted_then_accepted:
  assumes sub: "Submit sum256 env n (app_of d) = (a, m, True, None)" and due: "due_now (se_now env) n" "due_now (v_clock v 0) n"
    and q: "queue_inv (d_Queue d)" "waiting (d_Queue d) = {#}"
    and go: "\<not> expired_at (v_clock v 2) n" "snd (Allow (v_clock v 5) 1 (d_Limiter d))" "v_io v 1 = IoOk" "v_io v 3 = IoOk"
    and chosen: "fst (snd (Choose (v_choose v) (v_health v) (d_Adapters d) (n_Channel n) (d_Router d))) = Some p"
    and sends: "\<And>rq. snd (snd (Send (v_send v) rq (d_Adapters d p))) = None"
  shows "let d' = loop_round v (with_app a d) in
     n_Status (fst (Store_Get (n_ID m) (d_Store d'))) = StatusAccepted \<and>
     map ev_Status (Timeline (n_ID m) (d_Store d')) = map ev_Status (Timeline (n_ID m) (a_Store a)) @ [StatusProcessing, StatusAccepted] \<and>
     (\<exists>rq. d_Sends d' = d_Sends d @ [(p, rq)] \<and> n_ID (rq_Notification rq) = n_ID m \<and> rq_Body rq = n_Body m \<and> rq_Subject rq = n_Subject m) \<and>
     waiting (d_Queue d') = {#} \<and> d_Timers d' = d_Timers d"
proof -
  obtain vn e' where C: "se_ctx env = None" "Validate n = (vn, None)" "\<not> any_suppressed sum256 (admitted env n) (a_Store (app_of d))"
    "Store_Create (fst (se_created env)) (snd (se_created env)) (se_io env) (admitted env n) (a_Store (app_of d)) = (a_Store a, admitted env n, True, e')"
    "m = admitted env n" using Submit_created [OF sub] by metis
  have m: "s_Notifications (st_data (a_Store a)) (n_ID m) = Some m" "n_Status m = StatusQueued" "n_ScheduleAt m = n_ScheduleAt n"
    "n_ExpiresAt m = n_ExpiresAt n" "n_Channel m = n_Channel n"
    using Store_Create_created(3) [OF C(4)] by (simp_all add: C(5) del: admitted_simps(9))
  have "due_now (se_now env) (admitted env n)" using due(1) by (simp add: due_now_def)
  then have E: "e' = None" "Enqueue (se_enqueued env) m (d_Queue d) = (a_Queue a, None)"
    using sub C(3) unfolding Submit_valid [OF C(1,2)] C(4) C(5)
    by (cases a; auto simp: app_of_def Let_def prod_eq_iff split: if_splits)+
  from q(1) have w: "queue_inv (a_Queue a)" "waiting (a_Queue a) = {#m#}"
    by (cases rule: Enqueue_waiting [where now = "se_enqueued env" and n = m]; use E(2) q(2) in simp)+
  have "queue_deq (a_Queue a) \<noteq> None" using queue.deq_None_iff [OF w(1)] w(2) by (auto simp: waiting_def)
  then obtain q' x where D: "Dequeue (a_Queue a) = (q', Some x)" by (auto simp: Dequeue_deq split: option.splits)
  with Dequeue_waiting(2) [OF w(1) D] w(2) have x: "x = m" "waiting q' = {#}" by (auto simp: add_mset_eq_single)
  define d1 where "d1 = (with_app a d)\<lparr>d_Queue := q'\<rparr>"
  have parts: "d_Store d1 = a_Store a" "d_Queue d1 = q'" "d_Limiter d1 = d_Limiter d" "d_Adapters d1 = d_Adapters d" "d_Router d1 = d_Router d"
    "d_Sends d1 = d_Sends d" "d_Timers d1 = d_Timers d" by (simp_all add: d1_def with_app_def)
  have "loop_schedule v m d1 = (d1, Some m)" using due(2) m(3) by (auto simp: loop_schedule_def due_now_def split: option.splits)
  then have L: "loop_round v (with_app a d) = deliver v m d1"
    using D by (simp add: loop_round_def x with_app_def d1_def)
  have ex: "\<not> expired_at (v_clock v 2) m" using go(1) m(4) by (simp add: expired_at_def)
  have "let d' = deliver v m d1 in
     (\<exists>r. Store_Get (n_ID m) (d_Store d') = (r, None) \<and> n_Status r = StatusAccepted \<and> n_Provider r = Name (d_Adapters d1 p) \<and>
        n_Attempts r = i64 (n_Attempts m + 1)) \<and>
     map ev_Status (Timeline (n_ID m) (d_Store d')) = map ev_Status (Timeline (n_ID m) (d_Store d1)) @ [StatusProcessing, StatusAccepted] \<and>
     (\<exists>rq. d_Sends d' = d_Sends d1 @ [(p, rq)] \<and> n_ID (rq_Notification rq) = n_ID m \<and> rq_Body rq = n_Body m \<and> rq_Subject rq = n_Subject m) \<and>
     d_Queue d' = d_Queue d1 \<and> d_Timers d' = d_Timers d1"
    by (rule deliver_success) (use m ex go chosen sends parts in auto)
  then show ?thesis unfolding L Let_def parts using x(2) by auto
qed

definition fresh_dispatcher :: Dispatcher where
  "fresh_dispatcher = sample_dispatcher\<lparr>d_Store := a_Store sample_service, d_Queue := a_Queue sample_service\<rparr>"

lemma fresh_submitted: "\<exists>a m. Submit (\<lambda>x. x) sample_submit_env sample_notification (app_of fresh_dispatcher) = (a, m, True, None)"
proof -
  have "app_of fresh_dispatcher = sample_service" by (simp add: app_of_def fresh_dispatcher_def)
  then show ?thesis using sample_submitted by auto
qed

theorem submitted_then_accepted_witness:
  "\<exists>a m. Submit (\<lambda>x. x) sample_submit_env sample_notification (app_of fresh_dispatcher) = (a, m, True, None) \<and>
     n_Status (fst (Store_Get (n_ID m) (d_Store (loop_round sample_deliver_env (with_app a fresh_dispatcher))))) = StatusAccepted"
proof -
  obtain a m where S: "Submit (\<lambda>x. x) sample_submit_env sample_notification (app_of fresh_dispatcher) = (a, m, True, None)"
    using fresh_submitted by blast
  have n: "n_ScheduleAt sample_notification = None" "n_ExpiresAt sample_notification = None" "n_Channel sample_notification = ChannelEmail"
    by (simp_all add: sample_notification_def empty_Notification_def)
  have d: "d_Limiter fresh_dispatcher = d_Limiter sample_dispatcher" "d_Router fresh_dispatcher = sample_router"
    "d_Adapters fresh_dispatcher = sample_adapters" "d_Queue fresh_dispatcher = Queue_New 10"
    by (simp_all add: fresh_dispatcher_def sample_dispatcher_def)
  have "let d' = loop_round sample_deliver_env (with_app a fresh_dispatcher) in
     n_Status (fst (Store_Get (n_ID m) (d_Store d'))) = StatusAccepted \<and>
     map ev_Status (Timeline (n_ID m) (d_Store d')) = map ev_Status (Timeline (n_ID m) (a_Store a)) @ [StatusProcessing, StatusAccepted] \<and>
     (\<exists>rq. d_Sends d' = d_Sends fresh_dispatcher @ [(0, rq)] \<and> n_ID (rq_Notification rq) = n_ID m \<and> rq_Body rq = n_Body m \<and> rq_Subject rq = n_Subject m) \<and>
     waiting (d_Queue d') = {#} \<and> d_Timers d' = d_Timers fresh_dispatcher"
    by (rule submitted_then_accepted [OF S])
      (use sample_ready(4) sample_choose sample_sends queue_inv_New in
        \<open>simp_all add: d n due_now_def expired_at_def sample_deliver_env_def waiting_def queue_contents_def Queue_New_def\<close>)
  then show ?thesis using S by (auto simp: Let_def)
qed

section \<open>Recovery\<close>

lemma enqueue_each_all: "enqueue_each clock i ns q = enqueue_all (zip ns (map clock [i..<i + length ns])) q"
proof (induction ns arbitrary: i q)
  case (Cons n ns)
  have "[i..<i + length (n # ns)] = i # [Suc i..<Suc i + length ns]" by (simp add: upt_rec)
  then show ?case using Cons by simp
qed simp

lemma recovered_queue:
  assumes "int (length (Queued ks store)) \<le> capacity" "0 \<le> capacity"
  shows "queue_inv (d_Queue (main_dispatcher store capacity conc timeout M clock ks now ps))"
    "waiting (d_Queue (main_dispatcher store capacity conc timeout M clock ks now ps)) = mset (Queued ks store)"
proof -
  let ?ns = "Queued ks store" and ?es = "zip (Queued ks store) (map clock [0..<length (Queued ks store)])"
  have q: "d_Queue (main_dispatcher store capacity conc timeout M clock ks now ps) = enqueue_all ?es (Queue_New capacity)"
    by (simp add: main_dispatcher_def Recover_def application_New_def enqueue_each_all Let_def)
  have "Queue_Len (Queue_New capacity) + int (length ?es) \<le> q_max (Queue_New capacity)" using assms by (simp add: Queue_Len_def Queue_New_def)
  note C = enqueue_all_contents [OF queue_inv_New this]
  then show "queue_inv (d_Queue (main_dispatcher store capacity conc timeout M clock ks now ps))" by (simp add: q)
  have "queue_contents (Queue_New capacity) = {#}" by (simp add: queue_contents_def Queue_New_def)
  then show "waiting (d_Queue (main_dispatcher store capacity conc timeout M clock ks now ps)) = mset ?ns"
    using C by (simp add: q waiting_def flip: mset_map)
qed

lemma main_steady:
  assumes "ch \<in> {ChannelEmail, ChannelSMS, ChannelWebhook, ChannelPush}" "k < 2 ^ 63"
  shows "steady k ch (main_dispatcher store capacity conc timeout M clock ks now main_providers)"
proof -
  let ?d = "main_dispatcher store capacity conc timeout M clock ks now main_providers"
  have "closed_first (d_Router ?d) ChannelEmail 0" "closed_first (d_Router ?d) ChannelSMS 1"
    "closed_first (d_Router ?d) ChannelWebhook 2" "closed_first (d_Router ?d) ChannelPush 3"
    by (simp_all add: closed_first_def main_dispatcher_def Router_Add_def Router_New_def candidates_def main_providers_def Let_def)
  moreover have "mock_sound k (d_Adapters ?d p)" for p
    using assms(2) by (simp add: mock_sound_def main_dispatcher_def main_providers_def Let_def)
  ultimately show ?thesis using assms(1) by (auto simp: steady_def)
qed

text \<open>C4: After a restart nothing that was waiting is forgotten or sent twice: up to a hundred waiting notifications that the file holds and the
  queue has room for are sent exactly once each and accepted in as many rounds of a worker, when they are due and not
  expired, for channels the program serves, and the file can be written.\<close>

theorem recovered_are_delivered:
  assumes start: "main_start readFile getenv path read_err disk clock ks now main_providers = Serves c p"
      "consistent_start k (cfg_MaxAttempts c) ks (disk (cfg_DataFile c))"
    and ns: "ns = Queued ks (d_Store (pl_d p))" "length ns \<le> 100" "int (length ns) \<le> cfg_QueueCapacity c"
    and able: "\<forall>n \<in> set ns. n_Channel n \<in> {ChannelEmail, ChannelSMS, ChannelWebhook, ChannelPush} \<and>
      (\<forall>j. due_now (v_clock (vs j) 0) n \<and> \<not> expired_at (v_clock (vs j) 2) n)"
    and world: "calm vs 0" "now \<le> v_clock (vs 0) 5"
  shows "let d' = rounds vs 0 (length ns) (pl_d p) in
    mset (sent_ids d') = mset (map n_ID ns) \<and>
    (\<forall>n \<in> set ns. \<exists>m. Store_Get (n_ID n) (d_Store d') = (m, None) \<and> n_Status m = StatusAccepted) \<and>
    Queue_Len (d_Queue d') = 0 \<and> d_Timers d' = []"
proof -
  obtain store where S: "startable k (cfg_MaxAttempts c) store" "iteration_order (s_Notifications (st_data store)) ks"
    "p = main_platform c store clock ks now main_providers"
    by (rule main_start_store [OF start])
  let ?d = "main_dispatcher store (cfg_QueueCapacity c) (cfg_WorkerConcurrency c) (cfg_ProviderTimeout c) (cfg_MaxAttempts c) clock ks now main_providers"
  have d: "pl_d p = ?d" by (simp add: S(3) main_platform_def Dispatcher_Run_def)
  have parts: "d_Store ?d = store" "d_Limiter ?d = rate_New now 100 100" "d_Sends ?d = []" "d_Timers ?d = []"
    by (simp_all add: main_dispatcher_def Recover_def application_New_def Let_def)
  have q: "ns = Queued ks store" using ns(1) by (simp add: d parts)
  note Q = recovered_queue [OF ns(3) [unfolded q]]
  have cap: "0 \<le> cfg_QueueCapacity c" using ns(3) by linarith
  have ok: "store_ok k (s_Notifications (st_data store))" using S(1) by (simp add: startable_def)
  have "map n_ID (map_values (s_Notifications (st_data store)) ks) = ks" using map_values_ids [OF ok] S(2) by (simp add: iteration_order_def)
  then have dist: "distinct (map n_ID ns)" unfolding q Queued_def using S(2) by (intro distinct_filter_ids) (simp add: iteration_order_def)
  have ready: "\<forall>n \<in> set ns. ready vs 0 (length ns) ?d n"
  proof
    fix n
    assume n: "n \<in> set ns"
    then have "n \<in> ran (s_Notifications (st_data store))" "n_Status n = StatusQueued"
      using set_map_values_order [OF S(2)] by (auto simp: q Queued_def)
    then have "s_Notifications (st_data store) (n_ID n) = Some n" using ok by (auto simp: store_ok_def ran_def)
    moreover have "steady (length ns) (n_Channel n) ?d" using able n ns(2) by (intro main_steady) auto
    ultimately show "ready vs 0 (length ns) ?d n" using able n \<open>n_Status n = StatusQueued\<close> by (auto simp: ready_def parts)
  qed
  have tokens: "tokens_left (length ns) (v_clock (vs 0) 5) ?d"
    using main_bucket_ok [of now] ns(2) world(2) by (simp add: tokens_left_def parts) (simp add: rate_New_def)
  note D = ordered_deliveries [OF Q(1) [OF cap] Q(2) [OF cap, folded q] dist ready world(1) tokens]
  obtain es where E: "mset es = queue_contents (d_Queue ?d)" "sent_ids (rounds vs 0 (length ns) ?d) = map (\<lambda>e. n_ID (fst e)) es"
    "\<forall>n \<in> set ns. \<exists>m. Store_Get (n_ID n) (d_Store (rounds vs 0 (length ns) ?d)) = (m, None) \<and> n_Status m = StatusAccepted"
    "Queue_Len (d_Queue (rounds vs 0 (length ns) ?d)) = 0" "d_Timers (rounds vs 0 (length ns) ?d) = []"
    using D unfolding Let_def parts(3,4) list.map(1) append_Nil by (elim exE conjE)
  have "mset (map fst es) = mset ns" using E(1) Q(2) [OF cap, folded q] by (simp add: waiting_def)
  then have "mset (map n_ID (map fst es)) = mset (map n_ID ns)" by (metis mset_map)
  then have "mset (sent_ids (rounds vs 0 (length ns) ?d)) = mset (map n_ID ns)" unfolding E(2) by (simp add: comp_def)
  then show ?thesis using E(3-5) unfolding d Let_def by (intro conjI)
qed

theorem recovered_are_delivered_witness:
  "let d' = rounds (\<lambda>_. sample_deliver_env) 0 1 (pl_d sample_run) in mset (sent_ids d') = {#''n1''#} \<and>
     (\<exists>m. Store_Get ''n1'' (d_Store d') = (m, None) \<and> n_Status m = StatusAccepted)"
proof -
  have ns: "Queued [''n1''] (d_Store (pl_d sample_run)) = [queued_sample]"
    using sample_run_parts(3) by (simp add: Queued_def sample_fields map_values_def stored_def)
  have calm: "calm (\<lambda>_. sample_deliver_env) 0" by (rule two_waiting_ready(2))
  show ?thesis
    using recovered_are_delivered [OF sample_start sample_consistent ns [symmetric] _ _ _ calm]
    by (simp add: sample_fields due_now_def expired_at_def default_Config_def sample_deliver_env_def Let_def)
qed

end
